(* ===== verification/Prelude.thy ===== *)
theory Prelude
  imports Main "HOL-Library.Multiset" "HOL-Library.Word"
begin

text \<open>
  Shared material: the named collections the component theories fill, generic lemmas on
  lists, and the error type of the modelled C++ code. A function that may throw returns
  \<open>exn + 'a\<close>, with \<open>Inl\<close> for the exception: \<open>Runtime_error msg\<close> stands for
  \<^verbatim>\<open>std::runtime_error\<close> and every class derived from it, the only exceptions the
  source catches.
\<close>

named_theorems handler_simps \<open>unfolding rules of the work handler's operations\<close>
named_theorems session_simps \<open>unfolding rules of the HTTP and WebSocket sessions\<close>
named_theorems step_intros \<open>introduction rules of the step relations\<close>

datatype exn = Runtime_error string

fun what :: "exn \<Rightarrow> string" where
  "what (Runtime_error msg) = msg"

type_synonym 'a throws = "exn + 'a"

abbreviation throw :: "string \<Rightarrow> 'a throws" where
  "throw msg \<equiv> Inl (Runtime_error msg)"

text \<open>Sequencing of computations that may throw.\<close>

fun bind_throws :: "'a throws \<Rightarrow> ('a \<Rightarrow> 'b throws) \<Rightarrow> 'b throws" where
  "bind_throws (Inl e) f = Inl e"
| "bind_throws (Inr x) f = f x"

lemma bind_throws_Inr_iff:
  "bind_throws m f = Inr y \<longleftrightarrow> (\<exists>x. m = Inr x \<and> f x = Inr y)"
  by (cases m) auto

lemma bind_throws_Inl_iff:
  "bind_throws m f = Inl e \<longleftrightarrow> m = Inl e \<or> (\<exists>x. m = Inr x \<and> f x = Inl e)"
  by (cases m) auto

lemmas bind_throws_iffs = bind_throws_Inr_iff bind_throws_Inl_iff

subsection \<open>Lists\<close>

definition swap :: "'a list \<Rightarrow> nat \<Rightarrow> nat \<Rightarrow> 'a list" where
  "swap xs i j = xs[i := xs ! j, j := xs ! i]"

lemma length_swap [simp]: "length (swap xs i j) = length xs"
  by (simp add: swap_def)

lemma mset_swap_nth [simp]:
  "i < length xs \<Longrightarrow> j < length xs \<Longrightarrow> mset (swap xs i j) = mset xs"
  by (simp add: swap_def mset_swap)

lemma nth_swap:
  "i < length xs \<Longrightarrow> j < length xs \<Longrightarrow>
   swap xs i j ! k = (if k = j then xs ! i else if k = i then xs ! j else xs ! k)"
  by (auto simp: swap_def nth_list_update)

lemma sorted_wrt_strict_unique:
  assumes "\<And>x y. R x y \<Longrightarrow> \<not> R y x"
    and "sorted_wrt R xs" and "sorted_wrt R ys" and "mset xs = mset ys"
  shows "xs = ys"
  using assms(2-4)
proof (induction xs arbitrary: ys)
  case Nil
  then show ?case by simp
next
  case (Cons x xs)
  from Cons.prems(3) obtain y ys' where ys: "ys = y # ys'"
    by (cases ys) auto
  have "x = y"
  proof (rule ccontr)
    assume "x \<noteq> y"
    from Cons.prems(3) ys have "x \<in> set (y # ys')" and "y \<in> set (x # xs)"
      by (metis list.set_intros(1) set_mset_mset)+
    with \<open>x \<noteq> y\<close> have "x \<in> set ys'" and "y \<in> set xs" by auto
    with Cons.prems(1,2) ys have "R x y" and "R y x" by auto
    with assms(1) show False by blast
  qed
  with Cons ys show ?case by simp
qed

lemma filter_mset_eq_all: "(\<And>x. x \<in># M \<Longrightarrow> P x) \<Longrightarrow> filter_mset P M = M"
  by (induction M) auto

text \<open>Replacing one element of a list: what is counted over the elements changes by that element.\<close>

lemma mset_concat_update:
  "i < length xs \<Longrightarrow>
   mset (concat (map f (xs[i := y]))) + mset (f (xs ! i)) = mset (concat (map f xs)) + mset (f y)"
proof (induction xs arbitrary: i)
  case (Cons x xs)
  show ?case
  proof (cases i)
    case (Suc k)
    then show ?thesis using Cons.IH [of k] Cons.prems by (simp add: union_assoc)
  qed (simp add: ac_simps)
qed simp

lemma length_filter_update:
  "i < length xs \<Longrightarrow>
   length (filter P (xs[i := y])) + (if P (xs ! i) then 1 else 0)
     = length (filter P xs) + (if P y then 1 else 0)"
proof (induction xs arbitrary: i)
  case (Cons x xs)
  then show ?case by (cases i) auto
qed simp

lemma sum_list_update:
  fixes f :: "'a \<Rightarrow> nat"
  shows "i < length xs \<Longrightarrow>
   sum_list (map f (xs[i := y])) + f (xs ! i) = sum_list (map f xs) + f y"
proof (induction xs arbitrary: i)
  case (Cons x xs)
  then show ?case by (cases i) (auto simp: add.left_commute add.assoc)
qed simp

lemma length_filter_two:
  assumes "\<And>x. Q x \<Longrightarrow> P x" "i < length xs" "j < length xs" "i \<noteq> j"
    and "P (xs ! i)" "\<not> Q (xs ! i)" "P (xs ! j)" "\<not> Q (xs ! j)"
  shows "length (filter Q xs) + 2 \<le> length (filter P xs)"
proof -
  let ?Q = "{k. k < length xs \<and> Q (xs ! k)}" and ?P = "{k. k < length xs \<and> P (xs ! k)}"
  have "card (?Q \<union> {i, j}) \<le> card ?P"
    using assms by (intro card_mono) auto
  moreover have "card (?Q \<union> {i, j}) = card ?Q + 2"
    using assms by (subst card_Un_disjoint) auto
  ultimately show ?thesis by (simp add: length_filter_conv_card)
qed

lemma exchange_eq:
  fixes A X :: "'a :: cancel_comm_monoid_add"
  assumes "X' + a = X + b" "A' + b = A + a"
  shows "A' + X' = A + X"
proof -
  have "A' + X' + a = A' + b + X" by (simp only: add.assoc assms(1) add.commute [of b X])
  also have "\<dots> = A + X + a" by (simp only: assms(2) add.assoc add.commute [of a X])
  finally show ?thesis by simp
qed

end
