(* ===== verification/Externals.thy ===== *)
theory Externals
  imports Prelude Complex_Main
begin

text \<open>
  Code the program calls but the repository does not hold (Boost, cpptoml) appears as
  arguments of the model. This theory declares the records that carry those arguments, one
  per library, and states as predicates what the library documents and the program relies
  on. Every predicate has an executable instance here, used only to show that it can hold.

  A C++ \<^verbatim>\<open>double\<close> that the program handles is finite and is represented by its value,
  a rational number; rounding is part of the library operations.
\<close>

type_synonym double = rat

subsection \<open>Positional notation\<close>

fun digits :: "nat \<Rightarrow> nat \<Rightarrow> nat list" where
  "digits b n = (if n < b \<or> b < 2 then [n] else digits b (n div b) @ [n mod b])"

declare digits.simps [simp del]

definition horner :: "nat \<Rightarrow> nat list \<Rightarrow> nat" where
  "horner b ds = foldl (\<lambda>acc d. acc * b + d) 0 ds"

lemma horner_Nil [simp]: "horner b [] = 0"
  by (simp add: horner_def)

lemma horner_snoc [simp]: "horner b (ds @ [d]) = horner b ds * b + d"
  by (simp add: horner_def)

lemma horner_Cons: "horner b (d # ds) = d * b ^ length ds + horner b ds"
proof (induction ds rule: rev_induct)
  case (snoc x ds)
  have "horner b (d # ds @ [x]) = horner b ((d # ds) @ [x])" by simp
  also have "\<dots> = (d * b ^ length ds + horner b ds) * b + x"
    using snoc by (simp only: horner_snoc)
  finally show ?case by (simp add: algebra_simps)
qed (simp add: horner_def)

lemma horner_replicate_0 [simp]: "horner b (replicate k 0 @ ds) = horner b ds"
  by (induction k) (simp_all add: horner_Cons)

lemma horner_bound: "\<forall>d \<in> set ds. d < b \<Longrightarrow> horner b ds < b ^ length ds"
proof (induction ds rule: rev_induct)
  case (snoc d ds)
  then have "horner b ds + 1 \<le> b ^ length ds" and d: "d < b" by auto
  then have "(horner b ds + 1) * b \<le> b ^ length ds * b" by (rule_tac mult_le_mono1)
  with d show ?case by (simp add: algebra_simps)
qed simp

lemma horner_digits [simp]: "horner b (digits b n) = n"
proof (induction b n rule: digits.induct)
  case (1 b n)
  then show ?case by (auto simp: digits.simps [of b n] horner_Cons)
qed

lemma digits_less: "2 \<le> b \<Longrightarrow> d \<in> set (digits b n) \<Longrightarrow> d < b"
proof (induction b n rule: digits.induct)
  case (1 b n)
  then show ?case by (auto simp: digits.simps [of b n] split: if_splits)
qed

lemma digits_nonempty [simp]: "digits b n \<noteq> []"
  by (simp add: digits.simps [of b n])

lemma length_digits: "2 \<le> b \<Longrightarrow> n < b ^ k \<Longrightarrow> 0 < k \<Longrightarrow> length (digits b n) \<le> k"
proof (induction k arbitrary: n)
  case (Suc k)
  show ?case
  proof (cases "n < b")
    case False
    then have "0 < k" using Suc.prems by (cases k) auto
    moreover have "n div b < b ^ k"
      using Suc.prems by (simp add: less_mult_imp_div_less mult.commute)
    ultimately have "length (digits b (n div b)) \<le> k" using Suc by simp
    with False Suc.prems show ?thesis by (simp add: digits.simps [of b n])
  qed (simp add: digits.simps [of b n])
qed simp

text \<open>Padded to a fixed width, the digit sequence of a number is unique.\<close>

lemma horner_inject:
  assumes "length xs = length ys" "horner b xs = horner b ys"
    and "\<forall>d \<in> set xs. d < b" "\<forall>d \<in> set ys. d < b"
  shows "xs = ys"
  using assms
proof (induction xs arbitrary: ys rule: rev_induct)
  case (snoc x xs)
  then obtain y ys' where ys: "ys = ys' @ [y]"
    by (metis append_butlast_last_id length_0_conv snoc_eq_iff_butlast)
  with snoc.prems have xy: "x < b" "y < b" and eq: "horner b xs * b + x = horner b ys' * b + y"
    by auto
  from eq have "(horner b xs * b + x) mod b = (horner b ys' * b + y) mod b" by simp
  with xy have "x = y" by simp
  with eq xy have "horner b xs = horner b ys'" by simp
  with snoc ys \<open>x = y\<close> show ?case by simp
qed simp

lemma padded_digits:
  assumes "length ds = k" "\<forall>d \<in> set ds. d < b" "2 \<le> b" "0 < k"
  shows "replicate (k - length (digits b (horner b ds))) 0 @ digits b (horner b ds) = ds"
proof (rule horner_inject [of _ _ b])
  have "horner b ds < b ^ k" using horner_bound [OF assms(2)] assms(1) by simp
  then have "length (digits b (horner b ds)) \<le> k" using assms by (simp add: length_digits)
  then show "length (replicate (k - length (digits b (horner b ds))) 0 @ digits b (horner b ds))
      = length ds"
    using assms(1) by simp
qed (use assms digits_less in auto)

subsection \<open>Hexadecimal characters\<close>

definition hex_digit :: "nat \<Rightarrow> char" where
  "hex_digit d = ''0123456789ABCDEF'' ! d"

definition hex_char_value :: "char \<Rightarrow> nat option" where
  "hex_char_value c =
     (let n = of_char c :: nat in
      if 48 \<le> n \<and> n \<le> 57 then Some (n - 48)
      else if 65 \<le> n \<and> n \<le> 70 then Some (n - 55)
      else if 97 \<le> n \<and> n \<le> 102 then Some (n - 87) else None)"

definition is_hex :: "char \<Rightarrow> bool" where
  "is_hex c \<longleftrightarrow> hex_char_value c \<noteq> None"

definition hex_value :: "string \<Rightarrow> nat" where
  "hex_value s = horner 16 (map (the \<circ> hex_char_value) s)"

lemma hex_char_value_digits: "list_all (\<lambda>d. hex_char_value (hex_digit d) = Some d) [0..<16]"
  by code_simp

lemma hex_char_value_digit [simp]: "d < 16 \<Longrightarrow> hex_char_value (hex_digit d) = Some d"
  using hex_char_value_digits by (simp add: list_all_iff)

lemma is_hex_digit [simp]: "d < 16 \<Longrightarrow> is_hex (hex_digit d)"
  by (simp add: is_hex_def)

lemma hex_char_value_less: "hex_char_value c = Some d \<Longrightarrow> d < 16"
  by (auto simp: hex_char_value_def Let_def split: if_splits)

lemma hex_value_digits: "\<forall>d \<in> set ds. d < 16 \<Longrightarrow> hex_value (map hex_digit ds) = horner 16 ds"
proof -
  assume "\<forall>d \<in> set ds. d < 16"
  then have "map (the \<circ> hex_char_value \<circ> hex_digit) ds = ds"
    by (induction ds) simp_all
  then show ?thesis by (simp add: hex_value_def)
qed

lemma hex_value_bound: "\<forall>c \<in> set s. is_hex c \<Longrightarrow> hex_value s < 16 ^ length s"
  using horner_bound [of "map (the \<circ> hex_char_value) s" 16] hex_char_value_less
  by (fastforce simp: hex_value_def is_hex_def)

subsection \<open>Boost.Multiprecision integers\<close>

text \<open>
  The operations on \<^verbatim>\<open>cpp_int\<close> values the program calls, for one fixed width:
  \<^item> \<open>export_bits n\<close>: the bytes \<^verbatim>\<open>export_bits (n, out, 8, false)\<close> writes, in order;
  \<^item> \<open>import_bits bs\<close>: the number \<^verbatim>\<open>import_bits (result, begin, end)\<close> reads;
  \<^item> \<open>extract_hex s\<close>: \<^verbatim>\<open>stream >> number\<close> on a stream over \<open>s\<close> with the
    \<^verbatim>\<open>hex\<close> flag: the number and whether the stream has reached its end, or the
    exception thrown;
  \<^item> \<open>insert_hex n\<close> and \<open>insert_dec n\<close>: the characters \<^verbatim>\<open>stream << number\<close> writes
    before padding, with the flags \<^verbatim>\<open>hex uppercase noshowbase\<close> or \<^verbatim>\<open>dec\<close>.
\<close>

record multiprecision =
  export_bits :: "nat \<Rightarrow> 8 word list"
  import_bits :: "8 word list \<Rightarrow> nat"
  extract_hex :: "string \<Rightarrow> (nat \<times> bool) throws"
  insert_hex :: "nat \<Rightarrow> string"
  insert_dec :: "nat \<Rightarrow> string"

text \<open>Export writes the least significant chunk first; import reads the most significant first.\<close>

definition bits_law :: "multiprecision \<Rightarrow> bool" where
  "bits_law M \<longleftrightarrow>
     (\<forall>n. export_bits M n = map of_nat (rev (digits 256 n))) \<and>
     (\<forall>bs. import_bits M bs = horner 256 (map unat bs))"

definition insert_law :: "multiprecision \<Rightarrow> bool" where
  "insert_law M \<longleftrightarrow>
     (\<forall>n. insert_hex M n = map hex_digit (digits 16 n)) \<and>
     (\<forall>n. insert_dec M n = map hex_digit (digits 10 n))"

text \<open>
  Extraction of as many hexadecimal digits as a value of \<open>sz\<close> bytes has, with or without the
  prefix 0x, reads them all and meets the end of the stream; a character that cannot belong to a
  number stops it before the end. The stream skips white space in front of the number, all six
  characters of it, so there a stopping character must be another one.
\<close>

definition is_space :: "char \<Rightarrow> bool" where
  "is_space c \<longleftrightarrow> c \<in> {CHR '' '', CHR 0x09, CHR 0x0A, CHR 0x0B, CHR 0x0C, CHR 0x0D}"

definition stops_number :: "string \<Rightarrow> char \<Rightarrow> bool" where
  "stops_number ds c \<longleftrightarrow> \<not> is_hex c \<and> c \<notin> set ''xX+-'' \<and> (is_space c \<longrightarrow> ds \<noteq> [])"

definition extract_law :: "nat \<Rightarrow> multiprecision \<Rightarrow> bool" where
  "extract_law sz M \<longleftrightarrow>
     (\<forall>s. s \<noteq> [] \<longrightarrow> list_all is_hex s \<longrightarrow> length s \<le> sz * 2 \<longrightarrow>
        extract_hex M s = Inr (hex_value s, True) \<and>
        extract_hex M (''0x'' @ s) = Inr (hex_value s, True)) \<and>
     (\<forall>ds c s. list_all is_hex ds \<longrightarrow> stops_number ds c \<longrightarrow>
        (\<exists>v. extract_hex M (ds @ c # s) = Inr (v, False)))"

abbreviation multiprecision_laws :: "nat \<Rightarrow> multiprecision \<Rightarrow> bool" where
  "multiprecision_laws sz M \<equiv> bits_law M \<and> insert_law M \<and> extract_law sz M"

text \<open>An instance, for witnesses.\<close>

definition sample_extract_hex :: "string \<Rightarrow> (nat \<times> bool) throws" where
  "sample_extract_hex s =
     (let t = (if take 2 s = ''0x'' then drop 2 s else s); ds = takeWhile is_hex t
      in Inr (hex_value ds, ds = t \<and> t \<noteq> []))"

definition sample_mp :: multiprecision where
  "sample_mp = \<lparr>
     export_bits = (\<lambda>n. map of_nat (rev (digits 256 n))),
     import_bits = (\<lambda>bs. horner 256 (map unat bs)),
     extract_hex = sample_extract_hex,
     insert_hex = (\<lambda>n. map hex_digit (digits 16 n)),
     insert_dec = (\<lambda>n. map hex_digit (digits 10 n))\<rparr>"

lemma takeWhile_stop: "list_all P ds \<Longrightarrow> \<not> P c \<Longrightarrow> takeWhile P (ds @ c # s) = ds"
  by (induction ds) auto

lemma not_hex_x: "\<not> is_hex (CHR ''x'')" "is_hex (CHR ''0'')"
  by (simp_all add: is_hex_def hex_char_value_def)

lemma no_prefix:
  "list_all is_hex ds \<Longrightarrow> \<not> is_hex c \<Longrightarrow> c \<noteq> CHR ''x'' \<Longrightarrow> take 2 (ds @ c # s) \<noteq> ''0x''"
  using not_hex_x by (cases ds; cases "tl ds") (auto simp: take_Cons' neq_Nil_conv)

lemma sample_extract_digits:
  assumes "s \<noteq> []" "list_all is_hex s"
  shows "sample_extract_hex s = Inr (hex_value s, True)"
    and "sample_extract_hex (''0x'' @ s) = Inr (hex_value s, True)"
proof -
  have all: "takeWhile is_hex s = s" using assms(2) by (auto simp: list_all_iff)
  have "take 2 s \<noteq> ''0x''" using assms(2) not_hex_x by (cases s; cases "tl s") auto
  then show "sample_extract_hex s = Inr (hex_value s, True)"
    using assms(1) by (simp only: sample_extract_hex_def Let_def if_False all simp_thms)
  have "take 2 (''0x'' @ s) = ''0x''" "drop 2 (''0x'' @ s) = s" by simp_all
  then show "sample_extract_hex (''0x'' @ s) = Inr (hex_value s, True)"
    using assms(1) by (simp only: sample_extract_hex_def Let_def if_True all simp_thms)
qed

lemma sample_extract_stops:
  assumes "list_all is_hex ds" "stops_number ds c"
  shows "sample_extract_hex (ds @ c # s) = Inr (hex_value ds, False)"
proof -
  have "\<not> is_hex c" "c \<noteq> CHR ''x''" using assms(2) by (auto simp: stops_number_def)
  then show ?thesis
    using no_prefix [OF assms(1)] takeWhile_stop [OF assms(1)]
    by (simp add: sample_extract_hex_def)
qed

lemma sample_mp_laws: "multiprecision_laws sz sample_mp"
proof (intro conjI)
  have e: "extract_hex sample_mp = sample_extract_hex" by (simp add: sample_mp_def)
  show "extract_law sz sample_mp"
    unfolding extract_law_def e using sample_extract_digits sample_extract_stops by blast
qed (simp_all add: bits_law_def insert_law_def sample_mp_def)

subsection \<open>Boost.Multiprecision floating point\<close>

text \<open>
  \<^verbatim>\<open>cpp_bin_float_100\<close>: multiplication and division round to the nearest of its
  values, \<open>round_100\<close>; conversion to \<^verbatim>\<open>double\<close> rounds again, \<open>round_double\<close>;
  conversion to \<^verbatim>\<open>uint128_t\<close> is \<open>truncate_128\<close>. Division by zero is left to the
  library: \<open>divide_by_zero\<close>.
\<close>

record bigfloat_ops =
  round_100 :: "rat \<Rightarrow> rat"
  round_double :: "rat \<Rightarrow> double"
  truncate_128 :: "rat \<Rightarrow> nat throws"
  divide_by_zero :: "rat \<Rightarrow> double throws"

text \<open>A value with a significand of at most \<open>k\<close> bits.\<close>

definition has_bits :: "nat \<Rightarrow> rat \<Rightarrow> bool" where
  "has_bits k x \<longleftrightarrow> (\<exists>m e :: nat. m < 2 ^ k \<and> (x = of_nat m * 2 ^ e \<or> x * 2 ^ e = of_nat m))"

text \<open>
  A representable value is its own rounding: 53 bits for \<^verbatim>\<open>double\<close>, at least 332 bits for
  one hundred decimal digits. In range, conversion to an integer truncates.
\<close>

definition bigfloat_laws :: "bigfloat_ops \<Rightarrow> bool" where
  "bigfloat_laws F \<longleftrightarrow>
     (\<forall>x. has_bits 332 x \<longrightarrow> round_100 F x = x) \<and>
     (\<forall>x. has_bits 53 x \<longrightarrow> round_double F x = x) \<and>
     (\<forall>x. 0 \<le> x \<longrightarrow> x < 2 ^ 128 \<longrightarrow> truncate_128 F x = Inr (nat \<lfloor>x\<rfloor>))"

definition sample_floats :: bigfloat_ops where
  "sample_floats = \<lparr>round_100 = id, round_double = id,
     truncate_128 = (\<lambda>x. if 0 \<le> x \<and> x < 2 ^ 128 then Inr (nat \<lfloor>x\<rfloor>) else throw ''out of range''),
     divide_by_zero = (\<lambda>x. throw ''division by zero'')\<rparr>"

lemma sample_floats_laws: "bigfloat_laws sample_floats"
  by (simp add: bigfloat_laws_def sample_floats_def)

end
