(* ===== verification/Bigint.thy ===== *)
theory Bigint
  imports Externals
begin

text \<open>
  \<^verbatim>\<open>util.hpp\<close>: the fixed-width integers \<^verbatim>\<open>bigint<T, SIZE_BYTES>\<close> that carry hashes,
  work values and difficulties. The state is the byte array, most significant byte first;
  \<open>sz\<close> is \<^verbatim>\<open>SIZE_BYTES\<close> and \<open>M\<close> the Boost operations on \<^verbatim>\<open>T\<close>. The
  \<^verbatim>\<open>qwords\<close> view of the union is not used by the program and is left out.
\<close>

record bigint =
  bytes :: "8 word list"

type_synonym u128 = bigint
type_synonym u256 = bigint

abbreviation (input) u128_size :: nat where "u128_size \<equiv> 16"
abbreviation (input) u256_size :: nat where "u256_size \<equiv> 32"
abbreviation (input) u512_size :: nat where "u512_size \<equiv> 64"

section \<open>Operations\<close>

text \<open>
  \<open>overwrite xs ys\<close> stores \<open>ys\<close> over the front of \<open>xs\<close>; with the array reversed it is the
  write through \<^verbatim>\<open>bytes.rbegin ()\<close>. A write past the end, undefined in C++, cannot
  happen for a number of the width (\<open>length_export\<close>).
\<close>

fun overwrite :: "'a list \<Rightarrow> 'a list \<Rightarrow> 'a list" where
  "overwrite xs [] = xs"
| "overwrite [] (y # ys) = []"
| "overwrite (x # xs) (y # ys) = y # overwrite xs ys"

definition bigint_set :: "multiprecision \<Rightarrow> nat \<Rightarrow> nat \<Rightarrow> bigint" where
  "bigint_set M sz number_a =
     \<lparr>bytes = rev (overwrite (rev (replicate sz 0)) (export_bits M number_a))\<rparr>"

definition bigint_number :: "multiprecision \<Rightarrow> bigint \<Rightarrow> nat" where
  "bigint_number M b = import_bits M (bytes b)"

definition to_dec :: "multiprecision \<Rightarrow> bigint \<Rightarrow> string" where
  "to_dec M b = insert_dec M (bigint_number M b)"

text \<open>\<^verbatim>\<open>std::setw (w)\<close> and \<^verbatim>\<open>std::setfill (c)\<close>.\<close>

definition pad_left :: "nat \<Rightarrow> char \<Rightarrow> string \<Rightarrow> string" where
  "pad_left w c s = replicate (w - length s) c @ s"

definition to_hex :: "multiprecision \<Rightarrow> nat \<Rightarrow> bigint \<Rightarrow> string" where
  "to_hex M sz b = pad_left (sz * 2) (CHR ''0'') (insert_hex M (bigint_number M b))"

text \<open>
  \<^verbatim>\<open>from_hex\<close> assigns the number read before it checks that the stream is at its end,
  so the object changes even when the second exception is thrown: the result is the object
  afterwards and the exception, if any.
\<close>

definition from_hex :: "multiprecision \<Rightarrow> nat \<Rightarrow> string \<Rightarrow> bigint \<Rightarrow> bigint \<times> exn option" where
  "from_hex M sz text b =
     (if text \<noteq> [] \<and> length text \<le> sz * 2 then
        case extract_hex M text of
          Inl e \<Rightarrow> (b, Some e)
        | Inr (number, eof) \<Rightarrow>
            (bigint_set M sz number,
             if eof then None else Some (Runtime_error ''from_hex failed: invalid input format''))
      else (b, Some (Runtime_error ''from_hex failed: invalid input size'')))"

text \<open>
  The constructor from a string. The bytes start out indeterminate; a value is only
  observable when \<open>from_hex\<close> has set all of them.
\<close>

definition bigint_of_string :: "multiprecision \<Rightarrow> nat \<Rightarrow> string \<Rightarrow> bigint throws" where
  "bigint_of_string M sz val =
     (case from_hex M sz val \<lparr>bytes = []\<rparr> of
        (b, None) \<Rightarrow> Inr b
      | (_, Some e) \<Rightarrow> Inl e)"

definition bigint_wf :: "nat \<Rightarrow> bigint \<Rightarrow> bool" where
  "bigint_wf sz b \<longleftrightarrow> length (bytes b) = sz"

section \<open>Correctness\<close>

lemma length_overwrite [simp]: "length (overwrite xs ys) = length xs"
  by (induction xs ys rule: overwrite.induct) auto

lemma overwrite_eq: "length ys \<le> length xs \<Longrightarrow> overwrite xs ys = ys @ drop (length ys) xs"
  by (induction xs ys rule: overwrite.induct) auto

lemma bigint_set_wf [simp]: "bigint_wf sz (bigint_set M sz n)"
  by (simp add: bigint_wf_def bigint_set_def)

lemma length_export:
  "bits_law M \<Longrightarrow> n < 256 ^ sz \<Longrightarrow> 0 < sz \<Longrightarrow> length (export_bits M n) \<le> sz"
  by (simp add: bits_law_def length_digits)

lemma bytes_set:
  assumes "bits_law M" "n < 256 ^ sz" "0 < sz"
  shows "bytes (bigint_set M sz n) =
    replicate (sz - length (digits 256 n)) 0 @ map of_nat (digits 256 n)"
proof -
  have "length (digits 256 n) \<le> sz" using assms by (simp add: length_digits)
  with assms(1) show ?thesis
    by (simp add: bigint_set_def overwrite_eq bits_law_def rev_map)
qed

lemma unat_of_digits: "map (\<lambda>d. unat (word_of_nat d :: 8 word)) (digits 256 n) = digits 256 n"
  using digits_less [of 256 _ n] by (intro map_idI) (simp add: unat_of_nat)

lemma number_set:
  assumes "bits_law M" "n < 256 ^ sz" "0 < sz"
  shows "bigint_number M (bigint_set M sz n) = n"
  using assms by (simp add: bigint_number_def bits_law_def bytes_set [OF assms] comp_def unat_of_digits)

lemma byte_less: "unat (w :: 8 word) < 256"
  using unsigned_less [of w] by simp

lemma number_bound:
  assumes "bits_law M" "bigint_wf sz b"
  shows "bigint_number M b < 256 ^ sz"
proof -
  have "horner 256 (map unat (bytes b)) < 256 ^ length (map unat (bytes b))"
    using byte_less by (intro horner_bound) auto
  with assms show ?thesis by (simp add: bigint_number_def bits_law_def bigint_wf_def)
qed

lemma set_number:
  assumes "bits_law M" "bigint_wf sz b" "0 < sz"
  shows "bigint_set M sz (bigint_number M b) = b"
proof -
  let ?ds = "map unat (bytes b)"
  have n: "bigint_number M b = horner 256 ?ds"
    using assms(1) by (simp add: bigint_number_def bits_law_def)
  have "replicate (sz - length (digits 256 (horner 256 ?ds))) 0 @ digits 256 (horner 256 ?ds) = ?ds"
    using assms(2,3) byte_less by (intro padded_digits) (auto simp: bigint_wf_def)
  then have "map of_nat (replicate (sz - length (digits 256 (horner 256 ?ds))) 0
      @ digits 256 (horner 256 ?ds)) = map (of_nat :: nat \<Rightarrow> 8 word) ?ds"
    by simp
  then have "bytes (bigint_set M sz (bigint_number M b)) = bytes b"
    using bytes_set [OF assms(1) number_bound [OF assms(1,2)] assms(3)]
    by (simp add: n comp_def)
  then show ?thesis by simp
qed

subsection \<open>Hexadecimal text\<close>

lemma pow_256: "(256 :: nat) ^ sz = 16 ^ (sz * 2)"
  by (simp add: power_mult power2_eq_square mult.commute [of sz])

lemma to_hex_eq:
  "insert_law M \<Longrightarrow>
   to_hex M sz b =
     map hex_digit (replicate (sz * 2 - length (digits 16 (bigint_number M b))) 0
       @ digits 16 (bigint_number M b))"
  by (simp add: to_hex_def insert_law_def pad_left_def hex_digit_def)

lemma to_hex_digits: "insert_law M \<Longrightarrow> list_all is_hex (to_hex M sz b)"
  using digits_less [of 16 _ "bigint_number M b"] by (auto simp: to_hex_eq list_all_iff)

lemma hex_value_to_hex: "insert_law M \<Longrightarrow> hex_value (to_hex M sz b) = bigint_number M b"
  using digits_less [of 16 _ "bigint_number M b"]
  by (simp add: to_hex_eq del: map_append) (subst hex_value_digits, auto)

lemma length_to_hex:
  assumes "bits_law M" "insert_law M" "bigint_wf sz b" "0 < sz"
  shows "length (to_hex M sz b) = sz * 2"
proof -
  have "length (digits 16 (bigint_number M b)) \<le> sz * 2"
    using number_bound [OF assms(1,3)] assms(4) by (intro length_digits) (simp_all add: pow_256)
  then show ?thesis by (simp add: to_hex_eq [OF assms(2)])
qed

lemma from_hex_digits:
  assumes "extract_law sz M" "list_all is_hex s" "s \<noteq> []" "length s \<le> sz * 2"
  shows "from_hex M sz s b = (bigint_set M sz (hex_value s), None)"
  using assms by (simp add: from_hex_def extract_law_def)

lemma from_hex_to_hex_eq:
  assumes "multiprecision_laws sz M" "bigint_wf sz b" "0 < sz"
  shows "from_hex M sz (to_hex M sz b) b0 = (b, None)"
proof -
  have len: "length (to_hex M sz b) = sz * 2"
    using assms by (simp add: length_to_hex)
  with assms(3) have "to_hex M sz b \<noteq> []" by auto
  with assms len show ?thesis
    by (simp add: from_hex_digits to_hex_digits hex_value_to_hex set_number)
qed

lemma bigint_of_string_to_hex:
  "multiprecision_laws sz M \<Longrightarrow> bigint_wf sz b \<Longrightarrow> 0 < sz \<Longrightarrow>
     bigint_of_string M sz (to_hex M sz b) = Inr b"
  by (simp add: bigint_of_string_def from_hex_to_hex_eq)

lemma hex_value_fits: "list_all is_hex s \<Longrightarrow> length s \<le> sz * 2 \<Longrightarrow> hex_value s < 256 ^ sz"
proof -
  assume s: "list_all is_hex s" "length s \<le> sz * 2"
  then have "hex_value s < 16 ^ length s" by (simp add: hex_value_bound list_all_iff)
  also have "\<dots> \<le> 16 ^ (sz * 2)" using s(2) by (intro power_increasing) simp_all
  finally show ?thesis by (simp add: pow_256)
qed

lemma from_hex_wf: "bigint_wf sz b \<Longrightarrow> bigint_wf sz (fst (from_hex M sz text b))"
  by (auto simp: from_hex_def split: sum.splits prod.splits)

lemma bigint_of_string_wf: "bigint_of_string M sz text = Inr b \<Longrightarrow> bigint_wf sz b"
  by (auto simp: bigint_of_string_def from_hex_def split: sum.splits prod.splits if_splits)

section \<open>Properties\<close>

text \<open>
  C22. Printing and parsing are inverse: for every value of the width, the text
  \<^verbatim>\<open>to_hex\<close> writes is \<open>2 * SIZE_BYTES\<close> characters long and \<^verbatim>\<open>from_hex\<close> reads it
  back to the same bytes without an exception, whatever the object held before.
\<close>

theorem from_hex_to_hex:
  assumes "multiprecision_laws sz M" "bigint_wf sz b" "0 < sz"
  shows "length (to_hex M sz b) = sz * 2 \<and> from_hex M sz (to_hex M sz b) b0 = (b, None)"
  using assms by (simp add: length_to_hex from_hex_to_hex_eq)

theorem from_hex_to_hex_witness:
  "from_hex sample_mp 2 (to_hex sample_mp 2 \<lparr>bytes = [0x0A, 0xF1]\<rparr>) \<lparr>bytes = []\<rparr>
     = (\<lparr>bytes = [0x0A, 0xF1]\<rparr>, None)"
  using from_hex_to_hex [OF sample_mp_laws, of 2 "\<lparr>bytes = [0x0A, 0xF1]\<rparr>" "\<lparr>bytes = []\<rparr>"]
  by (simp add: bigint_wf_def)

text \<open>
  C27. \<^verbatim>\<open>from_hex\<close> on any text: an empty or too long text throws and leaves the object
  alone; a text of hexadecimal digits that fits, with or without the prefix 0x, is read to the
  number it denotes, with no truncation; a text in which a character that belongs to no number
  follows the digits, or stands first and is no white space, throws the format error.
\<close>

theorem from_hex_cases:
  assumes "multiprecision_laws sz M" "0 < sz"
  shows "(text = [] \<or> sz * 2 < length text \<longrightarrow>
      from_hex M sz text b = (b, Some (Runtime_error ''from_hex failed: invalid input size''))) \<and>
    (list_all is_hex text \<and> text \<noteq> [] \<and> length text \<le> sz * 2 \<longrightarrow>
      (\<exists>b'. from_hex M sz text b = (b', None) \<and> bigint_number M b' = hex_value text) \<and>
      (length text + 2 \<le> sz * 2 \<longrightarrow>
        (\<exists>b'. from_hex M sz (''0x'' @ text) b = (b', None) \<and> bigint_number M b' = hex_value text))) \<and>
    (list_all is_hex ds \<and> stops_number ds c \<and> length (ds @ c # rest) \<le> sz * 2 \<longrightarrow>
      snd (from_hex M sz (ds @ c # rest) b)
        = Some (Runtime_error ''from_hex failed: invalid input format''))"
proof (intro conjI impI)
  assume "text = [] \<or> sz * 2 < length text"
  then show "from_hex M sz text b = (b, Some (Runtime_error ''from_hex failed: invalid input size''))"
    by (auto simp: from_hex_def)
next
  assume "list_all is_hex text \<and> text \<noteq> [] \<and> length text \<le> sz * 2"
  with assms show "\<exists>b'. from_hex M sz text b = (b', None) \<and> bigint_number M b' = hex_value text"
    by (simp add: from_hex_digits number_set hex_value_fits)
next
  assume t: "list_all is_hex text \<and> text \<noteq> [] \<and> length text \<le> sz * 2" "length text + 2 \<le> sz * 2"
  then have "from_hex M sz (''0x'' @ text) b = (bigint_set M sz (hex_value text), None)"
    using assms by (simp add: from_hex_def extract_law_def)
  with assms t show "\<exists>b'. from_hex M sz (''0x'' @ text) b = (b', None) \<and> bigint_number M b' = hex_value text"
    by (simp add: number_set hex_value_fits)
next
  assume t: "list_all is_hex ds \<and> stops_number ds c \<and> length (ds @ c # rest) \<le> sz * 2"
  then obtain v where "extract_hex M (ds @ c # rest) = Inr (v, False)"
    using assms(1) unfolding extract_law_def by blast
  with t show "snd (from_hex M sz (ds @ c # rest) b)
      = Some (Runtime_error ''from_hex failed: invalid input format'')"
    by (simp add: from_hex_def)
qed

theorem from_hex_cases_witness:
  "from_hex sample_mp 2 ''12345'' \<lparr>bytes = []\<rparr> = (\<lparr>bytes = []\<rparr>, Some (Runtime_error ''from_hex failed: invalid input size'')) \<and>
   (\<exists>b'. from_hex sample_mp 2 ''aF0'' \<lparr>bytes = []\<rparr> = (b', None) \<and> bigint_number sample_mp b' = 0xAF0) \<and>
   snd (from_hex sample_mp 2 ''1g2'' \<lparr>bytes = []\<rparr>)
     = Some (Runtime_error ''from_hex failed: invalid input format'')"
proof -
  note h = from_hex_cases [OF sample_mp_laws, of 2]
  have hex: "list_all is_hex ''aF0''" "list_all is_hex ''1''" "stops_number ''1'' (CHR ''g'')"
    by (simp_all add: is_hex_def hex_char_value_def stops_number_def)
  have val: "hex_value ''aF0'' = 0xAF0"
    by (simp add: hex_value_def hex_char_value_def horner_def)
  have "from_hex sample_mp 2 ''12345'' \<lparr>bytes = []\<rparr>
      = (\<lparr>bytes = []\<rparr>, Some (Runtime_error ''from_hex failed: invalid input size''))"
    using h [of "''12345''" "\<lparr>bytes = []\<rparr>"] by simp
  moreover have "\<exists>b'. from_hex sample_mp 2 ''aF0'' \<lparr>bytes = []\<rparr> = (b', None) \<and> bigint_number sample_mp b' = 0xAF0"
    using h [of "''aF0''" "\<lparr>bytes = []\<rparr>"] hex(1) by (simp add: val)
  moreover have "snd (from_hex sample_mp 2 (''1'' @ CHR ''g'' # ''2'') \<lparr>bytes = []\<rparr>)
      = Some (Runtime_error ''from_hex failed: invalid input format'')"
    using h [of _ "\<lparr>bytes = []\<rparr>" "''1''" "CHR ''g''" "''2''"] hex by simp
  ultimately show ?thesis by simp
qed

end
