(* ===== verification/Difficulty.thy ===== *)
theory Difficulty
  imports Bigint
begin

text \<open>
  \<^verbatim>\<open>util.hpp\<close>: the conversions between a difficulty and its multiplier over the base
  difficulty. \<open>F\<close> carries the \<^verbatim>\<open>cpp_bin_float_100\<close> operations. The
  \<^verbatim>\<open>assert\<close> of \<^verbatim>\<open>to_multiplier\<close> is compiled out in the default (Release) build.
\<close>

definition bigfloat_of_number :: "bigfloat_ops \<Rightarrow> nat \<Rightarrow> rat" where
  "bigfloat_of_number F n = round_100 F (of_nat n)"

definition bigfloat_of_double :: "bigfloat_ops \<Rightarrow> double \<Rightarrow> rat" where
  "bigfloat_of_double F x = round_100 F x"

definition to_multiplier :: "multiprecision \<Rightarrow> bigfloat_ops \<Rightarrow> u128 \<Rightarrow> u128 \<Rightarrow> double throws" where
  "to_multiplier M F difficulty_a base_difficulty_a =
     (let d = bigfloat_of_number F (bigint_number M difficulty_a);
          b = bigfloat_of_number F (bigint_number M base_difficulty_a)
      in if b = 0 then divide_by_zero F d
         else Inr (round_double F (round_100 F (d / b))))"

definition from_multiplier :: "multiprecision \<Rightarrow> bigfloat_ops \<Rightarrow> double \<Rightarrow> u128 \<Rightarrow> u128 throws" where
  "from_multiplier M F multiplier_a base_difficulty_a =
     bind_throws
       (truncate_128 F (round_100 F
          (bigfloat_of_number F (bigint_number M base_difficulty_a)
             * bigfloat_of_double F multiplier_a)))
       (\<lambda>n. Inr (bigint_set M u128_size n))"

section \<open>Exactness\<close>

lemma has_bits_nat: "n < 2 ^ k \<Longrightarrow> has_bits k (of_nat n)"
  unfolding has_bits_def by (intro exI [of _ n] exI [of _ "0 :: nat"]) simp

lemma has_bits_mono: "has_bits k x \<Longrightarrow> k \<le> l \<Longrightarrow> has_bits l x"
proof -
  assume "has_bits k x" "k \<le> l"
  then have "m < 2 ^ l" if "m < 2 ^ k" for m :: nat
    using that power_increasing [of k l "2 :: nat"] \<open>k \<le> l\<close> by (meson less_le_trans one_le_numeral)
  with \<open>has_bits k x\<close> show ?thesis unfolding has_bits_def by blast
qed

lemma two_power_split:
  assumes "(e1 :: nat) \<le> e2"
  shows "(2 :: rat) ^ e2 = 2 ^ e1 * 2 ^ (e2 - e1)"
  using assms by (simp flip: power_add)

lemma has_bits_scaled:
  assumes "m < 2 ^ k" "x * 2 ^ e2 = of_nat m * 2 ^ e1"
  shows "has_bits k x"
proof (cases "e1 \<le> e2")
  case True
  then have "(x * 2 ^ (e2 - e1)) * 2 ^ e1 = of_nat m * 2 ^ e1"
    using assms(2) two_power_split [OF True] by (simp add: mult_ac)
  then have "x * 2 ^ (e2 - e1) = of_nat m" by simp
  with assms(1) show ?thesis unfolding has_bits_def by blast
next
  case False
  then have "x * 2 ^ e2 = (of_nat m * 2 ^ (e1 - e2)) * 2 ^ e2"
    using assms(2) two_power_split [of e2 e1] by (simp add: mult_ac)
  then have "x = of_nat m * 2 ^ (e1 - e2)" by simp
  with assms(1) show ?thesis unfolding has_bits_def by blast
qed

lemma has_bits_scaledE:
  assumes "has_bits k x"
  obtains m e1 e2 where "m < 2 ^ k" "x * 2 ^ e2 = of_nat m * 2 ^ e1"
proof -
  from assms obtain m e where m: "m < 2 ^ k" and "x = of_nat m * 2 ^ e \<or> x * 2 ^ e = of_nat m"
    unfolding has_bits_def by blast
  then have "x * 2 ^ 0 = of_nat m * 2 ^ e \<or> x * 2 ^ e = of_nat m * 2 ^ 0" by simp
  with m that show thesis by blast
qed

lemma has_bits_mult:
  assumes "has_bits k x" "has_bits l y"
  shows "has_bits (k + l) (x * y)"
proof -
  obtain m e1 e2 where x: "m < 2 ^ k" "x * 2 ^ e2 = of_nat m * 2 ^ e1"
    using has_bits_scaledE [OF assms(1)] .
  obtain n f1 f2 where y: "n < 2 ^ l" "y * 2 ^ f2 = of_nat n * 2 ^ f1"
    using has_bits_scaledE [OF assms(2)] .
  have "m * n < 2 ^ (k + l)"
    using x(1) y(1) by (simp add: power_add mult_strict_mono')
  moreover have "(x * y) * 2 ^ (e2 + f2) = of_nat (m * n) * 2 ^ (e1 + f1)"
  proof -
    have "(x * y) * 2 ^ (e2 + f2) = (x * 2 ^ e2) * (y * 2 ^ f2)" by (simp add: power_add mult_ac)
    also have "\<dots> = of_nat (m * n) * 2 ^ (e1 + f1)" by (simp add: x y power_add mult_ac)
    finally show ?thesis .
  qed
  ultimately show ?thesis by (rule has_bits_scaled)
qed

lemma u128_bound:
  "bits_law M \<Longrightarrow> bigint_wf u128_size b \<Longrightarrow> bigint_number M b < 2 ^ 128"
  using number_bound [of M u128_size b] by simp

lemma bigfloat_of_number_exact:
  "bigfloat_laws F \<Longrightarrow> n < 2 ^ 128 \<Longrightarrow> bigfloat_of_number F n = of_nat n"
  using has_bits_mono [OF has_bits_nat, of n 128 332]
  by (simp add: bigfloat_laws_def bigfloat_of_number_def)

lemma bigfloat_of_double_exact: "bigfloat_laws F \<Longrightarrow> has_bits 53 x \<Longrightarrow> bigfloat_of_double F x = x"
  using has_bits_mono [of 53 x 332] by (simp add: bigfloat_laws_def bigfloat_of_double_def)

lemma from_multiplier_floor:
  assumes F: "bigfloat_laws F" and M: "bits_law M" and b: "bigint_wf u128_size b"
    and m: "has_bits 53 m" "0 \<le> m" and fits: "of_nat (bigint_number M b) * m < 2 ^ 128"
  shows "from_multiplier M F m b =
    Inr (bigint_set M u128_size (nat \<lfloor>of_nat (bigint_number M b) * m\<rfloor>))"
proof -
  let ?n = "bigint_number M b"
  have n: "?n < 2 ^ 128" using M b by (rule u128_bound)
  have "has_bits (128 + 53) (of_nat ?n * m)"
    using has_bits_nat [OF n] m(1) by (rule has_bits_mult)
  then have "has_bits 332 (of_nat ?n * m)" by (rule has_bits_mono) simp
  then have "round_100 F (of_nat ?n * m) = of_nat ?n * m"
    using F by (simp add: bigfloat_laws_def)
  moreover have "truncate_128 F (of_nat ?n * m) = Inr (nat \<lfloor>of_nat ?n * m\<rfloor>)"
    using F m(2) fits by (simp add: bigfloat_laws_def)
  ultimately show ?thesis
    by (simp add: from_multiplier_def bigfloat_of_number_exact [OF F n]
        bigfloat_of_double_exact [OF F m(1)])
qed

lemma from_multiplier_value:
  assumes "bigfloat_laws F" "bits_law M" "bigint_wf u128_size b"
    and "has_bits 53 m" "0 \<le> m" "of_nat (bigint_number M b) * m < 2 ^ 128"
  shows "\<exists>d. from_multiplier M F m b = Inr d \<and>
    bigint_number M d = nat \<lfloor>of_nat (bigint_number M b) * m\<rfloor>"
proof -
  have "nat \<lfloor>of_nat (bigint_number M b) * m\<rfloor> < 256 ^ u128_size"
    using assms(5,6) by (simp add: nat_less_iff floor_less_iff)
  then show ?thesis
    using from_multiplier_floor [OF assms] assms(2) by (simp add: number_set)
qed

section \<open>Properties\<close>

text \<open>
  C21. Every multiplier is applied exactly: for a base difficulty and a \<^verbatim>\<open>double\<close>
  multiplier whose product fits the 128 bits, \<^verbatim>\<open>from_multiplier\<close> yields the floor of
  the exact product; the 100-digit intermediate loses nothing.
\<close>

theorem from_multiplier_exact:
  assumes "bigfloat_laws F" "bits_law M" "bigint_wf u128_size b"
    and "has_bits 53 m" "0 \<le> m" "of_nat (bigint_number M b) * m < 2 ^ 128"
  shows "\<exists>d. from_multiplier M F m b = Inr d \<and>
    bigint_number M d = nat \<lfloor>of_nat (bigint_number M b) * m\<rfloor>"
  using assms by (rule from_multiplier_value)

definition base_sample :: u128 where
  "base_sample = bigint_set sample_mp u128_size 0x2000000000000000"

lemma number_base_sample: "bigint_number sample_mp base_sample = 0x2000000000000000"
  using sample_mp_laws by (simp add: base_sample_def number_set)

lemma has_bits_three_halves: "has_bits 53 (3 / 2)"
  unfolding has_bits_def by (intro exI [of _ "3 :: nat"] exI [of _ "1 :: nat"]) simp

theorem from_multiplier_exact_witness:
  "\<exists>d. from_multiplier sample_mp sample_floats (3 / 2) base_sample = Inr d \<and>
    bigint_number sample_mp d = 0x3000000000000000"
proof -
  have "of_nat (bigint_number sample_mp base_sample) * (3 / 2) = (0x3000000000000000 :: rat)"
    by (simp add: number_base_sample)
  then show ?thesis
    using from_multiplier_exact [OF sample_floats_laws, of sample_mp base_sample "3 / 2"]
      sample_mp_laws has_bits_three_halves by (simp add: base_sample_def)
qed

text \<open>
  C20. \<^verbatim>\<open>from_multiplier\<close> undoes \<^verbatim>\<open>to_multiplier\<close>: when the ratio of a difficulty
  to a non-zero base is a \<^verbatim>\<open>double\<close>, converting to a multiplier and back gives the
  difficulty itself.
\<close>

theorem multiplier_roundtrip:
  assumes F: "bigfloat_laws F" and M: "bits_law M"
    and wf: "bigint_wf u128_size d" "bigint_wf u128_size b"
    and base: "0 < bigint_number M b"
    and ratio: "has_bits 53 (of_nat (bigint_number M d) / of_nat (bigint_number M b))"
  shows "bind_throws (to_multiplier M F d b) (\<lambda>m. from_multiplier M F m b) = Inr d"
proof -
  let ?r = "of_nat (bigint_number M d) / of_nat (bigint_number M b) :: rat"
  have dn: "bigint_number M d < 2 ^ 128" and bn: "bigint_number M b < 2 ^ 128"
    using u128_bound [OF M] wf by blast+
  have "round_100 F ?r = ?r" "round_double F ?r = ?r"
    using F ratio has_bits_mono [OF ratio, of 332] by (simp_all add: bigfloat_laws_def)
  then have "to_multiplier M F d b = Inr ?r"
    using base by (simp add: to_multiplier_def Let_def bigfloat_of_number_exact [OF F dn]
        bigfloat_of_number_exact [OF F bn])
  moreover have prod: "of_nat (bigint_number M b) * ?r = of_nat (bigint_number M d)"
    using base by simp
  moreover have "from_multiplier M F ?r b = Inr (bigint_set M u128_size (bigint_number M d))"
    using from_multiplier_floor [OF F M wf(2) ratio] dn prod
    by (metis divide_nonneg_nonneg floor_of_nat nat_int of_nat_0_le_iff of_nat_less_iff
        of_nat_numeral of_nat_power)
  ultimately show ?thesis using set_number [OF M wf(1)] by simp
qed

theorem multiplier_roundtrip_witness:
  "bind_throws (to_multiplier sample_mp sample_floats
      (bigint_set sample_mp u128_size 0x3000000000000000) base_sample)
    (\<lambda>m. from_multiplier sample_mp sample_floats m base_sample)
   = Inr (bigint_set sample_mp u128_size 0x3000000000000000)"
proof -
  have n: "bigint_number sample_mp (bigint_set sample_mp u128_size 0x3000000000000000)
      = 0x3000000000000000"
    using sample_mp_laws by (simp add: number_set)
  show ?thesis
    using multiplier_roundtrip [OF sample_floats_laws, of sample_mp
        "bigint_set sample_mp u128_size 0x3000000000000000" base_sample]
      sample_mp_laws has_bits_three_halves
    by (simp add: n number_base_sample) (simp add: base_sample_def)
qed

end
