(* ===== verification/Std_Heap.thy ===== *)
theory Std_Heap
  imports Prelude
begin

text \<open>
  The part of the C++ standard library the job queue rests on:
  \<^verbatim>\<open>std::priority_queue<T, std::vector<T>, Compare>\<close>. Its state is the vector
  \<^verbatim>\<open>c\<close>; \<^verbatim>\<open>push\<close> is \<^verbatim>\<open>c.push_back\<close> and
  \<^verbatim>\<open>std::push_heap\<close>, \<^verbatim>\<open>top\<close> is \<^verbatim>\<open>c.front\<close>,
  \<^verbatim>\<open>pop\<close> is \<^verbatim>\<open>std::pop_heap\<close> and \<^verbatim>\<open>c.pop_back\<close>.
  The theory also states the contract of a priority queue as a locale, proves what a
  client that drains a queue can rely on, and interprets the locale on the heap.
\<close>

section \<open>The contract\<close>

text \<open>
  \<open>lt a b\<close> is \<^verbatim>\<open>comp(a, b)\<close>: \<open>a\<close> comes after \<open>b\<close>. The standard asks for a
  strict weak ordering.
\<close>

locale strict_weak_order =
  fixes lt :: "'a \<Rightarrow> 'a \<Rightarrow> bool"
  assumes asym: "lt a b \<Longrightarrow> \<not> lt b a"
    and neg_trans: "lt a c \<Longrightarrow> lt a b \<or> lt b c"
begin

lemma irrefl: "\<not> lt a a"
  using asym by blast

lemma not_lt_trans: "\<not> lt a b \<Longrightarrow> \<not> lt b c \<Longrightarrow> \<not> lt a c"
  using neg_trans by blast

lemma lt_not_lt_trans: "lt a b \<Longrightarrow> \<not> lt c b \<Longrightarrow> lt a c"
  using neg_trans by blast

end

locale priority_queue = strict_weak_order lt
  for lt :: "'a \<Rightarrow> 'a \<Rightarrow> bool" +
  fixes empty :: "'q"
    and push :: "'a \<Rightarrow> 'q \<Rightarrow> 'q"
    and top :: "'q \<Rightarrow> 'a"
    and pop :: "'q \<Rightarrow> 'q"
    and elems :: "'q \<Rightarrow> 'a multiset"
    and invar :: "'q \<Rightarrow> bool"
  assumes invar_empty: "invar empty"
    and invar_push: "invar q \<Longrightarrow> invar (push x q)"
    and invar_pop: "invar q \<Longrightarrow> elems q \<noteq> {#} \<Longrightarrow> invar (pop q)"
    and elems_empty: "elems empty = {#}"
    and elems_push: "invar q \<Longrightarrow> elems (push x q) = add_mset x (elems q)"
    and top_in: "invar q \<Longrightarrow> elems q \<noteq> {#} \<Longrightarrow> top q \<in># elems q"
    and top_max: "invar q \<Longrightarrow> x \<in># elems q \<Longrightarrow> \<not> lt (top q) x"
    and elems_pop: "invar q \<Longrightarrow> elems q \<noteq> {#} \<Longrightarrow> elems (pop q) = elems q - {#top q#}"
begin

lemma invar_fold_push: "invar q \<Longrightarrow> invar (fold push xs q)"
  by (induction xs arbitrary: q) (simp_all add: invar_push)

lemma elems_fold_push: "invar q \<Longrightarrow> elems (fold push xs q) = mset xs + elems q"
  by (induction xs arbitrary: q) (simp_all add: invar_push elems_push)

lemma size_pop: "invar q \<Longrightarrow> elems q \<noteq> {#} \<Longrightarrow> size (elems (pop q)) < size (elems q)"
  by (simp add: elems_pop top_in size_Diff1_less)

end

text \<open>
  A client that empties the queue: \<^verbatim>\<open>while (!q.empty ()) { use (q.top ()); q.pop (); }\<close>.
  \<open>drain\<close> is any function that satisfies the loop's two equations.
\<close>

locale drained_queue = priority_queue +
  fixes drain :: "'b \<Rightarrow> 'a list"
  assumes drain_empty: "invar q \<Longrightarrow> elems q = {#} \<Longrightarrow> drain q = []"
    and drain_step: "invar q \<Longrightarrow> elems q \<noteq> {#} \<Longrightarrow> drain q = top q # drain (pop q)"
begin

lemma drain_induct [consumes 1, case_names Empty Step]:
  assumes "invar q"
    and "\<And>q. invar q \<Longrightarrow> elems q = {#} \<Longrightarrow> P q"
    and "\<And>q. invar q \<Longrightarrow> elems q \<noteq> {#} \<Longrightarrow> P (pop q) \<Longrightarrow> P q"
  shows "P q"
  using assms(1)
proof (induction "size (elems q)" arbitrary: q rule: less_induct)
  case less
  show ?case
    using less.prems less.hyps [OF size_pop] assms(2,3) invar_pop
    by (cases "elems q = {#}") blast+
qed

lemma mset_drain: "invar q \<Longrightarrow> mset (drain q) = elems q"
  by (induction rule: drain_induct) (simp_all add: drain_empty drain_step elems_pop top_in)

lemma sorted_drain: "invar q \<Longrightarrow> sorted_wrt (\<lambda>x y. \<not> lt x y) (drain q)"
proof (induction rule: drain_induct)
  case (Empty q)
  then show ?case by (simp add: drain_empty)
next
  case (Step q)
  then have "x \<in># elems q" if "x \<in> set (drain (pop q))" for x
    using that by (metis elems_pop in_diffD invar_pop mset_drain set_mset_mset)
  with Step show ?case by (simp add: drain_step top_max)
qed

text \<open>
  Where the order separates the elements, the drained sequence is a function of the
  multiset alone: no detail of the heap's layout can be observed.
\<close>

lemma drain_unique:
  assumes "invar q"
    and "\<And>x y. x \<in># elems q \<Longrightarrow> y \<in># elems q \<Longrightarrow> \<not> lt x y \<Longrightarrow> \<not> lt y x \<Longrightarrow> x = y"
    and "mset xs = elems q" and "sorted_wrt (\<lambda>x y. \<not> lt x y) xs"
  shows "drain q = xs"
  using assms
proof (induction q arbitrary: xs rule: drain_induct)
  case (Empty q)
  then show ?case by (simp add: drain_empty)
next
  case (Step q)
  then obtain x xs' where xs: "xs = x # xs'" by (cases xs) auto
  have top: "top q \<in> set xs"
    using Step.prems(2) Step.hyps top_in by (metis set_mset_mset)
  have x: "x \<in># elems q"
    using Step.prems(2) xs by (metis list.set_intros(1) set_mset_mset)
  have "\<not> lt (top q) x" using Step.hyps x by (simp add: top_max)
  moreover have "\<not> lt x (top q)" using top Step.prems(3) xs irrefl by auto
  ultimately have "x = top q"
    using Step.prems(1) x top_in Step.hyps by blast
  moreover have "drain (pop q) = xs'"
  proof (rule Step.IH)
    show "mset xs' = elems (pop q)"
      using Step.hyps Step.prems(2) xs \<open>x = top q\<close> by (simp add: elems_pop flip: Step.prems(2))
  next
    show "sorted_wrt (\<lambda>x y. \<not> lt x y) xs'" using Step.prems(3) xs by simp
  next
    fix y z
    assume "y \<in># elems (pop q)" "z \<in># elems (pop q)" "\<not> lt y z" "\<not> lt z y"
    then show "y = z"
      using Step.prems(1) Step.hyps by (metis elems_pop in_diffD)
  qed
  ultimately show ?case using Step.hyps xs by (simp add: drain_step)
qed

end

section \<open>The binary heap in a vector\<close>

text \<open>\<open>heap lt xs\<close>: no element is below its child at indices \<open>2 i + 1\<close> and \<open>2 i + 2\<close>.\<close>

abbreviation parent :: "nat \<Rightarrow> nat" where
  "parent i \<equiv> (i - 1) div 2"

definition heap :: "('a \<Rightarrow> 'a \<Rightarrow> bool) \<Rightarrow> 'a list \<Rightarrow> bool" where
  "heap lt xs \<longleftrightarrow> (\<forall>i. 0 < i \<longrightarrow> i < length xs \<longrightarrow> \<not> lt (xs ! parent i) (xs ! i))"

fun sift_up :: "('a \<Rightarrow> 'a \<Rightarrow> bool) \<Rightarrow> 'a list \<Rightarrow> nat \<Rightarrow> 'a list" where
  "sift_up lt xs i =
     (if 0 < i \<and> lt (xs ! parent i) (xs ! i)
      then sift_up lt (swap xs (parent i) i) (parent i) else xs)"

declare sift_up.simps [simp del]

definition push_heap :: "('a \<Rightarrow> 'a \<Rightarrow> bool) \<Rightarrow> 'a list \<Rightarrow> 'a list" where
  "push_heap lt xs = sift_up lt xs (length xs - 1)"

definition larger_child :: "('a \<Rightarrow> 'a \<Rightarrow> bool) \<Rightarrow> 'a list \<Rightarrow> nat \<Rightarrow> nat" where
  "larger_child lt xs i =
     (if 2 * i + 2 < length xs \<and> lt (xs ! (2 * i + 1)) (xs ! (2 * i + 2))
      then 2 * i + 2 else 2 * i + 1)"

function sift_down :: "('a \<Rightarrow> 'a \<Rightarrow> bool) \<Rightarrow> 'a list \<Rightarrow> nat \<Rightarrow> 'a list" where
  "sift_down lt xs i =
     (if 2 * i + 1 < length xs \<and> lt (xs ! i) (xs ! larger_child lt xs i)
      then sift_down lt (swap xs i (larger_child lt xs i)) (larger_child lt xs i) else xs)"
  by pat_completeness auto
termination
  by (relation "measure (\<lambda>(lt, xs, i). length xs - i)") (auto simp: larger_child_def)

declare sift_down.simps [simp del]

text \<open>
  \<^verbatim>\<open>std::pop_heap\<close> moves the last element to the front and sifts it down; the old
  front goes to the back, where \<^verbatim>\<open>pop_back\<close> removes it.
\<close>

definition pop_heap :: "('a \<Rightarrow> 'a \<Rightarrow> bool) \<Rightarrow> 'a list \<Rightarrow> 'a list" where
  "pop_heap lt xs =
     (if length xs < 2 then xs
      else sift_down lt ((butlast xs)[0 := last xs]) 0 @ [hd xs])"

definition pq_empty :: "'a list" where
  "pq_empty = []"

definition pq_push :: "('a \<Rightarrow> 'a \<Rightarrow> bool) \<Rightarrow> 'a \<Rightarrow> 'a list \<Rightarrow> 'a list" where
  "pq_push lt x c = push_heap lt (c @ [x])"

definition pq_top :: "'a list \<Rightarrow> 'a" where
  "pq_top c = c ! 0"

definition pq_pop :: "('a \<Rightarrow> 'a \<Rightarrow> bool) \<Rightarrow> 'a list \<Rightarrow> 'a list" where
  "pq_pop lt c = butlast (pop_heap lt c)"

lemma heap_Nil [simp]: "heap lt []"
  by (simp add: heap_def)

subsection \<open>Elements\<close>

lemma parent_less: "0 < i \<Longrightarrow> parent i < i"
  by simp

lemma larger_child_less: "2 * i + 1 < length xs \<Longrightarrow> larger_child lt xs i < length xs"
  by (simp add: larger_child_def)

lemma mset_sift_up: "i < length xs \<Longrightarrow> mset (sift_up lt xs i) = mset xs"
proof (induction lt xs i rule: sift_up.induct)
  case (1 lt xs i)
  show ?case
  proof (cases "0 < i \<and> lt (xs ! parent i) (xs ! i)")
    case True
    then have "parent i < length xs" using 1 by auto
    then show ?thesis using 1 True by (simp add: sift_up.simps [of lt xs i])
  qed (auto simp: sift_up.simps [of lt xs i])
qed

lemma mset_sift_down: "i < length xs \<Longrightarrow> mset (sift_down lt xs i) = mset xs"
proof (induction lt xs i rule: sift_down.induct)
  case (1 lt xs i)
  show ?case
  proof (cases "2 * i + 1 < length xs \<and> lt (xs ! i) (xs ! larger_child lt xs i)")
    case True
    with 1 show ?thesis by (simp add: sift_down.simps [of lt xs i] larger_child_less)
  qed (auto simp: sift_down.simps [of lt xs i])
qed

lemma mset_pq_push: "mset (pq_push lt x c) = add_mset x (mset c)"
  by (simp add: pq_push_def push_heap_def mset_sift_up)

lemma mset_butlast: "xs \<noteq> [] \<Longrightarrow> mset (butlast xs) = mset xs - {#last xs#}"
  by (induction xs rule: rev_induct) simp_all

lemma pq_pop_eq:
  "pq_pop lt c = (if length c < 2 then [] else sift_down lt ((butlast c)[0 := last c]) 0)"
  by (cases c; cases "tl c") (auto simp: pq_pop_def pop_heap_def)

lemma mset_pq_pop: "c \<noteq> [] \<Longrightarrow> mset (pq_pop lt c) = mset c - {#pq_top c#}"
proof -
  assume "c \<noteq> []"
  then obtain x xs where c: "c = x # xs" by (cases c) auto
  show ?thesis
  proof (cases "xs = []")
    case True
    with c show ?thesis by (simp add: pq_pop_eq pq_top_def)
  next
    case False
    then have "add_mset (last xs) (mset (butlast xs)) = mset xs"
      by (metis append_butlast_last_id mset_append union_mset_add_mset_right add.right_neutral mset.simps)
    with False c show ?thesis by (simp add: pq_pop_eq pq_top_def mset_sift_down)
  qed
qed

lemma length_pq_pop: "length (pq_pop lt c) = length c - 1"
proof (cases "c = []")
  case False
  then have "pq_top c \<in># mset c" by (simp add: pq_top_def)
  with False show ?thesis by (metis mset_pq_pop size_Diff_singleton size_mset)
qed (simp add: pq_pop_eq)

subsection \<open>The heap property\<close>

text \<open>
  While an element moves up from \<open>i\<close>, only the edge above \<open>i\<close> may be out of order;
  while it moves down, only the edges below \<open>i\<close>.
\<close>

definition heap_above :: "('a \<Rightarrow> 'a \<Rightarrow> bool) \<Rightarrow> 'a list \<Rightarrow> nat \<Rightarrow> bool" where
  "heap_above lt xs i \<longleftrightarrow>
     (\<forall>j. 0 < j \<longrightarrow> j < length xs \<longrightarrow> j \<noteq> i \<longrightarrow> \<not> lt (xs ! parent j) (xs ! j)) \<and>
     (\<forall>j. 0 < i \<longrightarrow> 0 < j \<longrightarrow> j < length xs \<longrightarrow> parent j = i \<longrightarrow> \<not> lt (xs ! parent i) (xs ! j))"

definition heap_below :: "('a \<Rightarrow> 'a \<Rightarrow> bool) \<Rightarrow> 'a list \<Rightarrow> nat \<Rightarrow> bool" where
  "heap_below lt xs i \<longleftrightarrow>
     (\<forall>j. 0 < j \<longrightarrow> j < length xs \<longrightarrow> parent j \<noteq> i \<longrightarrow> \<not> lt (xs ! parent j) (xs ! j)) \<and>
     (\<forall>j. 0 < i \<longrightarrow> 0 < j \<longrightarrow> j < length xs \<longrightarrow> parent j = i \<longrightarrow> \<not> lt (xs ! parent i) (xs ! j))"

lemma parent_iff: "0 < j \<Longrightarrow> parent j = i \<longleftrightarrow> j = 2 * i + 1 \<or> j = 2 * i + 2"
  by auto

context strict_weak_order
begin

lemma heap_front: "heap lt xs \<Longrightarrow> i < length xs \<Longrightarrow> \<not> lt (xs ! 0) (xs ! i)"
proof (induction i rule: less_induct)
  case (less i)
  show ?case
  proof (cases "i = 0")
    case False
    then have "\<not> lt (xs ! 0) (xs ! parent i)" and "\<not> lt (xs ! parent i) (xs ! i)"
      using less by (auto simp: heap_def)
    then show ?thesis by (rule not_lt_trans)
  qed (simp add: irrefl)
qed

lemma heap_above_step:
  assumes above: "heap_above lt xs i" and i: "i < length xs" "0 < i"
    and lt: "lt (xs ! parent i) (xs ! i)"
  shows "heap_above lt (swap xs (parent i) i) (parent i)"
proof -
  define p where "p = parent i"
  have p: "p < i" "p < length xs" using i by (auto simp: p_def)
  have pi: "(i - Suc 0) div 2 = p" and lt_p: "lt (xs ! p) (xs ! i)" using lt by (simp_all add: p_def)
  have edge: "\<not> lt (xs ! parent j) (xs ! j)" if "0 < j" "j < length xs" "j \<noteq> i" for j
    using above that by (simp add: heap_above_def)
  have below: "\<not> lt (xs ! p) (xs ! j)" if "0 < j" "j < length xs" "parent j = i" for j
    using above that i by (simp add: heap_above_def p_def)
  have sib: "\<not> lt (xs ! i) (xs ! j)" if "0 < j" "j < length xs" "j \<noteq> i" "parent j = p" for j
    using edge [of j] that lt lt_not_lt_trans asym by (metis p_def)
  note nth = nth_swap [OF p(2) i(1)]
  show ?thesis
    unfolding heap_above_def p_def [symmetric]
  proof (intro conjI allI impI)
    fix j
    assume j: "0 < j" "j < length (swap xs p i)" "j \<noteq> p"
    show "\<not> lt (swap xs p i ! parent j) (swap xs p i ! j)"
      using j edge [of j] below [of j] sib [of j] p i asym [OF lt_p]
      by (cases "j = i") (auto simp: nth pi)
  next
    fix j
    assume j: "0 < p" "0 < j" "j < length (swap xs p i)" "parent j = p"
    have up: "\<not> lt (xs ! parent p) (xs ! p)" using edge [of p] j p by simp
    have "\<not> lt (xs ! parent p) (xs ! j)" if "j \<noteq> i"
      using edge [of j] j that by (intro not_lt_trans [OF up]) simp
    moreover have "parent p \<noteq> p" "parent p \<noteq> i" "j \<noteq> p" using j p by auto
    ultimately show "\<not> lt (swap xs p i ! parent p) (swap xs p i ! j)"
      using up by (simp add: nth)
  qed
qed

lemma heap_sift_up: "heap_above lt xs i \<Longrightarrow> i < length xs \<Longrightarrow> heap lt (sift_up lt xs i)"
proof (induction i arbitrary: xs rule: less_induct)
  case (less i)
  show ?case
  proof (cases "0 < i \<and> lt (xs ! parent i) (xs ! i)")
    case True
    with less.prems have "heap_above lt (swap xs (parent i) i) (parent i)"
      by (intro heap_above_step) simp_all
    with less True show ?thesis by (auto simp: sift_up.simps [of lt xs i])
  next
    case False
    with less.prems have "heap lt xs" by (auto simp: heap_above_def heap_def)
    with False show ?thesis by (auto simp: sift_up.simps [of lt xs i])
  qed
qed

lemma heap_pq_push: "heap lt c \<Longrightarrow> heap lt (pq_push lt x c)"
proof -
  assume "heap lt c"
  then have "heap_above lt (c @ [x]) (length c)"
    by (auto simp: heap_above_def heap_def nth_append)
  then show ?thesis by (simp add: pq_push_def push_heap_def heap_sift_up)
qed

lemma larger_child_parent: "parent (larger_child lt xs i) = i" "0 < larger_child lt xs i"
  by (auto simp: larger_child_def)

lemma larger_child_max:
  "0 < j \<Longrightarrow> j < length xs \<Longrightarrow> parent j = i \<Longrightarrow> \<not> lt (xs ! larger_child lt xs i) (xs ! j)"
proof -
  assume j: "0 < j" "j < length xs" "parent j = i"
  then consider "j = 2 * i + 1" | "j = 2 * i + 2"
    using parent_iff by blast
  then show ?thesis
    using j(2) irrefl asym by cases (auto simp: larger_child_def)
qed

lemma heap_below_step:
  assumes below: "heap_below lt xs i" and i: "2 * i + 1 < length xs"
    and lt: "lt (xs ! i) (xs ! larger_child lt xs i)"
  shows "heap_below lt (swap xs i (larger_child lt xs i)) (larger_child lt xs i)"
proof -
  define c where "c = larger_child lt xs i"
  have c: "0 < c" "c < length xs" "i < length xs" and pc: "(c - Suc 0) div 2 = i"
    using larger_child_parent [of xs i] larger_child_less [OF i] i by (simp_all add: c_def)
  have lt_c: "lt (xs ! i) (xs ! c)" using lt by (simp add: c_def)
  have edge: "\<not> lt (xs ! parent j) (xs ! j)" if "0 < j" "j < length xs" "parent j \<noteq> i" for j
    using below that by (simp add: heap_below_def)
  have up: "\<not> lt (xs ! parent i) (xs ! j)" if "0 < i" "0 < j" "j < length xs" "parent j = i" for j
    using below that by (simp add: heap_below_def)
  have max: "\<not> lt (xs ! c) (xs ! j)" if "0 < j" "j < length xs" "parent j = i" for j
    using that by (simp add: c_def larger_child_max)
  have ic: "i < c" using pc c by auto
  note nth = nth_swap [OF c(3,2)]
  show ?thesis
    unfolding heap_below_def c_def [symmetric]
  proof (intro conjI allI impI)
    fix j
    assume j: "0 < j" "j < length (swap xs i c)" "parent j \<noteq> c"
    consider "j = c" | "j = i" | "j \<noteq> c" "j \<noteq> i" by blast
    then show "\<not> lt (swap xs i c ! parent j) (swap xs i c ! j)"
    proof cases
      case 1
      then show ?thesis using asym [OF lt_c] ic by (auto simp: nth pc)
    next
      case 2
      then have "(j - Suc 0) div 2 \<noteq> i" "(j - Suc 0) div 2 \<noteq> c" using j by auto
      then show ?thesis using 2 j up [of c] c pc ic by (simp add: nth)
    next
      case 3
      then show ?thesis using j edge [of j] max [of j] by (auto simp: nth)
    qed
  next
    fix j
    assume j: "0 < c" "0 < j" "j < length (swap xs i c)" "parent j = c"
    then have "j \<noteq> c" "j \<noteq> i" using ic by auto
    with j edge [of j] ic show "\<not> lt (swap xs i c ! parent c) (swap xs i c ! j)"
      by (auto simp: nth pc)
  qed
qed

lemma heap_sift_down: "heap_below lt xs i \<Longrightarrow> i < length xs \<Longrightarrow> heap lt (sift_down lt xs i)"
proof (induction "length xs - i" arbitrary: xs i rule: less_induct)
  case less
  show ?case
  proof (cases "2 * i + 1 < length xs \<and> lt (xs ! i) (xs ! larger_child lt xs i)")
    case True
    let ?c = "larger_child lt xs i"
    have "i < ?c" "?c < length xs"
      using larger_child_parent [of xs i] True larger_child_less by (auto simp: larger_child_def)
    moreover have "heap_below lt (swap xs i ?c) ?c"
      using less.prems True by (intro heap_below_step) simp_all
    ultimately have "heap lt (sift_down lt (swap xs i ?c) ?c)"
      using less.prems(2) by (intro less.hyps) auto
    with True show ?thesis by (simp add: sift_down.simps [of lt xs i])
  next
    case False
    have "\<not> lt (xs ! parent j) (xs ! j)" if j: "0 < j" "j < length xs" for j
    proof (cases "parent j = i")
      case True
      then have "2 * i + 1 < length xs" using j by auto
      with False have "\<not> lt (xs ! i) (xs ! larger_child lt xs i)" by simp
      then have "\<not> lt (xs ! i) (xs ! j)"
        using not_lt_trans larger_child_max [OF j True] by blast
      with True show ?thesis by simp
    next
      case False
      with j less.prems show ?thesis by (simp add: heap_below_def)
    qed
    then have "heap lt xs" by (simp add: heap_def)
    with False show ?thesis by (auto simp: sift_down.simps [of lt xs i])
  qed
qed

lemma heap_pq_pop: "heap lt c \<Longrightarrow> heap lt (pq_pop lt c)"
proof -
  assume h: "heap lt c"
  show ?thesis
  proof (cases "length c < 2")
    case True
    then show ?thesis by (simp add: pq_pop_eq heap_def)
  next
    case False
    let ?b = "(butlast c)[0 := last c]"
    have "heap_below lt ?b 0"
      using h by (auto simp: heap_below_def heap_def nth_butlast nth_list_update)
    moreover have "0 < length ?b" using False by simp
    ultimately show ?thesis using False by (simp add: pq_pop_eq heap_sift_down)
  qed
qed

end

section \<open>The heap implements the contract\<close>

text \<open>The loop that empties a queue, front first.\<close>

function pq_drain :: "('a \<Rightarrow> 'a \<Rightarrow> bool) \<Rightarrow> 'a list \<Rightarrow> 'a list" where
  "pq_drain lt c = (if c = [] then [] else pq_top c # pq_drain lt (pq_pop lt c))"
  by pat_completeness auto
termination
  by (relation "measure (\<lambda>(lt, c). length c)") (auto simp: length_pq_pop)

declare pq_drain.simps [simp del]

lemma pq_drain_Nil [simp]: "pq_drain lt [] = []"
  by (simp add: pq_drain.simps)

lemma pq_drain_step: "c \<noteq> [] \<Longrightarrow> pq_drain lt c = pq_top c # pq_drain lt (pq_pop lt c)"
  by (simp add: pq_drain.simps [of lt c])

context strict_weak_order
begin

lemma heap_queue:
  "drained_queue lt pq_empty (pq_push lt) pq_top (pq_pop lt) mset (heap lt) (pq_drain lt)"
proof unfold_locales
  fix q :: "'a list" and x :: 'a
  assume q: "heap lt q"
  show "x \<in># mset q \<Longrightarrow> \<not> lt (pq_top q) x"
    using heap_front [OF q] by (auto simp: pq_top_def in_set_conv_nth)
  show "mset q \<noteq> {#} \<Longrightarrow> pq_top q \<in># mset q"
    by (auto simp: pq_top_def)
qed (auto simp: pq_empty_def mset_pq_push mset_pq_pop pq_drain_step heap_pq_push heap_pq_pop)

end

end
