(* ===== verification/Job_Queue.thy ===== *)
theory Job_Queue
  imports Std_Heap Difficulty
begin

text \<open>
  \<^verbatim>\<open>work_handler.hpp\<close>: the class \<^verbatim>\<open>job\<close> with its comparator, and the queue
  operations of \<^verbatim>\<open>work_handler\<close> on
  \<^verbatim>\<open>std::priority_queue<job, std::vector<job>, job::comparator>\<close>. The queue is the
  vector of the heap (\<open>Std_Heap\<close>). Times are counts of nanoseconds since the epoch.
\<close>

text \<open>The Boost number types the jobs use: 128 and 256 bits, and the floats.\<close>

record libs =
  mp128 :: multiprecision
  mp256 :: multiprecision
  floats :: bigfloat_ops

definition libs_laws :: "libs \<Rightarrow> bool" where
  "libs_laws L \<longleftrightarrow> multiprecision_laws u128_size (mp128 L) \<and> multiprecision_laws u256_size (mp256 L) \<and>
     bigfloat_laws (floats L)"

definition sample_libs :: libs where
  "sample_libs = \<lparr>mp128 = sample_mp, mp256 = sample_mp, floats = sample_floats\<rparr>"

lemma sample_libs_laws: "libs_laws sample_libs"
  using sample_mp_laws sample_floats_laws by (simp add: libs_laws_def sample_libs_def)

section \<open>Jobs\<close>

record job_request =
  root_hash :: u256
  request_difficulty :: u128
  request_multiplier :: double

record job_result =
  result_work :: u128
  result_difficulty :: u128
  result_multiplier :: double

record job =
  start_time :: int
  end_time :: int
  request :: job_request
  result :: job_result
  priority :: "32 word"
  job_id :: "32 word"

text \<open>
  The constructor: the member initialisers parse \<^verbatim>\<open>"0"\<close>, then the job takes the next
  number of the dispenser, an unsigned counter that wraps.
\<close>

definition job_request_init :: "libs \<Rightarrow> job_request throws" where
  "job_request_init L =
     bind_throws (bigint_of_string (mp256 L) u256_size ''0'') (\<lambda>h.
     bind_throws (bigint_of_string (mp128 L) u128_size ''0'') (\<lambda>d.
       Inr \<lparr>root_hash = h, request_difficulty = d, request_multiplier = 1\<rparr>))"

definition job_result_init :: "libs \<Rightarrow> job_result throws" where
  "job_result_init L =
     bind_throws (bigint_of_string (mp128 L) u128_size ''0'') (\<lambda>w.
     bind_throws (bigint_of_string (mp128 L) u128_size ''0'') (\<lambda>d.
       Inr \<lparr>result_work = w, result_difficulty = d, result_multiplier = 1\<rparr>))"

definition new_job :: "libs \<Rightarrow> 32 word \<Rightarrow> (job \<times> 32 word) throws" where
  "new_job L job_id_dispenser =
     bind_throws (job_request_init L) (\<lambda>rq.
     bind_throws (job_result_init L) (\<lambda>rs.
       Inr (\<lparr>start_time = 0, end_time = 0, request = rq, result = rs, priority = 0,
             job_id = job_id_dispenser\<rparr>, job_id_dispenser + 1)))"

definition start :: "int \<Rightarrow> job \<Rightarrow> job" where
  "start now j = j\<lparr>start_time := now\<rparr>"

definition stop :: "int \<Rightarrow> job \<Rightarrow> job" where
  "stop now j = j\<lparr>end_time := now\<rparr>"

text \<open>\<^verbatim>\<open>duration_cast<milliseconds>\<close> truncates towards zero.\<close>

definition milliseconds :: "int \<Rightarrow> int" where
  "milliseconds ns = sgn ns * (\<bar>ns\<bar> div 1000000)"

definition duration :: "job \<Rightarrow> int" where
  "duration j = milliseconds (end_time j - start_time j)"

definition set_priority :: "32 word \<Rightarrow> job \<Rightarrow> job" where
  "set_priority priority_a j = j\<lparr>priority := priority_a\<rparr>"

definition comparator :: "job \<Rightarrow> job \<Rightarrow> bool" where
  "comparator job1 job2 =
     (if priority job1 \<noteq> priority job2 then priority job2 > priority job1
      else job_id job1 > job_id job2)"

text \<open>The comparator is the strict order of a linearly ordered key.\<close>

datatype job_key = Job_Key (key_priority: "32 word") (key_id: "32 word")

instantiation job_key :: linorder
begin

definition less_eq_job_key :: "job_key \<Rightarrow> job_key \<Rightarrow> bool" where
  "less_eq_job_key a b \<longleftrightarrow>
     key_priority a < key_priority b \<or> (key_priority a = key_priority b \<and> key_id b \<le> key_id a)"

definition less_job_key :: "job_key \<Rightarrow> job_key \<Rightarrow> bool" where
  "less_job_key a b \<longleftrightarrow>
     key_priority a < key_priority b \<or> (key_priority a = key_priority b \<and> key_id b < key_id a)"

instance
  by standard (auto simp: less_eq_job_key_def less_job_key_def job_key.expand)

end

definition key :: "job \<Rightarrow> job_key" where
  "key j = Job_Key (priority j) (job_id j)"

lemma key_eq_iff [simp]: "key a = key b \<longleftrightarrow> priority a = priority b \<and> job_id a = job_id b"
  by (simp add: key_def)

lemma comparator_key: "comparator a b \<longleftrightarrow> key a < key b"
  by (auto simp: comparator_def key_def less_job_key_def)

lemma not_comparator_key: "\<not> comparator a b \<longleftrightarrow> key b \<le> key a"
  by (simp add: comparator_key not_less)

interpretation comp: strict_weak_order comparator
  by unfold_locales (auto simp: comparator_key)

interpretation jobs: drained_queue comparator pq_empty "pq_push comparator" pq_top
  "pq_pop comparator" mset "heap comparator" "pq_drain comparator"
  by (rule comp.heap_queue)

lemma new_job_ok: "libs_laws L \<Longrightarrow> \<exists>j. new_job L d = Inr (j, d + 1) \<and> job_id j = d \<and> priority j = 0"
proof -
  assume "libs_laws L"
  then have "\<exists>b. bigint_of_string (mp128 L) u128_size ''0'' = Inr b"
    "\<exists>b. bigint_of_string (mp256 L) u256_size ''0'' = Inr b"
    by (auto simp: libs_laws_def bigint_of_string_def from_hex_def extract_law_def
        is_hex_def hex_char_value_def)
  then show ?thesis
    by (auto simp: new_job_def job_request_init_def job_result_init_def)
qed

section \<open>Queue operations\<close>

type_synonym job_queue = "job list"

definition push_job :: "job \<Rightarrow> job_queue \<Rightarrow> job_queue" where
  "push_job j jobs = pq_push comparator j jobs"

definition pop_job :: "job_queue \<Rightarrow> job option \<times> job_queue" where
  "pop_job jobs =
     (if jobs \<noteq> [] then (Some (pq_top jobs), pq_pop comparator jobs) else (None, jobs))"

function remove_loop :: "multiprecision \<Rightarrow> u256 \<Rightarrow> job_queue \<Rightarrow> job_queue \<Rightarrow> bool \<Rightarrow> job_queue \<times> bool" where
  "remove_loop M hash_a jobs jobs_l removed =
     (if jobs = [] then (jobs_l, removed)
      else let current = pq_top jobs in
        if bigint_number M (root_hash (request current)) \<noteq> bigint_number M hash_a
        then remove_loop M hash_a (pq_pop comparator jobs) (pq_push comparator current jobs_l) removed
        else remove_loop M hash_a (pq_pop comparator jobs) jobs_l True)"
  by pat_completeness auto
termination
  by (relation "measure (\<lambda>(M, hash_a, jobs, jobs_l, removed). length jobs)") (auto simp: length_pq_pop)

declare remove_loop.simps [simp del]

definition remove_job :: "multiprecision \<Rightarrow> u256 \<Rightarrow> job_queue \<Rightarrow> job_queue \<times> bool" where
  "remove_job M hash_a jobs = remove_loop M hash_a jobs pq_empty False"

definition get_queue :: "job_queue \<Rightarrow> job_queue" where
  "get_queue jobs = jobs"

section \<open>Lemmas\<close>

definition has_root :: "multiprecision \<Rightarrow> u256 \<Rightarrow> job \<Rightarrow> bool" where
  "has_root M hash_a j \<longleftrightarrow> bigint_number M (root_hash (request j)) = bigint_number M hash_a"

lemma remove_loop_eq:
  "remove_loop M hash_a jobs jobs_l removed =
     (fold (pq_push comparator) (filter (\<lambda>j. \<not> has_root M hash_a j) (pq_drain comparator jobs)) jobs_l,
      removed \<or> (\<exists>j \<in> set (pq_drain comparator jobs). has_root M hash_a j))"
proof (induction M hash_a jobs jobs_l removed rule: remove_loop.induct)
  case (1 M hash_a jobs jobs_l removed)
  then show ?case
    by (subst remove_loop.simps) (auto simp: pq_drain_step has_root_def Let_def)
qed

lemma remove_job_eq:
  "remove_job M hash_a jobs =
     (fold (pq_push comparator) (filter (\<lambda>j. \<not> has_root M hash_a j) (pq_drain comparator jobs)) [],
      \<exists>j \<in> set (pq_drain comparator jobs). has_root M hash_a j)"
  by (simp add: remove_job_def remove_loop_eq pq_empty_def)

lemma set_drain: "heap comparator q \<Longrightarrow> set (pq_drain comparator q) = set q"
  by (metis jobs.mset_drain set_mset_mset)

lemma heap_remove_job: "heap comparator (fst (remove_job M hash_a q))"
  using jobs.invar_fold_push [of "[]"] by (simp add: remove_job_eq)

lemma mset_remove_job:
  "heap comparator q \<Longrightarrow> mset (fst (remove_job M hash_a q)) = {#j \<in># mset q. \<not> has_root M hash_a j#}"
  using jobs.elems_fold_push [of "[]"] by (simp add: remove_job_eq jobs.mset_drain)

lemma removed_iff:
  "heap comparator q \<Longrightarrow> snd (remove_job M hash_a q) \<longleftrightarrow> (\<exists>j \<in> set q. has_root M hash_a j)"
  by (simp add: remove_job_eq set_drain)

lemma heap_push_job: "heap comparator q \<Longrightarrow> heap comparator (push_job j q)"
  by (simp add: push_job_def jobs.invar_push)

lemma mset_push_job: "mset (push_job j q) = add_mset j (mset q)"
  by (simp add: push_job_def mset_pq_push)

lemma sorted_key_drain:
  "heap comparator q \<Longrightarrow> sorted_wrt (\<lambda>a b. key b \<le> key a) (pq_drain comparator q)"
  using jobs.sorted_drain by (simp add: not_comparator_key)

definition distinct_keys :: "job multiset \<Rightarrow> bool" where
  "distinct_keys M \<longleftrightarrow> (\<forall>x y. x \<in># M \<longrightarrow> y \<in># M \<longrightarrow> key x = key y \<longrightarrow> x = y)"

lemma drain_eqI:
  assumes "heap comparator q" "distinct_keys (mset q)" "mset xs = mset q"
    "sorted_wrt (\<lambda>a b. key b \<le> key a) xs"
  shows "pq_drain comparator q = xs"
  using assms
  by (intro jobs.drain_unique) (auto simp: not_comparator_key distinct_keys_def)

lemma pop_job_Some:
  "heap comparator q \<Longrightarrow> pop_job q = (Some j, q') \<Longrightarrow>
     j \<in> set q \<and> (\<forall>x \<in> set q. key x \<le> key j) \<and> mset q' = mset q - {#j#} \<and> heap comparator q'"
  using jobs.top_in [of q] jobs.top_max [of q] jobs.elems_pop [of q] jobs.invar_pop [of q]
  by (auto simp: pop_job_def not_comparator_key split: if_splits)

lemma pop_job_None: "pop_job q = (None, q') \<longleftrightarrow> q = [] \<and> q' = []"
  by (auto simp: pop_job_def)

abbreviation push_jobs :: "job list \<Rightarrow> job_queue" where
  "push_jobs js \<equiv> fold push_job js pq_empty"

lemma push_jobs_eq: "push_jobs js = fold (pq_push comparator) js pq_empty"
  by (intro arg_cong2 [of _ _ _ _ "\<lambda>f q. fold f js q"]) (auto simp: push_job_def fun_eq_iff)

lemma heap_push_jobs: "heap comparator (push_jobs js)"
  by (simp add: push_jobs_eq jobs.invar_fold_push jobs.invar_empty)

lemma mset_push_jobs: "mset (push_jobs js) = mset js"
  by (simp add: push_jobs_eq jobs.elems_fold_push jobs.invar_empty jobs.elems_empty)

lemma key_le_iff:
  "key b \<le> key a \<longleftrightarrow> priority b < priority a \<or> (priority a = priority b \<and> job_id a \<le> job_id b)"
  by (auto simp: key_def less_eq_job_key_def)

section \<open>Properties\<close>

text \<open>
  C9. The queue hands jobs out in priority order: whatever sequence of jobs is pushed,
  emptying the queue yields exactly these jobs, higher priorities first and, within one
  priority, smaller job ids first.
\<close>

theorem queue_priority_order:
  "mset (pq_drain comparator (push_jobs js)) = mset js \<and>
   sorted_wrt (\<lambda>a b. priority b < priority a \<or> (priority a = priority b \<and> job_id a \<le> job_id b))
     (pq_drain comparator (push_jobs js))"
  using sorted_key_drain [OF heap_push_jobs, of js]
  by (simp add: jobs.mset_drain heap_push_jobs mset_push_jobs key_le_iff)

text \<open>
  C26. The queue is FIFO within each priority level: when jobs are pushed in the order of
  their ids, the jobs of any one priority leave the queue in the order they were pushed.
\<close>

theorem queue_fifo_within_priority:
  assumes "sorted_wrt (\<lambda>a b. job_id a < job_id b) js"
  shows "filter (\<lambda>j. priority j = p) (pq_drain comparator (push_jobs js))
    = filter (\<lambda>j. priority j = p) js"
proof -
  let ?d = "pq_drain comparator (push_jobs js)"
  have m: "mset ?d = mset js" by (simp add: jobs.mset_drain heap_push_jobs mset_push_jobs)
  then have set: "set ?d = set js" by (metis set_mset_mset)
  have "distinct (map job_id js)"
    using assms by (induction js) auto
  moreover have "mset (map job_id ?d) = mset (map job_id js)" using m by simp
  ultimately have d: "distinct (map job_id ?d)" by (metis mset_eq_imp_distinct_iff)
  have "sorted_wrt (\<lambda>a b. key b \<le> key a \<and> job_id a \<noteq> job_id b) ?d"
    using sorted_key_drain [OF heap_push_jobs, of js] d
    by (auto simp: sorted_wrt_iff_nth_less distinct_conv_nth)
  then have "sorted_wrt (\<lambda>a b. job_id a < job_id b) (filter (\<lambda>j. priority j = p) ?d)"
    by (intro sorted_wrt_mono_rel [OF _ sorted_wrt_filter])
      (auto simp: key_le_iff order.not_eq_order_implies_strict)
  moreover have "sorted_wrt (\<lambda>a b. job_id a < job_id b) (filter (\<lambda>j. priority j = p) js)"
    using assms by (rule sorted_wrt_filter)
  ultimately show ?thesis
    by (intro sorted_wrt_strict_unique [where R = "\<lambda>a b. job_id a < job_id b"])
      (auto simp: mset_filter m)
qed

definition sample_job :: "32 word \<Rightarrow> 32 word \<Rightarrow> nat \<Rightarrow> job" where
  "sample_job pri i h = \<lparr>start_time = 0, end_time = 0,
     request = \<lparr>root_hash = bigint_set sample_mp u256_size h,
       request_difficulty = base_sample, request_multiplier = 1\<rparr>,
     result = \<lparr>result_work = base_sample, result_difficulty = base_sample, result_multiplier = 1\<rparr>,
     priority = pri, job_id = i\<rparr>"

lemma sample_job_sels [simp]:
  "priority (sample_job p i h) = p" "job_id (sample_job p i h) = i"
  "root_hash (request (sample_job p i h)) = bigint_set sample_mp u256_size h"
  by (simp_all add: sample_job_def)

theorem queue_fifo_within_priority_witness:
  "filter (\<lambda>j. priority j = 0)
     (pq_drain comparator (push_jobs [sample_job 0 1 7, sample_job 5 2 8, sample_job 0 3 9]))
   = [sample_job 0 1 7, sample_job 0 3 9]"
  using queue_fifo_within_priority
    [of "[sample_job 0 1 7, sample_job 5 2 8, sample_job 0 3 9]" 0] by simp

text \<open>
  C17. Cancelling is exact and keeps the order: \<^verbatim>\<open>remove_job\<close> returns true exactly when a
  queued job has the hash, and afterwards the queue hands out the same sequence as before
  without the jobs of that hash.
\<close>

theorem remove_job_filters:
  assumes "heap comparator q" "distinct_keys (mset q)"
  shows "pq_drain comparator (fst (remove_job M hash_a q))
      = filter (\<lambda>j. \<not> has_root M hash_a j) (pq_drain comparator q) \<and>
    (snd (remove_job M hash_a q) \<longleftrightarrow> (\<exists>j. j \<in> set q \<and> has_root M hash_a j))"
proof
  let ?r = "fst (remove_job M hash_a q)"
  have "distinct_keys (mset ?r)"
    using assms by (simp add: mset_remove_job distinct_keys_def)
  moreover have "mset (filter (\<lambda>j. \<not> has_root M hash_a j) (pq_drain comparator q)) = mset ?r"
    using assms by (simp add: mset_filter jobs.mset_drain mset_remove_job)
  ultimately show "pq_drain comparator ?r
      = filter (\<lambda>j. \<not> has_root M hash_a j) (pq_drain comparator q)"
    using assms(1) by (intro drain_eqI heap_remove_job sorted_wrt_filter sorted_key_drain)
  show "snd (remove_job M hash_a q) \<longleftrightarrow> (\<exists>j. j \<in> set q \<and> has_root M hash_a j)"
    using removed_iff [OF assms(1), of M hash_a] by auto
qed

lemma heap_two: "job_id a < job_id b \<Longrightarrow> priority a = priority b \<Longrightarrow> heap comparator [a, b]"
  by (auto simp: heap_def less_Suc_eq comparator_def)

lemma distinct_keys_two: "job_id a \<noteq> job_id b \<Longrightarrow> distinct_keys (mset [a, b])"
  by (auto simp: distinct_keys_def)

theorem remove_job_filters_witness:
  "pq_drain comparator (fst (remove_job sample_mp (bigint_set sample_mp u256_size 7)
      [sample_job 0 1 7, sample_job 0 2 8])) = [sample_job 0 2 8] \<and>
   snd (remove_job sample_mp (bigint_set sample_mp u256_size 7) [sample_job 0 1 7, sample_job 0 2 8])"
proof -
  let ?q = "[sample_job 0 1 7, sample_job 0 2 8]"
  have q: "heap comparator ?q" "distinct_keys (mset ?q)"
    by (intro heap_two distinct_keys_two; simp)+
  have d: "pq_drain comparator ?q = ?q"
    using q by (intro drain_eqI) (auto simp: key_le_iff)
  have "has_root sample_mp (bigint_set sample_mp u256_size 7) (sample_job 0 1 7)"
    "\<not> has_root sample_mp (bigint_set sample_mp u256_size 7) (sample_job 0 2 8)"
    using sample_mp_laws by (simp_all add: has_root_def number_set)
  then show ?thesis
    using remove_job_filters [OF q, of sample_mp "bigint_set sample_mp u256_size 7"] by (auto simp: d)
qed

text \<open>
  C30. Where the FIFO promise ends: the dispenser is a 32-bit counter, so after the job with
  id \<open>2^32 - 1\<close> the next job gets id 0 and, at equal priority, leaves the queue first.
\<close>

theorem fifo_broken_at_wrap:
  assumes "new_job L (- 1) = Inr (j1, d1)" "new_job L d1 = Inr (j2, d2)"
  shows "job_id j1 = 2 ^ 32 - 1 \<and> job_id j2 = 0 \<and>
    pq_drain comparator (push_jobs [j1, j2]) = [j2, j1]"
proof -
  have ids: "job_id j1 = - 1" "d1 = 0" "job_id j2 = 0" "priority j1 = 0" "priority j2 = 0"
    using assms by (auto simp: new_job_def bind_throws_iffs)
  then have "distinct_keys (mset (push_jobs [j1, j2]))"
    using distinct_keys_two [of j2 j1] by (simp add: mset_push_job pq_empty_def)
  then have "pq_drain comparator (push_jobs [j1, j2]) = [j2, j1]"
    using ids by (intro drain_eqI heap_push_jobs) (auto simp: mset_push_job pq_empty_def key_le_iff)
  with ids show ?thesis by simp
qed

theorem fifo_broken_at_wrap_witness:
  "\<exists>j1 j2. new_job sample_libs (- 1) = Inr (j1, 0) \<and> new_job sample_libs 0 = Inr (j2, 1) \<and>
     pq_drain comparator (push_jobs [j1, j2]) = [j2, j1]"
proof -
  obtain j1 where j1: "new_job sample_libs (- 1) = Inr (j1, 0)"
    using new_job_ok [OF sample_libs_laws, of "- 1"] by auto
  obtain j2 where j2: "new_job sample_libs 0 = Inr (j2, 1)"
    using new_job_ok [OF sample_libs_laws, of 0] by auto
  show ?thesis using j1 j2 fifo_broken_at_wrap [OF j1 j2] by blast
qed

end
