(* ===== verification/Config.thy ===== *)
theory Config
  imports Job_Queue
begin

text \<open>
  \<^verbatim>\<open>config.hpp\<close>: the server configuration, read from a TOML tree with defaults, and
  its documented export. The TOML library (cpptoml, a git submodule) is a parameter: its
  parser and writer are functions, a parsed table is the record of what its
  \<^verbatim>\<open>get_as<T> (key)\<close> calls return. The file system and the platform's constants are
  parameters too.
\<close>

section \<open>Settings\<close>

datatype device_type = Cpu | Gpu

record device =
  dev_type :: device_type
  platform_id :: "64 word"
  device_id :: "64 word"
  dev_threads :: "64 word"
  memory :: "64 word"

definition device_default :: device where
  "device_default = \<lparr>dev_type = Cpu, platform_id = 0, device_id = 0, dev_threads = 0,
     memory = 1024 * 2\<rparr>"

fun type_as_string :: "device_type \<Rightarrow> string" where
  "type_as_string Cpu = ''cpu''"
| "type_as_string Gpu = ''gpu''"

record server_config =
  bind_address :: string
  port :: "16 word"
  server_threads :: "16 word"
  request_limit :: "32 word"
  allow_prioritization :: bool
  allow_control :: bool
  log_to_stderr :: bool

record work_config =
  base_difficulty :: u128
  mock_work_generation_delay :: "16 word"

record admin_config =
  doc_root :: string
  enable :: bool
  allow_remote :: bool

record config =
  server :: server_config
  devices :: "device list"
  work :: work_config
  admin :: admin_config

definition BASE_DIFFICULTY :: string where
  "BASE_DIFFICULTY = ''2000000000000000''"

text \<open>
  \<open>loopback\<close> is \<^verbatim>\<open>address_v6::loopback ().to_string ()\<close>; the hardware concurrency is
  an \<^verbatim>\<open>unsigned\<close> cut to 16 bits.
\<close>

record platform =
  loopback :: string
  hardware_concurrency :: "32 word"

definition server_default :: "platform \<Rightarrow> server_config" where
  "server_default P = \<lparr>bind_address = loopback P, port = 8076,
     server_threads = ucast (hardware_concurrency P), request_limit = 1024 * 16,
     allow_prioritization = False, allow_control = False, log_to_stderr = False\<rparr>"

definition work_default :: "libs \<Rightarrow> work_config throws" where
  "work_default L =
     bind_throws (bigint_of_string (mp128 L) u128_size BASE_DIFFICULTY) (\<lambda>d.
       Inr \<lparr>base_difficulty = d, mock_work_generation_delay = 0\<rparr>)"

definition admin_default :: admin_config where
  "admin_default = \<lparr>doc_root = ''public'', enable = False, allow_remote = False\<rparr>"

section \<open>The TOML tree\<close>

text \<open>
  \<open>get_string k\<close> and its kin are the results of \<^verbatim>\<open>get_as<T> (k)\<close>, which may throw.
  \<open>get_table\<close> is the table \<^verbatim>\<open>get_table (k)\<close> points to; the code dereferences the pointer
  without a check, so a key that is present but no table is outside the model.
\<close>

record toml_table =
  get_string :: "string \<Rightarrow> string option throws"
  get_bool :: "string \<Rightarrow> bool option throws"
  get_uint16 :: "string \<Rightarrow> 16 word option throws"
  get_uint32 :: "string \<Rightarrow> 32 word option throws"
  get_uint64 :: "string \<Rightarrow> 64 word option throws"

datatype toml_item = Table toml_table | Table_Array "toml_table list" | Other_Item

record toml_tree =
  contains :: "string \<Rightarrow> bool"
  get_table :: "string \<Rightarrow> toml_table throws"
  get_item :: "string \<Rightarrow> toml_item throws"

definition value_or :: "'a option throws \<Rightarrow> 'a \<Rightarrow> 'a throws" where
  "value_or r d = bind_throws r (\<lambda>v. Inr (case v of None \<Rightarrow> d | Some x \<Rightarrow> x))"

section \<open>Reading the configuration\<close>

text \<open>
  \<open>parse overrides base\<close> is \<^verbatim>\<open>cpptoml::parse_base_and_override_files\<close>; \<open>file\<close> gives
  the contents of a path that exists.
\<close>

definition read_config :: "(string \<Rightarrow> string \<Rightarrow> toml_tree throws) \<Rightarrow> (string \<Rightarrow> string option) \<Rightarrow>
    string \<Rightarrow> string list \<Rightarrow> toml_tree throws" where
  "read_config parse file toml_config_path config_overrides =
     (let stream = concat (map (\<lambda>entry. entry @ [CHR 0x0A]) config_overrides) @ [CHR 0x0A];
          base = (if toml_config_path = [] then [CHR 0x0A]
                  else case file toml_config_path of None \<Rightarrow> [CHR 0x0A] | Some text \<Rightarrow> text)
      in case parse stream base of
           Inl e \<Rightarrow> throw (''TOML config error: '' @ what e)
         | Inr tree \<Rightarrow> Inr tree)"

definition config_file_exists :: "(string \<Rightarrow> string option) \<Rightarrow> string \<Rightarrow> bool" where
  "config_file_exists file toml_config_path \<longleftrightarrow> file toml_config_path \<noteq> None"

definition read_server :: "toml_tree \<Rightarrow> server_config \<Rightarrow> server_config throws" where
  "read_server tree s =
     (if contains tree ''server'' then
        bind_throws (get_table tree ''server'') (\<lambda>t.
        bind_throws (value_or (get_string t ''bind'') (bind_address s)) (\<lambda>bind.
        bind_throws (value_or (get_uint16 t ''port'') (port s)) (\<lambda>prt.
        bind_throws (value_or (get_uint16 t ''threads'') (server_threads s)) (\<lambda>thr.
        bind_throws (value_or (get_bool t ''allow_prioritization'') (allow_prioritization s)) (\<lambda>pri.
        bind_throws (value_or (get_bool t ''allow_control'') (allow_control s)) (\<lambda>ctl.
        bind_throws (value_or (get_uint32 t ''request_limit'') (request_limit s)) (\<lambda>lim.
        bind_throws (value_or (get_bool t ''log_to_stderr'') (log_to_stderr s)) (\<lambda>log.
          Inr \<lparr>bind_address = bind, port = prt, server_threads = thr, request_limit = lim,
            allow_prioritization = pri, allow_control = ctl, log_to_stderr = log\<rparr>))))))))
      else Inr s)"

definition read_work :: "libs \<Rightarrow> toml_tree \<Rightarrow> work_config \<Rightarrow> work_config throws" where
  "read_work L tree w =
     (if contains tree ''work'' then
        bind_throws (get_table tree ''work'') (\<lambda>t.
        bind_throws (value_or (get_string t ''base_difficulty'') BASE_DIFFICULTY) (\<lambda>base_hex.
        case from_hex (mp128 L) u128_size base_hex (base_difficulty w) of
          (_, Some e) \<Rightarrow> Inl e
        | (d, None) \<Rightarrow>
            bind_throws (value_or (get_uint16 t ''mock_work_generation_delay'')
              (mock_work_generation_delay w)) (\<lambda>delay.
              Inr \<lparr>base_difficulty = d, mock_work_generation_delay = delay\<rparr>)))
      else Inr w)"

definition get_device :: "toml_table \<Rightarrow> device throws" where
  "get_device t =
     bind_throws (value_or (get_uint64 t ''platform'') (platform_id device_default)) (\<lambda>pl.
     bind_throws (value_or (get_uint64 t ''device'') (device_id device_default)) (\<lambda>dv.
     bind_throws (value_or (get_uint64 t ''threads'') (dev_threads device_default)) (\<lambda>th.
     bind_throws (value_or (get_uint64 t ''memory'') (memory device_default)) (\<lambda>mem.
     bind_throws (value_or (get_string t ''type'') ''cpu'') (\<lambda>ty.
     bind_throws (if ty = ''cpu'' then Inr Cpu else if ty = ''gpu'' then Inr Gpu
       else throw ''config: invalid device type (must be \"cpu\" or \"gpu\")'') (\<lambda>k.
       Inr \<lparr>dev_type = k, platform_id = pl, device_id = dv, dev_threads = th, memory = mem\<rparr>))))))"

fun get_devices :: "toml_table list \<Rightarrow> device list throws" where
  "get_devices [] = Inr []"
| "get_devices (t # ts) =
     bind_throws (get_device t) (\<lambda>d. bind_throws (get_devices ts) (\<lambda>ds. Inr (d # ds)))"

definition read_devices :: "toml_tree \<Rightarrow> device list throws" where
  "read_devices tree =
     (if contains tree ''device'' then
        bind_throws (get_item tree ''device'') (\<lambda>item.
          case item of
            Table t \<Rightarrow> bind_throws (get_device t) (\<lambda>d. Inr [d])
          | Table_Array ts \<Rightarrow> get_devices ts
          | Other_Item \<Rightarrow> throw ''device must be a table or table array'')
      else Inr [])"

definition read_admin :: "toml_tree \<Rightarrow> admin_config \<Rightarrow> admin_config throws" where
  "read_admin tree a =
     (if contains tree ''admin'' then
        bind_throws (get_table tree ''admin'') (\<lambda>t.
        bind_throws (value_or (get_string t ''path'') (doc_root a)) (\<lambda>path.
        bind_throws (value_or (get_bool t ''allow_remote'') (allow_remote a)) (\<lambda>rem.
        bind_throws (value_or (get_bool t ''enable'') (enable a)) (\<lambda>en.
          Inr \<lparr>doc_root = path, enable = en, allow_remote = rem\<rparr>))))
      else Inr a)"

definition new_config :: "libs \<Rightarrow> platform \<Rightarrow> (string \<Rightarrow> string \<Rightarrow> toml_tree throws) \<Rightarrow>
    (string \<Rightarrow> string option) \<Rightarrow> string \<Rightarrow> string list \<Rightarrow> config throws" where
  "new_config L P parse file toml_config_path config_overrides =
     bind_throws (work_default L) (\<lambda>w0.
     bind_throws (read_config parse file toml_config_path config_overrides) (\<lambda>tree.
     bind_throws (read_server tree (server_default P)) (\<lambda>s.
     bind_throws (read_work L tree w0) (\<lambda>w.
     bind_throws (read_devices tree) (\<lambda>ds.
     bind_throws (read_admin tree admin_default) (\<lambda>a.
       Inr \<lparr>server = s, devices = ds, work = w, admin = a\<rparr>))))))"

section \<open>The documented export\<close>

datatype toml_value = Toml_String string | Toml_Int int | Toml_Bool bool

text \<open>A table under construction: key, value and documentation of each entry, in order.\<close>

type_synonym toml_entries = "(string \<times> toml_value \<times> string) list"

definition put :: "toml_entries \<Rightarrow> string \<Rightarrow> toml_value \<Rightarrow> string \<Rightarrow> toml_entries" where
  "put t k v doc = t @ [(k, v, doc)]"

abbreviation newline :: string where
  "newline \<equiv> [CHR 0x0A]"

definition server_table :: "server_config \<Rightarrow> toml_entries" where
  "server_table s =
     (let t = put [] ''bind'' (Toml_String (bind_address s))
            (''Listening address for HTTP and WebSocket connections.'' @ newline @ ''type:string,ip'');
          t = put t ''port'' (Toml_Int (uint (port s)))
            (''Listening port for HTTP and WebSocket connections.'' @ newline @ ''type:uint16'');
          t = put t ''threads'' (Toml_Int (uint (server_threads s)))
            (''Number of IO threads used by the web server.'' @ newline @ ''type:uint16'');
          t = put t ''allow_prioritization'' (Toml_Bool (allow_prioritization s))
            (''If true, work requests may contain a numeric \"priority\" property to move ahead in the queue.''
              @ newline @ ''type:bool'');
          t = put t ''allow_control'' (Toml_Bool (allow_control s))
            (''Administriative REST requests requires this to be true, otherwise an error is returned.''
              @ newline @ ''type:bool'');
          t = put t ''request_limit'' (Toml_Int (uint (request_limit s)))
            (''The maximum number of queued work requests. If the queue is full, work requests will result in an error.''
              @ newline @ ''type:uint32'')
      in put t ''log_to_stderr'' (Toml_Bool (log_to_stderr s))
            (''Log to standard error in addition to file.'' @ newline @ ''type:bool''))"

definition work_table :: "libs \<Rightarrow> work_config \<Rightarrow> toml_entries" where
  "work_table L w =
     (let t = put [] ''base_difficulty'' (Toml_String (to_hex (mp128 L) u128_size (base_difficulty w)))
            (''Base work difficulty'' @ newline @ ''type:string,hex'')
      in put t ''mock_work_generation_delay'' (Toml_Int (uint (mock_work_generation_delay w)))
            (''If non-zero, the server simulates generating work for N seconds instead of'' @ newline
              @ ''using a work device. Useful during testing of initial setup and debugging.''
              @ newline @ ''type:uint16''))"

definition admin_table :: "admin_config \<Rightarrow> toml_entries" where
  "admin_table a =
     (let t = put [] ''allow_remote'' (Toml_Bool (allow_remote a))
            (''If true, static files are available remotely, otherwise only to loopback.''
              @ newline @ ''type:bool'');
          t = put t ''enable'' (Toml_Bool (enable a))
            (''Enable or disable serving static files.'' @ newline @ ''type:bool'')
      in put t ''path'' (Toml_String (doc_root a))
            (''Path to static files, by default '' @ [CHR 0x27] @ ''public'' @ [CHR 0x27] @ '' relative to working directory''
              @ newline @ ''type:string,path''))"

definition device_table :: toml_entries where
  "device_table =
     (let t = put [] ''type'' (Toml_String ''gpu'')
            (''Device type'' @ newline @ ''type:string,[\"cpu\"|\"gpu\"]'');
          t = put t ''device_id'' (Toml_Int 0) (''Device ID (gpu only)'' @ newline @ ''type:uint64_t'');
          t = put t ''platform_id'' (Toml_Int 0) (''Platform ID (gpu only)'' @ newline @ ''type:uint64_t'');
          t = put t ''memory'' (Toml_Int 0)
            (''Maximum memory to allocate in MB'' @ newline @ ''type:uint64_t'')
      in put t ''threads'' (Toml_Int 0) (''Number of CPU or GPU threads'' @ newline @ ''type:uint64_t''))"

definition documented_tree :: "libs \<Rightarrow> config \<Rightarrow> (string \<times> toml_entries) list" where
  "documented_tree L c =
     [(''server'', server_table (server c)), (''work'', work_table L (work c)),
      (''device'', device_table), (''admin'', admin_table (admin c))]"

text \<open>
  \<^verbatim>\<open>std::getline (ss, line)\<close> until it fails: the lines, without a last empty one.
  The loop comments out every line that is neither empty, a comment nor a table header.
\<close>

function split_lines :: "string \<Rightarrow> string list" where
  "split_lines s =
     (if s = [] then []
      else takeWhile (\<lambda>c. c \<noteq> CHR 0x0A) s # split_lines (tl (dropWhile (\<lambda>c. c \<noteq> CHR 0x0A) s)))"
  by pat_completeness auto
termination
proof (relation "measure length")
  fix s :: string
  assume "s \<noteq> []"
  then have "0 < length s" by simp
  moreover have "length (dropWhile (\<lambda>c. c \<noteq> CHR 0x0A) s) \<le> length s"
    by (rule length_dropWhile_le)
  ultimately have "length (tl (dropWhile (\<lambda>c. c \<noteq> CHR 0x0A) s)) < length s"
    by (simp only: length_tl)
  then show "(tl (dropWhile (\<lambda>c. c \<noteq> CHR 0x0A) s), s) \<in> measure length" by simp
qed simp

declare split_lines.simps [simp del]

definition comment_line :: "string \<Rightarrow> string" where
  "comment_line line =
     (if line \<noteq> [] \<and> hd line \<noteq> CHR ''#'' \<and> hd line \<noteq> CHR ''['' then CHR ''#'' # line else line)"

definition comment_out :: "string \<Rightarrow> string" where
  "comment_out text = concat (map (\<lambda>line. comment_line line @ newline) (split_lines text))"

definition export_documented :: "libs \<Rightarrow> ((string \<times> toml_entries) list \<Rightarrow> string) \<Rightarrow> config \<Rightarrow> string" where
  "export_documented L write_toml c = comment_out (write_toml (documented_tree L c))"

lemma split_lines_Nil [simp]: "split_lines [] = []"
  by (simp add: split_lines.simps)

lemma split_lines_append:
  "CHR 0x0A \<notin> set l \<Longrightarrow> split_lines (l @ newline @ s) = l # split_lines s"
proof -
  assume l: "CHR 0x0A \<notin> set l"
  then have "takeWhile (\<lambda>c. c \<noteq> CHR 0x0A) (l @ newline @ s) = l"
    "dropWhile (\<lambda>c. c \<noteq> CHR 0x0A) (l @ newline @ s) = newline @ s"
    by (induction l) auto
  then show ?thesis by (subst split_lines.simps) simp
qed

lemma split_lines_concat:
  "(\<And>l. l \<in> set ls \<Longrightarrow> CHR 0x0A \<notin> set l) \<Longrightarrow> split_lines (concat (map (\<lambda>l. l @ newline) ls)) = ls"
  by (induction ls) (simp_all add: split_lines_append [simplified])

lemma split_lines_no_newline: "l \<in> set (split_lines s) \<Longrightarrow> CHR 0x0A \<notin> set l"
proof (induction s rule: split_lines.induct)
  case (1 s)
  then show ?case
    by (auto simp: split_lines.simps [of s] dest: set_takeWhileD split: if_splits)
qed

lemma comment_line_ok: "comment_line l = [] \<or> hd (comment_line l) \<in> {CHR ''#'', CHR ''[''}"
  by (auto simp: comment_line_def)

lemma comment_line_idem [simp]: "comment_line (comment_line l) = comment_line l"
  by (auto simp: comment_line_def)

lemma split_comment_out: "split_lines (comment_out s) = map comment_line (split_lines s)"
proof -
  have "CHR 0x0A \<notin> set l" if "l \<in> set (map comment_line (split_lines s))" for l
    using that split_lines_no_newline by (auto simp: comment_line_def split: if_splits)
  then show ?thesis
    using split_lines_concat [of "map comment_line (split_lines s)"]
    by (simp add: comment_out_def comp_def)
qed

text \<open>Every text is a sequence of lines, each with its newline, and a rest without one.\<close>

lemma split_lines_decomposed:
  "\<exists>ls rest. list_all (\<lambda>l. CHR 0x0A \<notin> set l) (rest # ls) \<and>
     s = concat (map (\<lambda>l. l @ newline) ls) @ rest \<and>
     split_lines s = ls @ (if rest = [] then [] else [rest])"
proof (induction s rule: split_lines.induct)
  case (1 s)
  let ?nl = "\<lambda>c. c \<noteq> CHR 0x0A"
  have l: "CHR 0x0A \<notin> set (takeWhile ?nl s)" by (auto dest: set_takeWhileD)
  show ?case
  proof (cases "dropWhile ?nl s")
    case Nil
    then have "takeWhile ?nl s = s" by (metis append_Nil2 takeWhile_dropWhile_id)
    moreover from this have "split_lines s = (if s = [] then [] else [s])"
      by (subst split_lines.simps) (simp only: Nil list.sel split_lines_Nil)
    ultimately show ?thesis
      using l by (intro exI [of _ "[] :: string list"] exI [of _ s]) auto
  next
    case (Cons c t)
    then have c: "c = CHR 0x0A" using hd_dropWhile [of ?nl s] by simp
    have s: "s = takeWhile ?nl s @ newline @ t"
      using takeWhile_dropWhile_id [of ?nl s] by (simp add: Cons c)
    from Cons have "s \<noteq> []" by auto
    then obtain ls rest where IH: "list_all (\<lambda>l. CHR 0x0A \<notin> set l) (rest # ls)"
      "t = concat (map (\<lambda>l. l @ newline) ls) @ rest"
      "split_lines t = ls @ (if rest = [] then [] else [rest])"
      using "1.IH" Cons by auto
    have "split_lines s = takeWhile ?nl s # split_lines t"
      using \<open>s \<noteq> []\<close> Cons by (simp add: split_lines.simps [of s])
    then show ?thesis
      using IH s l by (intro exI [of _ "takeWhile ?nl s # ls"] exI [of _ rest]) auto
  qed
qed

section \<open>Properties\<close>

text \<open>
  C29. The exported sample configuration sets nothing and loses nothing: whatever text the TOML
  writer prints, the export has the same lines in the same order, the empty lines, the comments and
  the table headers as they are and every other line, a setting, with a \<^verbatim>\<open>#\<close> put in front; so
  every line of the export is empty, a comment or a table header, and commenting out the
  export again changes nothing.
\<close>

theorem export_is_commented_out:
  "(\<exists>ls rest. list_all (\<lambda>l. CHR 0x0A \<notin> set l) (rest # ls) \<and>
     write_toml (documented_tree L c) = concat (map (\<lambda>l. l @ [CHR 0x0A]) ls) @ rest \<and>
     export_documented L write_toml c = concat (map
       (\<lambda>l. (if l = [] \<or> hd l \<in> {CHR ''#'', CHR ''[''} then l else CHR ''#'' # l) @ [CHR 0x0A])
       (ls @ (if rest = [] then [] else [rest])))) \<and>
   list_all (\<lambda>l. l = [] \<or> hd l \<in> {CHR ''#'', CHR ''[''})
     (split_lines (export_documented L write_toml c)) \<and>
   comment_out (export_documented L write_toml c) = export_documented L write_toml c"
proof (intro conjI)
  let ?s = "write_toml (documented_tree L c)"
  have line: "comment_line = (\<lambda>l. if l = [] \<or> hd l \<in> {CHR ''#'', CHR ''[''} then l else CHR ''#'' # l)"
    by (auto simp: comment_line_def)
  obtain ls rest where d: "list_all (\<lambda>l. CHR 0x0A \<notin> set l) (rest # ls)"
    "?s = concat (map (\<lambda>l. l @ newline) ls) @ rest"
    "split_lines ?s = ls @ (if rest = [] then [] else [rest])"
    using split_lines_decomposed [of ?s] by blast
  have "export_documented L write_toml c
      = concat (map (\<lambda>l. comment_line l @ newline) (ls @ (if rest = [] then [] else [rest])))"
    by (simp only: export_documented_def comment_out_def d(3))
  with d(1,2) show "\<exists>ls rest. list_all (\<lambda>l. CHR 0x0A \<notin> set l) (rest # ls) \<and>
     ?s = concat (map (\<lambda>l. l @ [CHR 0x0A]) ls) @ rest \<and>
     export_documented L write_toml c = concat (map
       (\<lambda>l. (if l = [] \<or> hd l \<in> {CHR ''#'', CHR ''[''} then l else CHR ''#'' # l) @ [CHR 0x0A])
       (ls @ (if rest = [] then [] else [rest])))"
    unfolding line by blast
  show "list_all (\<lambda>l. l = [] \<or> hd l \<in> {CHR ''#'', CHR ''[''})
      (split_lines (export_documented L write_toml c))"
    using comment_line_ok by (simp add: export_documented_def split_comment_out list_all_iff)
  let ?t = "comment_out ?s"
  have "map (\<lambda>line. comment_line line @ newline) (split_lines ?t)
      = map (\<lambda>line. comment_line line @ newline) (split_lines ?s)"
    by (simp add: split_comment_out)
  then have "comment_out ?t = ?t" by (simp only: comment_out_def [of ?t]) (simp add: comment_out_def)
  then show "comment_out (export_documented L write_toml c) = export_documented L write_toml c"
    by (simp add: export_documented_def)
qed

definition empty_tree :: toml_tree where
  "empty_tree = \<lparr>contains = (\<lambda>k. False), get_table = (\<lambda>k. throw k), get_item = (\<lambda>k. throw k)\<rparr>"

lemma hex_value_base: "list_all is_hex BASE_DIFFICULTY \<and> hex_value BASE_DIFFICULTY = 2 ^ 61"
  by (simp add: BASE_DIFFICULTY_def is_hex_def hex_char_value_def hex_value_def horner_def)

lemma base_of_string:
  assumes "libs_laws L"
  shows "bigint_of_string (mp128 L) u128_size BASE_DIFFICULTY
    = Inr (bigint_set (mp128 L) u128_size (2 ^ 61))"
proof -
  have "from_hex (mp128 L) u128_size BASE_DIFFICULTY b
      = (bigint_set (mp128 L) u128_size (hex_value BASE_DIFFICULTY), None)" for b
    using assms hex_value_base
    by (intro from_hex_digits) (simp_all add: libs_laws_def BASE_DIFFICULTY_def)
  then show ?thesis using hex_value_base by (simp add: bigint_of_string_def)
qed

text \<open>
  Without a configuration file and with no table in the overrides, the configuration is
  the defaults: port 8076, a queue of 16384 requests, prioritisation and control off, base
  difficulty \<open>2^61\<close>, static pages off and no work device.
\<close>

lemma default_config:
  assumes "libs_laws L" "\<And>stream base. parse stream base = Inr empty_tree"
  shows "\<exists>c. new_config L P parse file path overrides = Inr c \<and>
    port (server c) = 8076 \<and> request_limit (server c) = 16384 \<and>
    \<not> allow_prioritization (server c) \<and> \<not> allow_control (server c) \<and> devices c = [] \<and>
    bigint_number (mp128 L) (base_difficulty (work c)) = 2 ^ 61 \<and> \<not> enable (admin c)"
proof -
  have "read_config parse file path overrides = Inr empty_tree"
    by (simp add: read_config_def assms(2) Let_def)
  moreover have "bigint_number (mp128 L) (bigint_set (mp128 L) u128_size (2 ^ 61)) = 2 ^ 61"
    using assms(1) by (intro number_set) (simp_all add: libs_laws_def)
  ultimately show ?thesis
    by (simp add: new_config_def work_default_def base_of_string [OF assms(1)] read_server_def
        read_work_def read_devices_def read_admin_def empty_tree_def server_default_def
        admin_default_def)
qed

lemma default_config_witness:
  "\<exists>c. new_config sample_libs \<lparr>loopback = ''::1'', hardware_concurrency = 4\<rparr>
      (\<lambda>stream base. Inr empty_tree) (\<lambda>p. None) [] [] = Inr c \<and> port (server c) = 8076"
  using default_config [OF sample_libs_laws,
      of "\<lambda>stream base. Inr empty_tree" "\<lparr>loopback = ''::1'', hardware_concurrency = 4\<rparr>"
        "\<lambda>p. None" "[]" "[]"] by auto

lemma get_devices_Inr:
  "get_devices ts = Inr ds \<longleftrightarrow> length ds = length ts \<and> (\<forall>i. i < length ts \<longrightarrow> get_device (ts ! i) = Inr (ds ! i))"
proof (induction ts arbitrary: ds)
  case (Cons t ts)
  then show ?case
    by (cases ds) (auto simp: bind_throws_Inr_iff nth_Cons split: nat.splits)
qed auto

lemma get_device_bad_type:
  assumes "get_string t ''type'' = Inr (Some ty)" "ty \<noteq> ''cpu''" "ty \<noteq> ''gpu''"
  shows "get_device t \<noteq> Inr d"
  using assms by (auto simp: get_device_def bind_throws_Inr_iff value_or_def)

text \<open>
  C28. One device per \<^verbatim>\<open>[[device]]\<close> entry, in order: when a configuration with a table
  array of devices is accepted, device \<open>i\<close> is what entry \<open>i\<close> says; and an entry whose type
  is neither cpu nor gpu makes the whole configuration fail.
\<close>

theorem configured_devices:
  assumes "new_config L P parse file path overrides = Inr c"
    and "read_config parse file path overrides = Inr tree"
    and "contains tree ''device''" "get_item tree ''device'' = Inr (Table_Array ts)"
  shows "length (devices c) = length ts \<and>
    (\<forall>i. i < length ts \<longrightarrow> get_device (ts ! i) = Inr (devices c ! i) \<and>
      get_string (ts ! i) ''type'' \<in> {Inr None, Inr (Some ''cpu''), Inr (Some ''gpu'')})"
proof -
  have ds: "get_devices ts = Inr (devices c)"
    using assms by (auto simp: new_config_def bind_throws_Inr_iff read_devices_def)
  moreover have "get_string t ''type'' \<in> {Inr None, Inr (Some ''cpu''), Inr (Some ''gpu'')}"
    if "get_device t = Inr d" for t d
    using that get_device_bad_type [of t _ d]
    by (auto simp: get_device_def bind_throws_Inr_iff value_or_def split: option.splits if_splits)
  ultimately show ?thesis by (auto simp: get_devices_Inr)
qed

definition sample_table :: "string option \<Rightarrow> toml_table" where
  "sample_table ty = \<lparr>get_string = (\<lambda>k. Inr (if k = ''type'' then ty else None)),
     get_bool = (\<lambda>k. Inr None), get_uint16 = (\<lambda>k. Inr None), get_uint32 = (\<lambda>k. Inr None),
     get_uint64 = (\<lambda>k. Inr None)\<rparr>"

definition sample_tree :: toml_tree where
  "sample_tree = \<lparr>contains = (\<lambda>k. k = ''device''), get_table = (\<lambda>k. throw k),
     get_item = (\<lambda>k. Inr (Table_Array [sample_table None, sample_table (Some ''gpu'')]))\<rparr>"

theorem configured_devices_witness:
  "\<exists>c. new_config sample_libs \<lparr>loopback = ''::1'', hardware_concurrency = 4\<rparr>
      (\<lambda>stream base. Inr sample_tree) (\<lambda>p. None) [] [] = Inr c \<and> length (devices c) = 2"
proof -
  let ?P = "\<lparr>loopback = ''::1'', hardware_concurrency = 4\<rparr>"
  have tree: "read_config (\<lambda>stream base. Inr sample_tree) (\<lambda>p. None) [] [] = Inr sample_tree"
    by (simp add: read_config_def)
  have "read_server sample_tree x = Inr x" "read_admin sample_tree y = Inr y"
    "read_work sample_libs sample_tree z = Inr z" for x y z
    by (simp_all add: read_server_def read_admin_def read_work_def sample_tree_def)
  moreover have "\<exists>ds. read_devices sample_tree = Inr ds"
    by (simp add: read_devices_def sample_tree_def get_device_def value_or_def sample_table_def)
  ultimately obtain c where
    c: "new_config sample_libs ?P (\<lambda>stream base. Inr sample_tree) (\<lambda>p. None) [] [] = Inr c"
    by (auto simp: new_config_def tree work_default_def base_of_string [OF sample_libs_laws])
  show ?thesis
    using configured_devices [OF c tree, of "[sample_table None, sample_table (Some ''gpu'')]"] c
    by (simp add: sample_tree_def)
qed

text \<open>
  C31. The documented device keys are not the ones read: the sample configuration offers
  \<^verbatim>\<open>device_id\<close> and \<^verbatim>\<open>platform_id\<close>, but no value of these keys changes the device that is
  configured (the reader asks for \<^verbatim>\<open>device\<close> and \<^verbatim>\<open>platform\<close>, which are not documented).
\<close>

theorem documented_device_keys_ignored:
  "map fst device_table = [''type'', ''device_id'', ''platform_id'', ''memory'', ''threads''] \<and>
   get_device (t\<lparr>get_uint64 := (get_uint64 t)(''device_id'' := r1, ''platform_id'' := r2)\<rparr>)
     = get_device t"
  by (simp add: device_table_def put_def get_device_def)

end
