(* ===== verification/Work_Handler.thy ===== *)
theory Work_Handler
  imports Devices
begin

text \<open>
  \<^verbatim>\<open>work_handler.cpp\<close>: parsing and processing of work requests, the job queue behind
  them, and the closure a pool thread runs for each accepted request. The state is the
  record \<open>handler\<close>; every critical section of the code is one function on it. Boost's
  JSON parser and its circular buffer are parameters. Logging is left out.

  A response is the sequence of \<^verbatim>\<open>put\<close>, \<^verbatim>\<open>add_child\<close> and \<^verbatim>\<open>push_back\<close> calls that build
  the property tree; the response handler receives the text \<^verbatim>\<open>write_json\<close> prints for it.
  A response handler is a number, and \<open>outbox\<close> lists the calls made.
\<close>

section \<open>Parameters\<close>

text \<open>
  \<open>get_str p k\<close> is \<^verbatim>\<open>p.get_optional<std::string> (k)\<close>; \<open>get_double\<close> and
  \<open>get_unsigned\<close> are \<open>None\<close> where \<^verbatim>\<open>p.get<T> (k, default)\<close> returns its default.
\<close>

record 'p json_lib =
  read_json :: "string \<Rightarrow> 'p throws"
  get_str :: "'p \<Rightarrow> string \<Rightarrow> string option"
  get_double :: "'p \<Rightarrow> string \<Rightarrow> double option"
  get_unsigned :: "'p \<Rightarrow> string \<Rightarrow> 32 word option"

text \<open>
  \<open>ring_push n xs x\<close> is \<^verbatim>\<open>push_back (x)\<close> on a \<^verbatim>\<open>boost::circular_buffer\<close> of capacity
  \<open>n\<close> with elements \<open>xs\<close>, oldest first.
\<close>

record 'p env =
  libs :: libs
  json :: "'p json_lib"
  ring_push :: "nat \<Rightarrow> job list \<Rightarrow> job \<Rightarrow> job list"
  conf :: config

definition ring_law :: "(nat \<Rightarrow> job list \<Rightarrow> job \<Rightarrow> job list) \<Rightarrow> bool" where
  "ring_law push \<longleftrightarrow> (\<forall>n xs x. 0 < n \<longrightarrow>
     push n xs x = (if length xs < n then xs @ [x] else tl xs @ [x]))"

abbreviation M128 :: "'p env \<Rightarrow> multiprecision" where
  "M128 e \<equiv> mp128 (libs e)"

abbreviation M256 :: "'p env \<Rightarrow> multiprecision" where
  "M256 e \<equiv> mp256 (libs e)"

section \<open>Responses and state\<close>

datatype json = J_String string | J_Int int | J_Bool bool | J_Double double
  | J_Tree "(string \<times> json) list"

type_synonym response = "(string \<times> json) list"

text \<open>A closure posted to the pool keeps the request's correlation id and response handler.\<close>

record task =
  task_id :: "string option"
  task_handler :: nat

record handler =
  h_devices :: "registered_device list"
  jobs :: job_queue
  active_jobs :: "job list"
  completed_jobs :: "job list"
  job_id_dispenser :: "32 word"
  tasks :: "task list"
  outbox :: "(nat \<times> response) list"

definition new_handler :: "config \<Rightarrow> 32 word \<Rightarrow> handler" where
  "new_handler c dispenser = \<lparr>h_devices = map register_device (devices c), jobs = [],
     active_jobs = [], completed_jobs = [], job_id_dispenser = dispenser, tasks = [], outbox = []\<rparr>"

definition respond :: "nat \<Rightarrow> response \<Rightarrow> handler \<Rightarrow> handler" where
  "respond h r s = s\<lparr>outbox := outbox s @ [(h, r)]\<rparr>"

definition attach_correlation_id :: "string option \<Rightarrow> response \<Rightarrow> response" where
  "attach_correlation_id cid r = (case cid of None \<Rightarrow> r | Some i \<Rightarrow> r @ [(''id'', J_String i)])"

definition create_error_response :: "string option \<Rightarrow> string \<Rightarrow> response" where
  "create_error_response cid error_a = attach_correlation_id cid [(''error'', J_String error_a)]"

section \<open>work_generate\<close>

text \<open>
  Lines 167 to 202: the job is constructed, which takes an id, before the request is
  checked; an exception leaves the id used.
\<close>

definition from_hex_field :: "multiprecision \<Rightarrow> nat \<Rightarrow> string option \<Rightarrow> bigint \<Rightarrow> bigint throws" where
  "from_hex_field M sz field b =
     (case field of
        None \<Rightarrow> Inr b
      | Some text \<Rightarrow>
          (case from_hex M sz text b of (b', None) \<Rightarrow> Inr b' | (_, Some e) \<Rightarrow> Inl e))"

definition request_difficulty_of :: "'p env \<Rightarrow> 'p \<Rightarrow> u128 throws" where
  "request_difficulty_of e req =
     bind_throws (from_hex_field (M128 e) u128_size (get_str (json e) req ''difficulty'')
       (base_difficulty (work (conf e)))) (\<lambda>d.
       let multiplier = (case get_double (json e) req ''multiplier'' of None \<Rightarrow> 0 | Some m \<Rightarrow> m)
       in if multiplier > 0
          then from_multiplier (M128 e) (floats (libs e)) multiplier (base_difficulty (work (conf e)))
          else Inr d)"

definition fill_job :: "'p env \<Rightarrow> 'p \<Rightarrow> job \<Rightarrow> job throws" where
  "fill_job e req j =
     (case get_str (json e) req ''hash'' of
        None \<Rightarrow> throw ''work_generate failed: missing hash value''
      | Some text \<Rightarrow>
          bind_throws (bigint_of_string (M256 e) u256_size text) (\<lambda>hash.
          bind_throws (request_difficulty_of e req) (\<lambda>d.
            let j = j\<lparr>request := (request j)\<lparr>root_hash := hash, request_difficulty := d\<rparr>\<rparr>;
                pri = (case get_unsigned (json e) req ''priority'' of None \<Rightarrow> 0 | Some p \<Rightarrow> p)
            in Inr (if allow_prioritization (server (conf e)) then set_priority pri j else j))))"

definition make_job :: "'p env \<Rightarrow> 'p \<Rightarrow> handler \<Rightarrow> job throws \<times> handler" where
  "make_job e req s =
     (case new_job (libs e) (job_id_dispenser s) of
        Inl ex \<Rightarrow> (Inl ex, s)
      | Inr (j, dispenser) \<Rightarrow> (fill_job e req j, s\<lparr>job_id_dispenser := dispenser\<rparr>))"

text \<open>Lines 204 to 214, under \<^verbatim>\<open>jobs_mutex\<close>.\<close>

definition enqueue_job :: "'p env \<Rightarrow> job \<Rightarrow> handler \<Rightarrow> unit throws \<times> handler" where
  "enqueue_job e j s =
     (if length (jobs s) < unat (request_limit (server (conf e)))
      then (Inr (), s\<lparr>jobs := push_job j (jobs s)\<rparr>)
      else (throw ''Work request limit exceeded'', s))"

text \<open>Line 218: \<^verbatim>\<open>boost::asio::post\<close>.\<close>

definition post_task :: "task \<Rightarrow> handler \<Rightarrow> handler" where
  "post_task t s = s\<lparr>tasks := tasks s @ [t]\<rparr>"

definition work_generate :: "'p env \<Rightarrow> 'p \<Rightarrow> string option \<Rightarrow> nat \<Rightarrow> handler \<Rightarrow> task option throws \<times> handler" where
  "work_generate e req cid h s =
     (if devices (conf e) = [] then (throw ''No work device has been configured'', s)
      else case make_job e req s of
             (Inl ex, s1) \<Rightarrow> (Inl ex, s1)
           | (Inr j, s1) \<Rightarrow>
               (case enqueue_job e j s1 of
                  (Inl ex, s2) \<Rightarrow> (Inl ex, s2)
                | (Inr _, s2) \<Rightarrow> (Inr (Some \<lparr>task_id = cid, task_handler = h\<rparr>), s2)))"

section \<open>work_validate and work_cancel\<close>

definition work_validate :: "'p env \<Rightarrow> 'p \<Rightarrow> string option \<Rightarrow> response throws" where
  "work_validate e req cid =
     (case get_str (json e) req ''hash'' of
        None \<Rightarrow> throw ''work_generate failed: missing hash value''
      | Some hash_hex \<Rightarrow>
          bind_throws (bigint_of_string (M256 e) u256_size hash_hex) (\<lambda>hash.
          case get_str (json e) req ''work'' of
            None \<Rightarrow> throw ''work_generate failed: missing work value''
          | Some work_hex \<Rightarrow>
              bind_throws (bigint_of_string (M128 e) u128_size work_hex) (\<lambda>wrk.
              bind_throws (request_difficulty_of e req) (\<lambda>difficulty.
                let passes = True in
                Inr (attach_correlation_id cid
                  [(''valid'', J_String (if passes then ''1'' else ''0'')),
                   (''difficulty'', J_String ''0x2000000000000000''),
                   (''multiplier'', J_String ''1.0'')])))))"

definition work_cancel :: "'p env \<Rightarrow> 'p \<Rightarrow> string option \<Rightarrow> handler \<Rightarrow> response throws \<times> handler" where
  "work_cancel e req cid s =
     (case get_str (json e) req ''hash'' of
        None \<Rightarrow> (throw ''work_cancel failed: missing hash value'', s)
      | Some hash_hex \<Rightarrow>
          (case bigint_of_string (M256 e) u256_size hash_hex of
             Inl ex \<Rightarrow> (Inl ex, s)
           | Inr hash \<Rightarrow>
               (let (jobs', removed) = remove_job (M256 e) hash (jobs s);
                    s' = s\<lparr>jobs := jobs'\<rparr>
                in if removed
                   then (Inr (attach_correlation_id cid [(''status'', J_String ''cancelled'')]), s')
                   else (throw ''Hash not found in work queue'', s'))))"

section \<open>handle_request_async\<close>

text \<open>
  The body of the \<^verbatim>\<open>try\<close> block after the request has been read. A returned task is the
  closure still to be posted.
\<close>

definition dispatch :: "'p env \<Rightarrow> 'p \<Rightarrow> string option \<Rightarrow> nat \<Rightarrow> handler \<Rightarrow> task option throws \<times> handler" where
  "dispatch e req cid h s =
     (let action = get_str (json e) req ''action'' in
      if action = Some ''work_generate'' then work_generate e req cid h s
      else if action = Some ''work_validate'' then
        (case work_validate e req cid of
           Inl ex \<Rightarrow> (Inl ex, s)
         | Inr r \<Rightarrow> (Inr None, respond h r s))
      else if action = Some ''work_cancel'' then
        (case work_cancel e req cid s of
           (Inl ex, s') \<Rightarrow> (Inl ex, s')
         | (Inr r, s') \<Rightarrow> (Inr None, respond h r s'))
      else (throw ''Invalid action field'', s))"

definition accept_request :: "'p env \<Rightarrow> string \<Rightarrow> nat \<Rightarrow> handler \<Rightarrow> task option \<times> handler" where
  "accept_request e body h s =
     (case read_json (json e) body of
        Inl ex \<Rightarrow> (None, respond h (create_error_response None (what ex)) s)
      | Inr req \<Rightarrow>
          (let cid = get_str (json e) req ''id'' in
           case dispatch e req cid h s of
             (Inl ex, s') \<Rightarrow> (None, respond h (create_error_response cid (what ex)) s')
           | (Inr t, s') \<Rightarrow> (t, s')))"

definition handle_request_async :: "'p env \<Rightarrow> string \<Rightarrow> nat \<Rightarrow> handler \<Rightarrow> handler" where
  "handle_request_async e body h s =
     (case accept_request e body h s of
        (None, s') \<Rightarrow> s'
      | (Some t, s') \<Rightarrow> post_task t s')"

section \<open>The pool closure\<close>

text \<open>
  \<^verbatim>\<open>std::set<std::reference_wrapper<job>, job::comparator>\<close>: kept in the comparator's order,
  an equivalent element is not inserted again. The set holds references to the closures' local
  jobs: \<open>set_refresh\<close> makes an assignment to such a job visible through the set.
  An element is recognised by its key, so this is the reference only while the keys of the jobs in
  work are distinct, as they are for the first \<open>2 ^ 32\<close> requests (\<open>active_set_exact\<close>);
  beyond that an insertion could be refused, and the assignment would show in the other job.
\<close>

fun set_insert :: "('a \<Rightarrow> 'a \<Rightarrow> bool) \<Rightarrow> 'a \<Rightarrow> 'a list \<Rightarrow> 'a list" where
  "set_insert lt x [] = [x]"
| "set_insert lt x (y # ys) =
     (if lt x y then x # y # ys else if lt y x then y # set_insert lt x ys else y # ys)"

definition set_erase :: "('a \<Rightarrow> 'a \<Rightarrow> bool) \<Rightarrow> 'a \<Rightarrow> 'a list \<Rightarrow> 'a list" where
  "set_erase lt x ys = filter (\<lambda>y. lt x y \<or> lt y x) ys"

definition set_refresh :: "('a \<Rightarrow> 'a \<Rightarrow> bool) \<Rightarrow> 'a \<Rightarrow> 'a list \<Rightarrow> 'a list" where
  "set_refresh lt x ys = map (\<lambda>y. if lt x y \<or> lt y x then y else x) ys"

text \<open>Lines 219 to 224 and 296 to 299: take the front job under \<^verbatim>\<open>jobs_mutex\<close>.\<close>

definition take_job :: "task \<Rightarrow> handler \<Rightarrow> job option \<times> handler" where
  "take_job t s =
     (case pop_job (jobs s) of
        (Some j, q) \<Rightarrow> (Some j, s\<lparr>jobs := q\<rparr>)
      | (None, q) \<Rightarrow>
          (None, respond (task_handler t) (create_error_response (task_id t) ''No jobs available'') s))"

text \<open>Lines 234 to 239: start the clock, enter the active set.\<close>

definition begin_work :: "int \<Rightarrow> job \<Rightarrow> handler \<Rightarrow> job \<times> handler" where
  "begin_work now j s =
     (let j = start now j in (j, s\<lparr>active_jobs := set_insert comparator j (active_jobs s)\<rparr>))"

text \<open>
  Lines 253 to 275. The double nearest to 1.3847 is \<open>3118067202009963 / 2^51\<close>; the
  simulated delay is time that passes between \<open>begin_work\<close> and this step.
\<close>

definition job_result_of :: "'p env \<Rightarrow> (job_result \<times> response) throws" where
  "job_result_of e =
     (if mock_work_generation_delay (work (conf e)) = 0 then
        bind_throws (bigint_of_string (M128 e) u128_size ''2feaeaa000000000'') (\<lambda>w.
        bind_throws (bigint_of_string (M128 e) u128_size ''2000000000000000'') (\<lambda>d.
          Inr (\<lparr>result_work = w, result_difficulty = d, result_multiplier = 1\<rparr>, [])))
      else
        bind_throws (bigint_of_string (M128 e) u128_size ''2feaeaa000000000'') (\<lambda>w.
        bind_throws (bigint_of_string (M128 e) u128_size ''0x2ffee0000000000'') (\<lambda>d.
          Inr (\<lparr>result_work = w, result_difficulty = d,
                result_multiplier = 3118067202009963 / 2 ^ 51\<rparr>,
               [(''testing'', J_Bool True)]))))"

definition work_response :: "'p env \<Rightarrow> string option \<Rightarrow> job_result \<times> response \<Rightarrow> response" where
  "work_response e cid rr =
     attach_correlation_id cid (snd rr @
       [(''work'', J_String (to_hex (M128 e) u128_size (result_work (fst rr)))),
        (''difficulty'', J_String (to_hex (M128 e) u128_size (result_difficulty (fst rr)))),
        (''multiplier'', J_Double (result_multiplier (fst rr)))])"

definition set_result :: "job_result \<Rightarrow> job \<Rightarrow> handler \<Rightarrow> job \<times> handler" where
  "set_result r j s =
     (let j = j\<lparr>result := r\<rparr> in (j, s\<lparr>active_jobs := set_refresh comparator j (active_jobs s)\<rparr>))"

text \<open>Line 281 and 282: the device is released, then the clock stopped.\<close>

definition release_device :: "nat \<Rightarrow> handler \<Rightarrow> handler" where
  "release_device i s = s\<lparr>h_devices := (h_devices s)[i := snd (release (h_devices s ! i))]\<rparr>"

definition stop_job :: "int \<Rightarrow> job \<Rightarrow> handler \<Rightarrow> job \<times> handler" where
  "stop_job now j s =
     (let j = stop now j in (j, s\<lparr>active_jobs := set_refresh comparator j (active_jobs s)\<rparr>))"

text \<open>Lines 284 to 287, under both mutexes.\<close>

definition complete_job :: "'p env \<Rightarrow> job \<Rightarrow> handler \<Rightarrow> handler" where
  "complete_job e j s = s\<lparr>active_jobs := set_erase comparator j (active_jobs s),
     completed_jobs := ring_push e 128 (completed_jobs s) j\<rparr>"

text \<open>
  The closure from beginning to end, run by one thread without interference;
  \<open>started\<close> and \<open>stopped\<close> are the two clock readings.
\<close>

definition run_task :: "'p env \<Rightarrow> int \<Rightarrow> int \<Rightarrow> task \<Rightarrow> handler \<Rightarrow> handler" where
  "run_task e started stopped t s =
     (case take_job t s of
        (None, s1) \<Rightarrow> s1
      | (Some j, s1) \<Rightarrow>
          (case aquire_first_available_device (h_devices s1) of
             (Inl ex, ds) \<Rightarrow>
               respond (task_handler t) (create_error_response (task_id t) (what ex))
                 (s1\<lparr>h_devices := ds\<rparr>)
           | (Inr i, ds) \<Rightarrow>
               (let (j, s2) = begin_work started j (s1\<lparr>h_devices := ds\<rparr>) in
                case job_result_of e of
                  Inl ex \<Rightarrow>
                    respond (task_handler t) (create_error_response (task_id t) (what ex)) s2
                | Inr rr \<Rightarrow>
                    let (j, s3) = set_result (fst rr) j s2;
                        s4 = respond (task_handler t) (work_response e (task_id t) rr) s3;
                        (j, s5) = stop_job stopped j (release_device i s4)
                    in complete_job e j s5)))"

section \<open>Queue requests\<close>

definition job_json :: "'p env \<Rightarrow> job \<Rightarrow> response" where
  "job_json e j =
     [(''id'', J_Int (uint (job_id j))),
      (''priority'', J_Int (uint (priority j))),
      (''start'', J_Int (milliseconds (start_time j))),
      (''end'', J_Int (milliseconds (end_time j))),
      (''request'', J_Tree
         [(''hash'', J_String (to_hex (M256 e) u256_size (root_hash (request j)))),
          (''difficulty'', J_String (to_hex (M128 e) u128_size (request_difficulty (request j)))),
          (''multiplier'', J_Double (request_multiplier (request j)))]),
      (''result'', J_Tree
         [(''work'', J_String (to_hex (M128 e) u128_size (result_work (result j)))),
          (''difficulty'', J_String (to_hex (M128 e) u128_size (result_difficulty (result j)))),
          (''multiplier'', J_Double (result_multiplier (result j)))])]"

definition jobs_json :: "'p env \<Rightarrow> job list \<Rightarrow> json" where
  "jobs_json e js = J_Tree (map (\<lambda>j. ('''', J_Tree (job_json e j))) js)"

text \<open>The queued jobs are listed by emptying a copy of the queue.\<close>

definition handle_queue_request :: "'p env \<Rightarrow> nat \<Rightarrow> handler \<Rightarrow> handler" where
  "handle_queue_request e h s =
     respond h [(''queued'', jobs_json e (pq_drain comparator (jobs s))),
                (''active'', jobs_json e (active_jobs s)),
                (''completed'', jobs_json e (completed_jobs s))] s"

definition handle_queue_delete_request :: "'p env \<Rightarrow> nat \<Rightarrow> handler \<Rightarrow> handler" where
  "handle_queue_delete_request e h s =
     (if allow_control (server (conf e))
      then respond h [(''success'', J_Bool True)] (s\<lparr>jobs := pq_empty\<rparr>)
      else respond h [(''error'', J_String
        ''Control requests are not allowed. This must be enabled in the server configuration.'')] s)"

lemmas handler_ops [handler_simps] =
  respond_def post_task_def enqueue_job_def make_job_def work_generate_def work_cancel_def
  dispatch_def accept_request_def handle_request_async_def take_job_def begin_work_def
  set_result_def release_device_def stop_job_def complete_job_def
  handle_queue_request_def handle_queue_delete_request_def


section \<open>Lemmas\<close>

text \<open>What each request leaves alone.\<close>

lemma respond_sels [simp]:
  "h_devices (respond h r s) = h_devices s" "jobs (respond h r s) = jobs s"
  "active_jobs (respond h r s) = active_jobs s" "completed_jobs (respond h r s) = completed_jobs s"
  "job_id_dispenser (respond h r s) = job_id_dispenser s" "tasks (respond h r s) = tasks s"
  "outbox (respond h r s) = outbox s @ [(h, r)]"
  by (simp_all add: respond_def)

lemma post_task_sels [simp]:
  "h_devices (post_task t s) = h_devices s" "jobs (post_task t s) = jobs s"
  "active_jobs (post_task t s) = active_jobs s" "completed_jobs (post_task t s) = completed_jobs s"
  "job_id_dispenser (post_task t s) = job_id_dispenser s" "tasks (post_task t s) = tasks s @ [t]"
  "outbox (post_task t s) = outbox s"
  by (simp_all add: post_task_def)

definition same_pool :: "handler \<Rightarrow> handler \<Rightarrow> bool" where
  "same_pool s s' \<longleftrightarrow> h_devices s' = h_devices s \<and> active_jobs s' = active_jobs s \<and>
     completed_jobs s' = completed_jobs s \<and> tasks s' = tasks s"

lemma same_pool_refl [simp]: "same_pool s s"
  by (simp add: same_pool_def)

lemma same_pool_respond [simp]: "same_pool s (respond h r s') \<longleftrightarrow> same_pool s s'"
  by (simp add: same_pool_def)

lemma make_job_frame:
  "make_job e req s = (r, s') \<Longrightarrow> same_pool s s' \<and> jobs s' = jobs s \<and> outbox s' = outbox s"
  by (auto simp: make_job_def same_pool_def split: sum.splits prod.splits)

lemma work_generate_cases:
  assumes "work_generate e req cid h s = (r, s')"
  obtains (Rejected) ex where "r = Inl ex" "same_pool s s'" "jobs s' = jobs s" "outbox s' = outbox s"
  | (Queued) j where "r = Inr (Some \<lparr>task_id = cid, task_handler = h\<rparr>)" "same_pool s s'"
      "jobs s' = push_job j (jobs s)" "outbox s' = outbox s"
      "length (jobs s) < unat (request_limit (server (conf e)))"
      "fst (make_job e req s) = Inr j" "devices (conf e) \<noteq> []"
proof -
  obtain r1 s1 where m: "make_job e req s = (r1, s1)" by fastforce
  note f = make_job_frame [OF m]
  show thesis
    using assms f that
    by (auto simp: work_generate_def m enqueue_job_def same_pool_def split: sum.splits if_splits)
qed

lemma work_generate_dispenser:
  "work_generate e req cid h s = (r, s') \<Longrightarrow>
     job_id_dispenser s' = job_id_dispenser s + 1 \<or> job_id_dispenser s' = job_id_dispenser s \<and> (\<exists>ex. r = Inl ex)"
  by (auto simp: work_generate_def make_job_def enqueue_job_def new_job_def bind_throws_Inr_iff
      split: if_splits sum.splits prod.splits)

lemma work_cancel_cases:
  assumes "work_cancel e req cid s = (r, s')"
  obtains (Refused) ex where "r = Inl ex" "s' = s"
  | (Searched) hash hex where "same_pool s s'" "outbox s' = outbox s"
      "get_str (json e) req ''hash'' = Some hex"
      "bigint_of_string (M256 e) u256_size hex = Inr hash"
      "job_id_dispenser s' = job_id_dispenser s"
      "jobs s' = fst (remove_job (M256 e) hash (jobs s))"
      "(\<exists>x. r = Inr x) \<longleftrightarrow> snd (remove_job (M256 e) hash (jobs s))"
proof (cases "bind_throws (case get_str (json e) req ''hash'' of
      None \<Rightarrow> throw ''work_cancel failed: missing hash value'' | Some x \<Rightarrow> Inr x)
    (bigint_of_string (M256 e) u256_size)")
  case (Inl ex)
  then show thesis
    using assms Refused by (auto simp: work_cancel_def split: option.splits sum.splits)
next
  case (Inr hash)
  obtain q rm where "remove_job (M256 e) hash (jobs s) = (q, rm)" by fastforce
  then show thesis
    using assms Inr Searched
    by (cases rm) (auto simp: work_cancel_def same_pool_def Let_def split: option.splits sum.splits)
qed

text \<open>The outcomes of a request: an answer, with the queue unchanged or searched, or a queued job.\<close>

definition answered :: "nat \<Rightarrow> handler \<Rightarrow> handler \<Rightarrow> bool" where
  "answered h s s' \<longleftrightarrow> same_pool s s' \<and> (\<exists>r. outbox s' = outbox s @ [(h, r)]) \<and>
     (jobs s' = jobs s \<or> (\<exists>M hash. jobs s' = fst (remove_job M hash (jobs s))))"

lemma answered_respond:
  "same_pool s s1 \<Longrightarrow> outbox s1 = outbox s \<Longrightarrow> jobs s1 = jobs s \<Longrightarrow> answered h s (respond h r s1)"
  "same_pool s s1 \<Longrightarrow> outbox s1 = outbox s \<Longrightarrow> jobs s1 = fst (remove_job M hash (jobs s)) \<Longrightarrow>
     answered h s (respond h r s1)"
  by (auto simp: answered_def)

definition queued :: "'p env \<Rightarrow> nat \<Rightarrow> task \<Rightarrow> handler \<Rightarrow> handler \<Rightarrow> bool" where
  "queued e h t s s' \<longleftrightarrow> same_pool s s' \<and> outbox s' = outbox s \<and> task_handler t = h \<and>
     length (jobs s) < unat (request_limit (server (conf e))) \<and>
     (\<exists>j. jobs s' = push_job j (jobs s))"

lemma dispatch_cases:
  assumes "dispatch e req cid h s = (r, s')"
  shows "(\<exists>ex. r = Inl ex \<and> answered h s (respond h x s')) \<or>
    (r = Inr None \<and> answered h s s') \<or> (\<exists>t. r = Inr (Some t) \<and> queued e h t s s')"
proof -
  consider "get_str (json e) req ''action'' = Some ''work_generate''"
    | "get_str (json e) req ''action'' = Some ''work_validate''"
    | "get_str (json e) req ''action'' = Some ''work_cancel''"
    | "get_str (json e) req ''action'' \<notin>
        {Some ''work_generate'', Some ''work_validate'', Some ''work_cancel''}"
    by blast
  then show ?thesis
  proof cases
    case 1
    then have "work_generate e req cid h s = (r, s')" using assms by (simp add: dispatch_def)
    then show ?thesis
      by (cases rule: work_generate_cases) (auto simp: answered_def queued_def)
  next
    case 2
    then show ?thesis
      using assms by (auto simp: dispatch_def answered_def split: sum.splits)
  next
    case 3
    obtain r1 s1 where c: "work_cancel e req cid s = (r1, s1)" by fastforce
    show ?thesis
      using c 3 assms
      by (cases rule: work_cancel_cases)
        (auto simp: dispatch_def c answered_respond split: sum.splits)
  next
    case 4
    then show ?thesis using assms by (auto simp: dispatch_def answered_def)
  qed
qed

lemma accept_request_cases:
  assumes "accept_request e body h s = (t, s')"
  shows "(t = None \<and> answered h s s') \<or> (\<exists>tk. t = Some tk \<and> queued e h tk s s')"
proof (cases "read_json (json e) body")
  case (Inl ex)
  then show ?thesis using assms by (auto simp: accept_request_def answered_def)
next
  case (Inr req)
  obtain r s1 where d: "dispatch e req (get_str (json e) req ''id'') h s = (r, s1)" by fastforce
  then show ?thesis
    using dispatch_cases [OF d, of "create_error_response (get_str (json e) req ''id'') (what (projl r))"]
      assms Inr
    by (auto simp: accept_request_def split: sum.splits)
qed

lemma answered_sub: "heap comparator (jobs s) \<Longrightarrow> answered h s s' \<Longrightarrow>
   heap comparator (jobs s') \<and> mset (jobs s') \<subseteq># mset (jobs s)"
  by (auto simp: answered_def heap_remove_job mset_remove_job multiset_filter_subset)

lemma answered_length: "heap comparator (jobs s) \<Longrightarrow> answered h s s' \<Longrightarrow> length (jobs s') \<le> length (jobs s)"
  using answered_sub [of s h s'] by (metis size_mset size_mset_mono)

subsection \<open>The active set\<close>

lemma comparator_ne: "comparator a b \<or> comparator b a \<longleftrightarrow> key a \<noteq> key b"
  by (simp only: comparator_key neq_iff)

lemma erase_fresh: "key x \<notin> key ` set ys \<Longrightarrow> set_erase comparator x ys = ys"
  by (auto simp: set_erase_def comparator_ne filter_id_conv simp del: key_eq_iff)

lemma erase_insert:
  "key x = key x' \<Longrightarrow> key x \<notin> key ` set ys \<Longrightarrow>
     set_erase comparator x' (set_insert comparator x ys) = ys"
proof (induction ys)
  case (Cons y ys)
  then have "set_erase comparator x' (y # ys) = y # ys"
    by (intro erase_fresh) (simp del: key_eq_iff)
  with Cons show ?case
    by (auto simp: set_erase_def comparator_key simp del: key_eq_iff)
qed (simp add: set_erase_def comparator_ne del: key_eq_iff)

lemma refresh_fresh: "key x \<notin> key ` set ys \<Longrightarrow> set_refresh comparator x ys = ys"
  unfolding set_refresh_def comparator_ne by (rule map_idI) (auto simp del: key_eq_iff)

lemma refresh_insert:
  "key x' = key x \<Longrightarrow> key x \<notin> key ` set ys \<Longrightarrow>
     set_refresh comparator x' (set_insert comparator x ys) = set_insert comparator x' ys"
proof (induction ys)
  case (Cons y ys)
  then have "set_refresh comparator x' (y # ys) = y # ys"
    by (intro refresh_fresh) (simp del: key_eq_iff)
  with Cons show ?case
    by (auto simp: set_refresh_def comparator_key simp del: key_eq_iff)
qed (simp add: set_refresh_def comparator_ne del: key_eq_iff)

subsection \<open>The result of a job\<close>

lemma string_number:
  assumes "multiprecision_laws sz M" "0 < sz" "list_all is_hex s" "s \<noteq> []" "length s + 2 \<le> sz * 2"
  shows "bigint_of_string M sz s = Inr (bigint_set M sz (hex_value s))"
    and "bigint_of_string M sz (''0x'' @ s) = Inr (bigint_set M sz (hex_value s))"
  using assms by (auto simp: bigint_of_string_def from_hex_def extract_law_def)

lemma bigint_number_set [simp]:
  "libs_laws (libs e) \<Longrightarrow> n < 2 ^ 128 \<Longrightarrow>
     bigint_number (M128 e) (bigint_set (M128 e) u128_size n) = n"
  by (intro number_set) (simp_all add: libs_laws_def)

abbreviation mock :: "'p env \<Rightarrow> bool" where
  "mock e \<equiv> mock_work_generation_delay (work (conf e)) \<noteq> 0"

lemma job_result_of_eq:
  assumes "libs_laws (libs e)"
  shows "job_result_of e = Inr
    (\<lparr>result_work = bigint_set (M128 e) u128_size 0x2FEAEAA000000000,
      result_difficulty = bigint_set (M128 e) u128_size
        (if mock e then 0x2FFEE0000000000 else 0x2000000000000000),
      result_multiplier = (if mock e then 3118067202009963 / 2 ^ 51 else 1)\<rparr>,
     if mock e then [(''testing'', J_Bool True)] else [])"
proof -
  have M: "multiprecision_laws u128_size (M128 e)" using assms by (simp add: libs_laws_def)
  have hex: "list_all is_hex ''2feaeaa000000000''" "list_all is_hex ''2000000000000000''"
    "list_all is_hex ''2ffee0000000000''"
    by (simp_all add: is_hex_def hex_char_value_def)
  have val: "hex_value ''2feaeaa000000000'' = 0x2FEAEAA000000000"
    "hex_value ''2000000000000000'' = 0x2000000000000000"
    "hex_value ''2ffee0000000000'' = 0x2FFEE0000000000"
    by (simp_all add: hex_value_def hex_char_value_def horner_def)
  show ?thesis
    using string_number(1) [OF M _ hex(1)] string_number(1) [OF M _ hex(2)]
      string_number(2) [OF M _ hex(3)]
    by (auto simp: job_result_of_def val)
qed

lemma job_result_of_ok:
  assumes "libs_laws (libs e)"
  obtains rr where "job_result_of e = Inr rr"
  using job_result_of_eq [OF assms] by blast

section \<open>A sample environment for witnesses\<close>

text \<open>A request is a table of fields; the text of a request is the name of one.\<close>

definition sample_bodies :: "string \<Rightarrow> (string \<times> string) list option" where
  "sample_bodies body =
     (if body = ''low'' then Some [(''action'', ''work_generate''), (''hash'', ''1''), (''id'', ''A'')]
      else if body = ''high'' then
        Some [(''action'', ''work_generate''), (''hash'', ''2''), (''priority'', ''9''), (''id'', ''B'')]
      else if body = ''boost'' then
        Some [(''action'', ''work_generate''), (''hash'', ''2''), (''difficulty'', ''1''),
          (''multiplier'', ''3'')]
      else if body = ''nohash'' then Some [(''action'', ''work_generate''), (''id'', ''C'')]
      else if body = ''odd'' then Some [(''action'', ''dance''), (''id'', ''D'')]
      else None)"

definition sample_json :: "(string \<times> string) list json_lib" where
  "sample_json = \<lparr>
     read_json = (\<lambda>body. case sample_bodies body of None \<Rightarrow> throw ''expected value'' | Some r \<Rightarrow> Inr r),
     get_str = map_of,
     get_double = (\<lambda>r k. if map_of r k = Some ''3'' then Some 3 else None),
     get_unsigned = (\<lambda>r k. if map_of r k = Some ''9'' then Some 9 else None)\<rparr>"

definition sample_ring :: "nat \<Rightarrow> job list \<Rightarrow> job \<Rightarrow> job list" where
  "sample_ring n xs x = (if length xs < n then xs @ [x] else tl xs @ [x])"

definition sample_config :: config where
  "sample_config = \<lparr>
     server = \<lparr>bind_address = ''::1'', port = 8076, server_threads = 4, request_limit = 2,
       allow_prioritization = True, allow_control = True, log_to_stderr = False\<rparr>,
     devices = [device_default], work = \<lparr>base_difficulty = base_sample, mock_work_generation_delay = 0\<rparr>,
     admin = admin_default\<rparr>"

definition sample_env :: "(string \<times> string) list env" where
  "sample_env = \<lparr>libs = sample_libs, json = sample_json, ring_push = sample_ring, conf = sample_config\<rparr>"

lemma sample_env_sels [simp]:
  "libs sample_env = sample_libs" "json sample_env = sample_json" "ring_push sample_env = sample_ring"
  "conf sample_env = sample_config"
  by (simp_all add: sample_env_def)

lemma sample_json_sels [simp]:
  "get_str sample_json r k = map_of r k"
  "get_double sample_json r k = (if map_of r k = Some ''3'' then Some 3 else None)"
  "get_unsigned sample_json r k = (if map_of r k = Some ''9'' then Some 9 else None)"
  by (simp_all add: sample_json_def)

lemma sample_config_sels [simp]:
  "devices sample_config = [device_default]" "base_difficulty (work sample_config) = base_sample"
  "request_limit (server sample_config) = 2" "allow_prioritization (server sample_config)"
  "mock_work_generation_delay (work sample_config) = 0" "allow_control (server sample_config)"
  by (simp_all add: sample_config_def)

lemma sample_ring_law: "ring_law sample_ring"
  by (simp add: ring_law_def sample_ring_def)

lemma task_eq: "\<exists>cid. tk = \<lparr>task_id = cid, task_handler = task_handler tk\<rparr>"
  by (intro exI [of _ "task_id tk"]) simp

text \<open>
  The request is answered with \<open>r\<close> and nothing else of the handler changes, but that a
  failed \<^verbatim>\<open>work_generate\<close> may have used up a job id.
\<close>

definition answers :: "'p env \<Rightarrow> string \<Rightarrow> nat \<Rightarrow> handler \<Rightarrow> response \<Rightarrow> bool" where
  "answers e body h s r \<longleftrightarrow>
     (\<exists>d. handle_request_async e body h s = s\<lparr>job_id_dispenser := d, outbox := outbox s @ [(h, r)]\<rparr>)"

definition error_reply :: "string option \<Rightarrow> string \<Rightarrow> response" where
  "error_reply cid msg = (''error'', J_String msg) #
     (case cid of None \<Rightarrow> [] | Some i \<Rightarrow> [(''id'', J_String i)])"

lemma create_error_response_eq: "create_error_response cid msg = error_reply cid msg"
  by (simp add: create_error_response_def attach_correlation_id_def error_reply_def split: option.split)

lemma answers_dispatch:
  assumes "read_json (json e) body = Inr req"
    and "dispatch e req (get_str (json e) req ''id'') h s = (Inl ex, s\<lparr>job_id_dispenser := d\<rparr>)"
  shows "answers e body h s (error_reply (get_str (json e) req ''id'') (what ex))"
  using assms
  by (auto simp: answers_def handle_request_async_def accept_request_def respond_def
      create_error_response_eq intro: exI [of _ d])

lemma answers_unchanged:
  assumes "read_json (json e) body = Inr req"
    and "dispatch e req (get_str (json e) req ''id'') h s = (Inl ex, s)"
  shows "answers e body h s (error_reply (get_str (json e) req ''id'') (what ex))"
  using answers_dispatch [OF assms(1), of h s ex "job_id_dispenser s"] assms(2) by simp

lemma generate_errors:
  assumes "libs_laws (libs e)" "devices (conf e) \<noteq> []"
    and "get_str (json e) req ''action'' = Some ''work_generate''"
  shows "get_str (json e) req ''hash'' = None \<Longrightarrow> dispatch e req cid h s =
      (throw ''work_generate failed: missing hash value'', s\<lparr>job_id_dispenser := job_id_dispenser s + 1\<rparr>)"
    and "get_str (json e) req ''hash'' = Some hex \<Longrightarrow>
      bigint_of_string (M256 e) u256_size hex = Inl ex \<Longrightarrow>
      dispatch e req cid h s = (Inl ex, s\<lparr>job_id_dispenser := job_id_dispenser s + 1\<rparr>)"
    and "get_str (json e) req ''hash'' = Some hex \<Longrightarrow>
      bigint_of_string (M256 e) u256_size hex = Inr n \<Longrightarrow> request_difficulty_of e req = Inl ex \<Longrightarrow>
      dispatch e req cid h s = (Inl ex, s\<lparr>job_id_dispenser := job_id_dispenser s + 1\<rparr>)"
    and "get_str (json e) req ''hash'' = Some hex \<Longrightarrow>
      bigint_of_string (M256 e) u256_size hex = Inr n \<Longrightarrow> request_difficulty_of e req = Inr d \<Longrightarrow>
      unat (request_limit (server (conf e))) \<le> length (jobs s) \<Longrightarrow> dispatch e req cid h s =
      (throw ''Work request limit exceeded'', s\<lparr>job_id_dispenser := job_id_dispenser s + 1\<rparr>)"
proof -
  obtain j0 where "new_job (libs e) (job_id_dispenser s) = Inr (j0, job_id_dispenser s + 1)"
    using new_job_ok [OF assms(1)] by blast
  note unfold = dispatch_def work_generate_def make_job_def this fill_job_def enqueue_job_def
    assms(2,3) Let_def
  show "get_str (json e) req ''hash'' = None \<Longrightarrow> dispatch e req cid h s =
      (throw ''work_generate failed: missing hash value'', s\<lparr>job_id_dispenser := job_id_dispenser s + 1\<rparr>)"
    and "get_str (json e) req ''hash'' = Some hex \<Longrightarrow>
      bigint_of_string (M256 e) u256_size hex = Inl ex \<Longrightarrow>
      dispatch e req cid h s = (Inl ex, s\<lparr>job_id_dispenser := job_id_dispenser s + 1\<rparr>)"
    and "get_str (json e) req ''hash'' = Some hex \<Longrightarrow>
      bigint_of_string (M256 e) u256_size hex = Inr n \<Longrightarrow> request_difficulty_of e req = Inl ex \<Longrightarrow>
      dispatch e req cid h s = (Inl ex, s\<lparr>job_id_dispenser := job_id_dispenser s + 1\<rparr>)"
    and "get_str (json e) req ''hash'' = Some hex \<Longrightarrow>
      bigint_of_string (M256 e) u256_size hex = Inr n \<Longrightarrow> request_difficulty_of e req = Inr d \<Longrightarrow>
      unat (request_limit (server (conf e))) \<le> length (jobs s) \<Longrightarrow> dispatch e req cid h s =
      (throw ''Work request limit exceeded'', s\<lparr>job_id_dispenser := job_id_dispenser s + 1\<rparr>)"
    by (simp_all add: unfold)
qed

section \<open>Properties\<close>

text \<open>
  C8. Every request is either answered at once or queued, never both and never neither. If
  answered, its own handler gets one response, nothing is posted, and the queue is as it was,
  or, for a cancellation only, what \<^verbatim>\<open>remove_job\<close> leaves of it. If queued, it is a
  \<^verbatim>\<open>work_generate\<close> that found the queue below its limit: one job is pushed, one closure
  with the request's handler and id is posted, and no response is given. Devices, active and
  completed jobs are not touched, and a job id is used up by \<^verbatim>\<open>work_generate\<close> only.
\<close>

theorem request_answered_or_queued:
  "let s' = handle_request_async e body h s;
       d = job_id_dispenser s;
       action = (\<lambda>req. get_str (json e) req ''action'')
   in h_devices s' = h_devices s \<and> active_jobs s' = active_jobs s \<and>
     completed_jobs s' = completed_jobs s \<and>
     ((\<exists>r. outbox s' = outbox s @ [(h, r)] \<and> tasks s' = tasks s \<and>
        (jobs s' = jobs s \<and> job_id_dispenser s' = d \<or>
         (\<exists>req. read_json (json e) body = Inr req \<and> action req = Some ''work_generate'' \<and>
            jobs s' = jobs s \<and> job_id_dispenser s' = d + 1) \<or>
         (\<exists>req text hash. read_json (json e) body = Inr req \<and> action req = Some ''work_cancel'' \<and>
            get_str (json e) req ''hash'' = Some text \<and>
            bigint_of_string (M256 e) u256_size text = Inr hash \<and>
            jobs s' = fst (remove_job (M256 e) hash (jobs s)) \<and> job_id_dispenser s' = d))) \<or>
      (\<exists>req j. read_json (json e) body = Inr req \<and> action req = Some ''work_generate'' \<and>
         length (jobs s) < unat (request_limit (server (conf e))) \<and>
         outbox s' = outbox s \<and> jobs s' = push_job j (jobs s) \<and> job_id_dispenser s' = d + 1 \<and>
         tasks s' = tasks s @ [\<lparr>task_id = get_str (json e) req ''id'', task_handler = h\<rparr>]))"
proof (cases "read_json (json e) body")
  case (Inl ex)
  then show ?thesis by (simp add: handle_request_async_def accept_request_def)
next
  case (Inr req)
  let ?cid = "get_str (json e) req ''id''"
  note run = handle_request_async_def accept_request_def dispatch_def Inr
  consider (generate) "get_str (json e) req ''action'' = Some ''work_generate''"
    | (cancel) "get_str (json e) req ''action'' = Some ''work_cancel''"
    | (other) "get_str (json e) req ''action'' \<noteq> Some ''work_generate''"
        "get_str (json e) req ''action'' \<noteq> Some ''work_cancel''"
    by blast
  then show ?thesis
  proof cases
    case generate
    obtain r s1 where g: "work_generate e req ?cid h s = (r, s1)" by fastforce
    note d = work_generate_dispenser [OF g]
    from g show ?thesis
      by (cases rule: work_generate_cases)
        (use d in \<open>auto simp: run generate g same_pool_def Let_def\<close>)
  next
    case cancel
    obtain r s1 where c: "work_cancel e req ?cid s = (r, s1)" by fastforce
    from c show ?thesis
      by (cases rule: work_cancel_cases)
        (auto simp: run cancel c same_pool_def Let_def split: sum.splits)
  next
    case other
    then show ?thesis by (auto simp: run Let_def split: sum.splits)
  qed
qed

lemma cancel_not_found:
  assumes "read_json (json e) body = Inr req"
    and "get_str (json e) req ''action'' = Some ''work_cancel''" "get_str (json e) req ''hash'' = Some hex"
    and "bigint_of_string (M256 e) u256_size hex = Inr n"
    and "heap comparator (jobs s)" "\<forall>j \<in> set (jobs s). \<not> has_root (M256 e) n j"
  shows "\<exists>q. mset q = mset (jobs s) \<and> handle_request_async e body h s = s\<lparr>jobs := q,
    outbox := outbox s @
      [(h, error_reply (get_str (json e) req ''id'') ''Hash not found in work queue'')]\<rparr>"
proof -
  obtain q where q: "remove_job (M256 e) n (jobs s) = (q, False)"
    using removed_iff [OF assms(5), of "M256 e" n] assms(6) by (metis prod.collapse)
  have "{#j \<in># mset (jobs s). \<not> has_root (M256 e) n j#} = mset (jobs s)"
    using assms(6) by (simp add: filter_mset_eq_conv)
  then have "mset q = mset (jobs s)"
    using mset_remove_job [OF assms(5), of "M256 e" n] by (simp add: q)
  then show ?thesis
    by (auto simp: handle_request_async_def accept_request_def assms(1-4) dispatch_def
        work_cancel_def q respond_def create_error_response_eq intro: exI [of _ q])
qed

text \<open>
  C19. The error paths of a request: malformed JSON, an action that is none of the three, and for
  each action every missing or malformed field, a server without devices, a full queue and a
  hash that is not queued. Each is answered with the error text of the code and the correlation
  id of the request, if it could be read, and changes nothing but a job id that is used up;
  a cancellation that finds nothing leaves the jobs of the queue.
\<close>

theorem request_errors:
  fixes e :: "'p env"
  assumes "libs_laws (libs e)"
  shows "(\<forall>ex. read_json (json e) body = Inl ex \<longrightarrow>
      answers e body h s [(''error'', J_String (what ex))]) \<and>
    (\<forall>req. read_json (json e) body = Inr req \<longrightarrow>
      (let field = get_str (json e) req;
           fails = (\<lambda>msg. answers e body h s (error_reply (field ''id'') msg));
           hash = bigint_of_string (M256 e) u256_size
       in
        (field ''action'' \<notin> {Some ''work_generate'', Some ''work_validate'', Some ''work_cancel''} \<longrightarrow>
          fails ''Invalid action field'') \<and>
        (field ''action'' = Some ''work_generate'' \<longrightarrow>
          (devices (conf e) = [] \<longrightarrow> fails ''No work device has been configured'') \<and>
          (devices (conf e) \<noteq> [] \<longrightarrow>
            (field ''hash'' = None \<longrightarrow> fails ''work_generate failed: missing hash value'') \<and>
            (\<forall>hex ex. field ''hash'' = Some hex \<longrightarrow> hash hex = Inl ex \<longrightarrow> fails (what ex)) \<and>
            (\<forall>hex n ex. field ''hash'' = Some hex \<longrightarrow> hash hex = Inr n \<longrightarrow>
              request_difficulty_of e req = Inl ex \<longrightarrow> fails (what ex)) \<and>
            (\<forall>hex n d. field ''hash'' = Some hex \<longrightarrow> hash hex = Inr n \<longrightarrow>
              request_difficulty_of e req = Inr d \<longrightarrow>
              unat (request_limit (server (conf e))) \<le> length (jobs s) \<longrightarrow>
              fails ''Work request limit exceeded''))) \<and>
        (field ''action'' = Some ''work_validate'' \<longrightarrow>
          (field ''hash'' = None \<longrightarrow> fails ''work_generate failed: missing hash value'') \<and>
          (\<forall>hex ex. field ''hash'' = Some hex \<longrightarrow> hash hex = Inl ex \<longrightarrow> fails (what ex)) \<and>
          (\<forall>hex n. field ''hash'' = Some hex \<longrightarrow> hash hex = Inr n \<longrightarrow>
            (field ''work'' = None \<longrightarrow> fails ''work_generate failed: missing work value'') \<and>
            (\<forall>wrk ex. field ''work'' = Some wrk \<longrightarrow>
              bigint_of_string (M128 e) u128_size wrk = Inl ex \<longrightarrow> fails (what ex)) \<and>
            (\<forall>wrk w ex. field ''work'' = Some wrk \<longrightarrow>
              bigint_of_string (M128 e) u128_size wrk = Inr w \<longrightarrow>
              request_difficulty_of e req = Inl ex \<longrightarrow> fails (what ex)))) \<and>
        (field ''action'' = Some ''work_cancel'' \<longrightarrow>
          (field ''hash'' = None \<longrightarrow> fails ''work_cancel failed: missing hash value'') \<and>
          (\<forall>hex ex. field ''hash'' = Some hex \<longrightarrow> hash hex = Inl ex \<longrightarrow> fails (what ex)) \<and>
          (\<forall>hex n. field ''hash'' = Some hex \<longrightarrow> hash hex = Inr n \<longrightarrow> heap comparator (jobs s) \<longrightarrow>
            (\<forall>j \<in> set (jobs s). \<not> has_root (M256 e) n j) \<longrightarrow>
            (\<exists>q. mset q = mset (jobs s) \<and> handle_request_async e body h s = s\<lparr>jobs := q,
               outbox := outbox s @
                 [(h, error_reply (field ''id'') ''Hash not found in work queue'')]\<rparr>)))))"
proof (intro conjI allI impI, goal_cases)
  case (1 ex)
  then show ?case
    by (auto simp: answers_def handle_request_async_def accept_request_def respond_def
        create_error_response_eq error_reply_def intro: exI [of _ "job_id_dispenser s"])
next
  case (2 req)
  note same = answers_unchanged [OF 2, of h s] answers_unchanged [OF 2, of h s "Runtime_error m" for m, simplified]
  note used = answers_dispatch [OF 2, of h s _ "job_id_dispenser s + 1"]
    answers_dispatch [OF 2, of h s "Runtime_error m" "job_id_dispenser s + 1" for m, simplified]
  note cases = dispatch_def work_generate_def work_validate_def work_cancel_def
  show ?case
    unfolding Let_def
    by (intro conjI allI impI;
      (rule same, simp add: cases; fail | rule used, simp add: generate_errors [OF assms]; fail
        | rule cancel_not_found [OF 2], assumption+))
qed

lemma sample_requests:
  "read_json sample_json ''boost'' = Inr [(''action'', ''work_generate''), (''hash'', ''2''),
     (''difficulty'', ''1''), (''multiplier'', ''3'')]"
  "read_json sample_json ''{'' = throw ''expected value''"
  "read_json sample_json ''odd'' = Inr [(''action'', ''dance''), (''id'', ''D'')]"
  "read_json sample_json ''nohash'' = Inr [(''action'', ''work_generate''), (''id'', ''C'')]"
  "read_json sample_json ''low''
     = Inr [(''action'', ''work_generate''), (''hash'', ''1''), (''id'', ''A'')]"
  "read_json sample_json ''high''
     = Inr [(''action'', ''work_generate''), (''hash'', ''2''), (''priority'', ''9''), (''id'', ''B'')]"
  by (simp_all add: sample_json_def sample_bodies_def)

theorem request_errors_witness:
  "answers sample_env ''nohash'' 1 (new_handler sample_config 1)
     [(''error'', J_String ''work_generate failed: missing hash value''), (''id'', J_String ''C'')] \<and>
   answers sample_env ''odd'' 1 (new_handler sample_config 1)
     [(''error'', J_String ''Invalid action field''), (''id'', J_String ''D'')] \<and>
   answers sample_env ''{'' 1 (new_handler sample_config 1) [(''error'', J_String ''expected value'')]"
proof -
  note errors = request_errors [where e = sample_env and s = "new_handler sample_config 1" and h = 1]
  show ?thesis
    using errors [of "''nohash''"] errors [of "''odd''"] errors [of "''{''"] sample_libs_laws
    by (simp add: sample_requests error_reply_def)
qed

lemma fill_job_spec:
  "fill_job e req j0 = Inr j \<longleftrightarrow>
     (\<exists>text hash d. get_str (json e) req ''hash'' = Some text \<and>
        bigint_of_string (M256 e) u256_size text = Inr hash \<and> request_difficulty_of e req = Inr d \<and>
        j = j0\<lparr>request := (request j0)\<lparr>root_hash := hash, request_difficulty := d\<rparr>,
              priority := (if allow_prioritization (server (conf e))
                then (case get_unsigned (json e) req ''priority'' of None \<Rightarrow> 0 | Some p \<Rightarrow> p)
                else priority j0)\<rparr>)"
  by (auto simp: fill_job_def bind_throws_Inr_iff set_priority_def Let_def split: option.splits)

subsection \<open>The difficulty of a request\<close>

lemma bigint_of_string_value:
  assumes "multiprecision_laws sz M" "0 < sz" "bigint_of_string M sz hex = Inr b" "list_all is_hex hex"
  shows "bigint_number M b = hex_value hex"
proof -
  have "hex \<noteq> []" "length hex \<le> sz * 2"
    using assms(3) by (auto simp: bigint_of_string_def from_hex_def split: if_splits)
  with assms show ?thesis
    by (auto simp: bigint_of_string_def from_hex_digits number_set hex_value_fits)
qed

lemma from_hex_field_cases:
  "from_hex_field M sz field b = Inr d \<longleftrightarrow>
     (case field of None \<Rightarrow> d = b | Some hex \<Rightarrow> bigint_of_string M sz hex = Inr d)"
  by (auto simp: from_hex_field_def bigint_of_string_def from_hex_def
      split: option.splits sum.splits prod.splits if_splits)

lemma request_difficulty_cases:
  assumes "libs_laws (libs e)" "request_difficulty_of e req = Inr d"
  shows "get_double (json e) req ''multiplier'' = Some m \<Longrightarrow> has_bits 53 m \<Longrightarrow> 0 < m \<Longrightarrow>
      bigint_wf u128_size (base_difficulty (work (conf e))) \<Longrightarrow>
      of_nat (bigint_number (M128 e) (base_difficulty (work (conf e)))) * m < 2 ^ 128 \<Longrightarrow>
      bigint_number (M128 e) d
        = nat \<lfloor>of_nat (bigint_number (M128 e) (base_difficulty (work (conf e)))) * m\<rfloor>"
    and "\<forall>m. get_double (json e) req ''multiplier'' = Some m \<longrightarrow> m \<le> 0 \<Longrightarrow>
      get_str (json e) req ''difficulty'' = None \<Longrightarrow> d = base_difficulty (work (conf e))"
    and "\<forall>m. get_double (json e) req ''multiplier'' = Some m \<longrightarrow> m \<le> 0 \<Longrightarrow>
      get_str (json e) req ''difficulty'' = Some hex \<Longrightarrow> bigint_of_string (M128 e) u128_size hex = Inr d"
    and "get_str (json e) req ''difficulty'' = Some hex \<Longrightarrow>
      \<exists>d0. bigint_of_string (M128 e) u128_size hex = Inr d0"
proof -
  let ?b = "base_difficulty (work (conf e))"
  have F: "bigfloat_laws (floats (libs e))" "bits_law (M128 e)"
    using assms(1) by (simp_all add: libs_laws_def)
  note cases = assms(2) [unfolded request_difficulty_of_def bind_throws_Inr_iff from_hex_field_cases Let_def]
  show "\<forall>m. get_double (json e) req ''multiplier'' = Some m \<longrightarrow> m \<le> 0 \<Longrightarrow>
      get_str (json e) req ''difficulty'' = None \<Longrightarrow> d = ?b"
    "\<forall>m. get_double (json e) req ''multiplier'' = Some m \<longrightarrow> m \<le> 0 \<Longrightarrow>
      get_str (json e) req ''difficulty'' = Some hex \<Longrightarrow> bigint_of_string (M128 e) u128_size hex = Inr d"
    "get_str (json e) req ''difficulty'' = Some hex \<Longrightarrow>
      \<exists>d0. bigint_of_string (M128 e) u128_size hex = Inr d0"
    using cases by (auto split: option.splits if_splits)
  assume m: "get_double (json e) req ''multiplier'' = Some m" "has_bits 53 m" "0 < m"
    and fits: "bigint_wf u128_size ?b" "of_nat (bigint_number (M128 e) ?b) * m < 2 ^ 128"
  then have "from_multiplier (M128 e) (floats (libs e)) m ?b = Inr d"
    using cases by (auto split: option.splits if_splits)
  then show "bigint_number (M128 e) d = nat \<lfloor>of_nat (bigint_number (M128 e) ?b) * m\<rfloor>"
    using from_multiplier_value [OF F fits(1) m(2) _ fits(2)] m(3) by auto
qed

text \<open>
  C18. What an accepted work request queues. The hash is the number its hexadecimal text denotes.
  The difficulty is decided by the multiplier when it is positive: it is the floor of the exact
  product with the base difficulty, when that fits 128 bits, whatever the difficulty field says.
  Otherwise it is the number the difficulty field denotes, and without that field the base
  difficulty. The job takes the next id, and its priority is the requested one only if the
  configuration allows prioritisation, otherwise 0.
\<close>

theorem accepted_job_contents:
  assumes "libs_laws (libs e)" "read_json (json e) body = Inr req"
    and "get_str (json e) req ''action'' = Some ''work_generate''"
    and "tasks (handle_request_async e body h s) \<noteq> tasks s"
  shows "\<exists>j text. jobs (handle_request_async e body h s) = push_job j (jobs s) \<and>
    get_str (json e) req ''hash'' = Some text \<and>
    bigint_of_string (M256 e) u256_size text = Inr (root_hash (request j)) \<and>
    (list_all is_hex text \<longrightarrow> bigint_number (M256 e) (root_hash (request j)) = hex_value text) \<and>
    request_difficulty_of e req = Inr (request_difficulty (request j)) \<and>
    (let base = base_difficulty (work (conf e)); d = request_difficulty (request j);
         multiplier = get_double (json e) req ''multiplier'';
         difficulty = get_str (json e) req ''difficulty''
     in (\<forall>m. multiplier = Some m \<longrightarrow> has_bits 53 m \<longrightarrow> 0 < m \<longrightarrow> bigint_wf u128_size base \<longrightarrow>
           of_nat (bigint_number (M128 e) base) * m < 2 ^ 128 \<longrightarrow>
           bigint_number (M128 e) d = nat \<lfloor>of_nat (bigint_number (M128 e) base) * m\<rfloor>) \<and>
        ((\<forall>m. multiplier = Some m \<longrightarrow> m \<le> 0) \<longrightarrow>
           (difficulty = None \<longrightarrow> d = base) \<and>
           (\<forall>hex. difficulty = Some hex \<longrightarrow> bigint_of_string (M128 e) u128_size hex = Inr d \<and>
              (list_all is_hex hex \<longrightarrow> bigint_number (M128 e) d = hex_value hex))) \<and>
        (\<forall>hex. difficulty = Some hex \<longrightarrow>
           (\<exists>d0. bigint_of_string (M128 e) u128_size hex = Inr d0))) \<and>
    job_id j = job_id_dispenser s \<and>
    job_id_dispenser (handle_request_async e body h s) = job_id_dispenser s + 1 \<and>
    priority j = (if allow_prioritization (server (conf e))
      then (case get_unsigned (json e) req ''priority'' of None \<Rightarrow> 0 | Some p \<Rightarrow> p) else 0)"
proof -
  obtain j0 where j0: "new_job (libs e) (job_id_dispenser s) = Inr (j0, job_id_dispenser s + 1)"
    "job_id j0 = job_id_dispenser s" "priority j0 = 0"
    using new_job_ok [OF assms(1)] by blast
  let ?cid = "get_str (json e) req ''id''"
  obtain r s1 where g: "work_generate e req ?cid h s = (r, s1)" by fastforce
  note unfold = handle_request_async_def accept_request_def dispatch_def assms(2,3) g
  from g show ?thesis
  proof (cases rule: work_generate_cases)
    case (Rejected ex)
    then show ?thesis using assms(4) by (simp add: unfold Let_def same_pool_def)
  next
    case (Queued j)
    have "fill_job e req j0 = Inr j" using Queued(6) by (simp add: make_job_def j0)
    then obtain hex hash d where f: "get_str (json e) req ''hash'' = Some hex"
      "bigint_of_string (M256 e) u256_size hex = Inr hash" "request_difficulty_of e req = Inr d"
      and j: "root_hash (request j) = hash" "request_difficulty (request j) = d"
        "job_id j = job_id j0" "priority j = (if allow_prioritization (server (conf e))
          then (case get_unsigned (json e) req ''priority'' of None \<Rightarrow> 0 | Some p \<Rightarrow> p) else priority j0)"
      by (auto simp: fill_job_spec)
    have M: "multiprecision_laws u128_size (M128 e)" "multiprecision_laws u256_size (M256 e)"
      using assms(1) by (simp_all add: libs_laws_def)
    have "job_id_dispenser s1 = job_id_dispenser s + 1"
      using g Queued by (simp add: work_generate_def make_job_def j0 enqueue_job_def
          split: sum.splits if_splits) auto
    then show ?thesis
      using Queued(1,3) j0(2,3) f request_difficulty_cases [OF assms(1) f(3)]
        bigint_of_string_value [OF M(1)] bigint_of_string_value [OF M(2) _ f(2)]
      by (intro exI [of _ j] exI [of _ hex]) (simp add: unfold Let_def j)
  qed
qed

lemma sample_u256: "bigint_of_string sample_mp u256_size ''1'' = Inr (bigint_set sample_mp u256_size 1)"
  "bigint_of_string sample_mp u256_size ''2'' = Inr (bigint_set sample_mp u256_size 2)"
  using string_number(1) [of sample_mp u256_size "''1''"] string_number(1) [of sample_mp u256_size "''2''"]
    sample_mp_laws
  by (simp_all add: is_hex_def hex_char_value_def hex_value_def horner_def numeral_2_eq_2)

lemma sample_mp_of_libs [simp]: "mp128 sample_libs = sample_mp" "mp256 sample_libs = sample_mp"
  by (simp_all add: sample_libs_def)

lemma sample_low:
  assumes "length (jobs s) < 2"
  shows "\<exists>j. job_id j = job_id_dispenser s \<and> priority j = 0 \<and>
    root_hash (request j) = bigint_set sample_mp u256_size 1 \<and>
    handle_request_async sample_env ''low'' h s
      = s\<lparr>jobs := push_job j (jobs s), job_id_dispenser := job_id_dispenser s + 1,
          tasks := tasks s @ [\<lparr>task_id = Some ''A'', task_handler = h\<rparr>]\<rparr>"
proof -
  obtain j0 where j0: "new_job sample_libs (job_id_dispenser s) = Inr (j0, job_id_dispenser s + 1)"
    "job_id j0 = job_id_dispenser s" "priority j0 = 0"
    using new_job_ok [OF sample_libs_laws] by blast
  show ?thesis
    using assms j0(2,3)
    by (intro exI [of _ "j0\<lparr>request := (request j0)\<lparr>root_hash := bigint_set sample_mp u256_size 1,
          request_difficulty := base_sample\<rparr>, priority := 0\<rparr>"])
      (simp add: handle_request_async_def accept_request_def sample_requests dispatch_def
        work_generate_def make_job_def j0 fill_job_def sample_u256 [unfolded One_nat_def]
        request_difficulty_of_def from_hex_field_def set_priority_def enqueue_job_def post_task_def)
qed

lemma sample_boost:
  "tasks (handle_request_async sample_env ''boost'' h (new_handler sample_config d)) \<noteq> []"
proof -
  obtain j0 where j0: "new_job sample_libs d = Inr (j0, d + 1)"
    using new_job_ok [OF sample_libs_laws] by blast
  have "bigint_of_string sample_mp u128_size ''1'' = Inr (bigint_set sample_mp u128_size 1)"
    using string_number(1) [of sample_mp u128_size "''1''"] sample_mp_laws
    by (simp add: is_hex_def hex_char_value_def hex_value_def horner_def)
  then have "from_hex_field sample_mp u128_size (Some ''1'') b = Inr (bigint_set sample_mp u128_size 1)" for b
    by (simp add: from_hex_field_cases)
  moreover have "of_nat (bigint_number sample_mp base_sample) * 3 = (0x6000000000000000 :: rat)"
    by (simp add: number_base_sample)
  then have "\<exists>d. from_multiplier sample_mp sample_floats 3 base_sample = Inr d"
    using from_multiplier_value [OF sample_floats_laws, of sample_mp base_sample 3]
      sample_mp_laws has_bits_nat [of 3 53] by (auto simp: base_sample_def)
  moreover have "floats sample_libs = sample_floats" by (simp add: sample_libs_def)
  ultimately show ?thesis
    by (auto simp: handle_request_async_def accept_request_def sample_requests dispatch_def
        work_generate_def make_job_def new_handler_def j0 fill_job_def sample_u256
        request_difficulty_of_def enqueue_job_def post_task_def)
qed

theorem accepted_job_contents_witness:
  "\<exists>j. jobs (handle_request_async sample_env ''boost'' 1 (new_handler sample_config 5)) = push_job j [] \<and>
     job_id j = 5 \<and> priority j = 0 \<and> bigint_number sample_mp (root_hash (request j)) = 2 \<and>
     bigint_number sample_mp (request_difficulty (request j)) = 0x6000000000000000"
proof -
  have t: "tasks (handle_request_async sample_env ''boost'' 1 (new_handler sample_config 5))
      \<noteq> tasks (new_handler sample_config 5)"
    using sample_boost by (simp add: new_handler_def)
  have "of_nat (bigint_number sample_mp base_sample) * 3 = (0x6000000000000000 :: rat)"
    by (simp add: number_base_sample)
  moreover have "bigint_wf u128_size base_sample" by (simp add: base_sample_def)
  moreover have "list_all is_hex ''2'' \<and> hex_value ''2'' = 2"
    by (simp add: is_hex_def hex_char_value_def hex_value_def horner_def)
  ultimately show ?thesis
    using accepted_job_contents [OF _ _ _ t] sample_libs_laws has_bits_nat [of 3 53]
    by (simp add: sample_requests) (auto simp: new_handler_def Let_def)
qed

section \<open>The closure, run without interference\<close>

lemma free_device:
  assumes "\<not> list_all busy ds"
  obtains i where "i < length ds" "\<not> busy (ds ! i)"
    "aquire_first_available_device ds = (Inr i, ds[i := (ds ! i)\<lparr>busy := True\<rparr>])"
proof -
  obtain r ds' where f: "find_device ds = (r, ds')" by fastforce
  with assms obtain i where "r = Some i" by (cases r) (auto simp: find_device_None)
  with f have "find_device ds = (Some i, ds')" by simp
  moreover from this have "i < length ds" "\<not> busy (ds ! i)" "ds' = ds[i := (ds ! i)\<lparr>busy := True\<rparr>]"
    unfolding find_device_Some by blast+
  ultimately show thesis
    using that [of i] by (simp add: aquire_first_available_device_def)
qed

lemma run_task_eq:
  assumes "job_result_of e = Inr rr" "ring_law (ring_push e)"
    and "pop_job (jobs s) = (Some j, q)" "\<not> list_all busy (h_devices s)"
    and "key j \<notin> key ` set (active_jobs s)"
  shows "run_task e started stopped t s =
    s\<lparr>jobs := q, outbox := outbox s @ [(task_handler t, work_response e (task_id t) rr)],
      completed_jobs := (if length (completed_jobs s) < 128 then completed_jobs s
        else tl (completed_jobs s)) @ [j\<lparr>start_time := started, result := fst rr, end_time := stopped\<rparr>]\<rparr>"
proof -
  obtain i where i: "i < length (h_devices s)" "\<not> busy (h_devices s ! i)"
    and a: "aquire_first_available_device (h_devices s)
      = (Inr i, (h_devices s)[i := (h_devices s ! i)\<lparr>busy := True\<rparr>])"
    using free_device [OF assms(4)] by blast
  let ?j1 = "j\<lparr>start_time := started\<rparr>" and ?j2 = "j\<lparr>start_time := started, result := fst rr\<rparr>"
  let ?j3 = "j\<lparr>start_time := started, result := fst rr, end_time := stopped\<rparr>"
  have keys: "key ?j1 = key j" "key ?j2 = key j" "key ?j3 = key j" by simp_all
  let ?A = "active_jobs s"
  have r1: "set_refresh comparator ?j2 (set_insert comparator ?j1 ?A) = set_insert comparator ?j2 ?A"
    and r2: "set_refresh comparator ?j3 (set_insert comparator ?j2 ?A) = set_insert comparator ?j3 ?A"
    using assms(5) by (simp_all only: refresh_insert keys not_False_eq_True)
  have er: "set_erase comparator ?j3 (set_insert comparator ?j3 ?A) = ?A"
    using assms(5) by (simp only: erase_insert keys not_False_eq_True)
  show ?thesis
    using assms(2) i
    by (simp add: run_task_def take_job_def assms(1,3) a begin_work_def start_def set_result_def r1
        stop_job_def stop_def r2 complete_job_def er respond_def release_device_def ring_law_def
        release_def list_update_same_conv Let_def)
qed

lemma to_hex_set:
  assumes "libs_laws (libs e)" "n < 2 ^ 128"
  shows "to_hex (M128 e) u128_size (bigint_set (M128 e) u128_size n)
    = map hex_digit (replicate (32 - length (digits 16 n)) 0 @ digits 16 n)"
  using assms by (simp add: to_hex_eq libs_laws_def del: map_append)

lemma to_hex_results:
  assumes "libs_laws (libs e)"
  shows "to_hex (M128 e) u128_size (bigint_set (M128 e) u128_size 0x2FEAEAA000000000)
      = ''00000000000000002FEAEAA000000000''"
    and "to_hex (M128 e) u128_size (bigint_set (M128 e) u128_size 0x2000000000000000)
      = ''00000000000000002000000000000000''"
    and "to_hex (M128 e) u128_size (bigint_set (M128 e) u128_size 0x2FFEE0000000000)
      = ''000000000000000002FFEE0000000000''"
proof -
  have zeros: "replicate 16 (CHR ''0'') = ''0000000000000000''"
    "replicate 17 (CHR ''0'') = ''00000000000000000''"
    by (simp_all add: numeral_eq_Suc)
  note unfold = to_hex_set [OF assms] digits.simps hex_digit_def zeros
  show "to_hex (M128 e) u128_size (bigint_set (M128 e) u128_size 0x2FEAEAA000000000)
      = ''00000000000000002FEAEAA000000000''"
    by (simp add: unfold)
  show "to_hex (M128 e) u128_size (bigint_set (M128 e) u128_size 0x2000000000000000)
      = ''00000000000000002000000000000000''"
    by (simp add: unfold)
  show "to_hex (M128 e) u128_size (bigint_set (M128 e) u128_size 0x2FFEE0000000000)
      = ''000000000000000002FFEE0000000000''"
    by (simp add: unfold)
qed

text \<open>
  C16. The life of a job: a closure that finds a job in the queue and a free device takes the
  job of highest priority, answers its own request exactly once with the work value,
  difficulty and multiplier of the configured mode (the mock marks its answer as a test) and the
  request's id, releases the device, leaves the active set, and records the job as the newest of
  the at most 128 completed ones, with both times and exactly the result it has answered.
\<close>

theorem run_task_spec:
  assumes "libs_laws (libs e)" "ring_law (ring_push e)" "heap comparator (jobs s)"
    and "jobs s \<noteq> []" "\<not> list_all busy (h_devices s)"
    and "\<forall>a \<in> set (active_jobs s). \<forall>j \<in> set (jobs s). key a \<noteq> key j"
  shows "let s' = run_task e t0 t1 t s;
      multiplier = (if mock e then 3118067202009963 / 2 ^ 51 else 1)
    in \<exists>j rs. j \<in> set (jobs s) \<and> (\<forall>x \<in> set (jobs s). key x \<le> key j) \<and>
      mset (jobs s') = mset (jobs s) - {#j#} \<and>
      outbox s' = outbox s @ [(task_handler t,
        (if mock e then [(''testing'', J_Bool True)] else []) @
        [(''work'', J_String ''00000000000000002FEAEAA000000000''),
         (''difficulty'', J_String (if mock e then ''000000000000000002FFEE0000000000''
            else ''00000000000000002000000000000000'')),
         (''multiplier'', J_Double multiplier)] @
        (case task_id t of None \<Rightarrow> [] | Some i \<Rightarrow> [(''id'', J_String i)]))] \<and>
      h_devices s' = h_devices s \<and> active_jobs s' = active_jobs s \<and>
      completed_jobs s' = (if length (completed_jobs s) < 128 then completed_jobs s
        else tl (completed_jobs s)) @ [j\<lparr>start_time := t0, result := rs, end_time := t1\<rparr>] \<and>
      bigint_number (M128 e) (result_work rs) = 0x2FEAEAA000000000 \<and>
      bigint_number (M128 e) (result_difficulty rs)
        = (if mock e then 0x2FFEE0000000000 else 0x2000000000000000) \<and>
      result_multiplier rs = multiplier"
proof -
  obtain j q where p: "pop_job (jobs s) = (Some j, q)"
    using assms(4) by (auto simp: pop_job_def)
  note j = pop_job_Some [OF assms(3) p]
  with assms(6) have "key j \<notin> key ` set (active_jobs s)" by fastforce
  obtain rs where rs: "job_result_of e = Inr (rs, if mock e then [(''testing'', J_Bool True)] else [])"
    "result_work rs = bigint_set (M128 e) u128_size 0x2FEAEAA000000000"
    "result_difficulty rs = bigint_set (M128 e) u128_size
      (if mock e then 0x2FFEE0000000000 else 0x2000000000000000)"
    "result_multiplier rs = (if mock e then 3118067202009963 / 2 ^ 51 else 1)"
    by (rule that [OF job_result_of_eq [OF assms(1)]]) simp_all
  have eq: "run_task e t0 t1 t s = s\<lparr>jobs := q,
      outbox := outbox s @ [(task_handler t, work_response e (task_id t)
        (rs, if mock e then [(''testing'', J_Bool True)] else []))],
      completed_jobs := (if length (completed_jobs s) < 128 then completed_jobs s
        else tl (completed_jobs s)) @ [j\<lparr>start_time := t0, result := rs, end_time := t1\<rparr>]\<rparr>"
    using run_task_eq [OF rs(1) assms(2) p assms(5)] \<open>key j \<notin> key ` set (active_jobs s)\<close> by simp
  show ?thesis
    unfolding eq Let_def using j assms(1) rs(2-)
    by (intro exI [of _ j] exI [of _ rs])
      (simp add: work_response_def attach_correlation_id_def to_hex_results split: option.split)
qed

lemma sample_high:
  assumes "length (jobs s) < 2"
  shows "\<exists>j. job_id j = job_id_dispenser s \<and> priority j = 9 \<and>
    root_hash (request j) = bigint_set sample_mp u256_size 2 \<and>
    handle_request_async sample_env ''high'' h s
      = s\<lparr>jobs := push_job j (jobs s), job_id_dispenser := job_id_dispenser s + 1,
          tasks := tasks s @ [\<lparr>task_id = Some ''B'', task_handler = h\<rparr>]\<rparr>"
proof -
  obtain j0 where j0: "new_job sample_libs (job_id_dispenser s) = Inr (j0, job_id_dispenser s + 1)"
    "job_id j0 = job_id_dispenser s" "priority j0 = 0"
    using new_job_ok [OF sample_libs_laws] by blast
  show ?thesis
    using assms j0(2,3)
    by (intro exI [of _ "j0\<lparr>request := (request j0)\<lparr>root_hash := bigint_set sample_mp u256_size 2,
          request_difficulty := base_sample\<rparr>, priority := 9\<rparr>"])
      (simp add: handle_request_async_def accept_request_def sample_requests dispatch_def
        work_generate_def make_job_def j0 fill_job_def sample_u256
        request_difficulty_of_def from_hex_field_def set_priority_def enqueue_job_def post_task_def)
qed

lemma new_handler_sels [simp]:
  "h_devices (new_handler c d) = map register_device (devices c)" "jobs (new_handler c d) = []"
  "active_jobs (new_handler c d) = []" "completed_jobs (new_handler c d) = []"
  "job_id_dispenser (new_handler c d) = d" "tasks (new_handler c d) = []" "outbox (new_handler c d) = []"
  by (simp_all add: new_handler_def)

lemma push_job_length [simp]: "length (push_job j q) = Suc (length q)"
  by (metis mset_push_job size_add_mset size_mset)

lemma push_job_not_Nil [simp]: "push_job j q \<noteq> []"
  by (metis length_0_conv push_job_length nat.distinct(1))

lemma set_push_job [simp]: "set (push_job j q) = insert j (set q)"
  by (metis mset_push_job set_mset_add_mset_insert set_mset_mset)

lemma register_not_busy [simp]: "\<not> busy (register_device d)"
  by (simp add: register_device_def)

declare sample_libs_laws [simp] sample_ring_law [simp]

theorem run_task_spec_witness:
  "let s' = run_task sample_env 10 20 \<lparr>task_id = Some ''A'', task_handler = 1\<rparr>
      (handle_request_async sample_env ''low'' 1 (new_handler sample_config 5))
   in outbox s' = [(1, [(''work'', J_String ''00000000000000002FEAEAA000000000''),
        (''difficulty'', J_String ''00000000000000002000000000000000''),
        (''multiplier'', J_Double 1), (''id'', J_String ''A'')])] \<and>
     (\<exists>j. completed_jobs s' = [j] \<and> start_time j = 10 \<and> end_time j = 20 \<and>
        bigint_number sample_mp (result_work (result j)) = 0x2FEAEAA000000000)"
proof -
  let ?s = "handle_request_async sample_env ''low'' 1 (new_handler sample_config 5)"
  obtain j where j: "jobs ?s = push_job j []" "h_devices ?s = map register_device [device_default]"
    "active_jobs ?s = []" "outbox ?s = []" "completed_jobs ?s = []"
    using sample_low [of "new_handler sample_config 5" 1] by auto
  then have "heap comparator (jobs ?s)" using heap_push_jobs [of "[j]"] by (simp add: pq_empty_def)
  then show ?thesis
    using run_task_spec [of sample_env ?s 10 20 "\<lparr>task_id = Some ''A'', task_handler = 1\<rparr>"] j
    by (auto simp: Let_def)
qed

text \<open>
  C23. A closure serves whatever job is first, not the job of the request that posted it: with
  two queued jobs of which the second has the greater priority, the closure of the first
  request (any closure) generates the second request's job but answers the first request's
  response handler, with the first request's correlation id; the first job stays queued.
\<close>

theorem closure_serves_front_job:
  assumes "libs_laws (libs e)" "ring_law (ring_push e)" "\<not> list_all busy (h_devices s)"
    and "jobs s = push_job j2 (push_job j1 [])" "priority j1 < priority j2" "active_jobs s = []"
  shows "\<exists>r. jobs (run_task e t0 t1 t s) = [j1] \<and>
    request (last (completed_jobs (run_task e t0 t1 t s))) = request j2 \<and>
    outbox (run_task e t0 t1 t s) = outbox s @ [(task_handler t, r)] \<and>
    (\<forall>i. task_id t = Some i \<longrightarrow> (''id'', J_String i) \<in> set r)"
proof -
  obtain rr where rr: "job_result_of e = Inr rr"
    using job_result_of_ok [OF assms(1)] by blast
  have h: "heap comparator (jobs s)"
    using heap_push_jobs [of "[j1, j2]"] by (simp add: assms(4) pq_empty_def)
  obtain j q where p: "pop_job (jobs s) = (Some j, q)"
    by (auto simp: pop_job_def assms(4))
  note spec = pop_job_Some [OF h p]
  have "key j2 \<le> key j" "j \<in> {j1, j2}" using spec by (auto simp: assms(4))
  then have j: "j = j2" using assms(5) by (auto simp: key_le_iff)
  then have "mset q = {#j1#}" using spec by (simp add: assms(4) mset_push_job)
  then have q: "q = [j1]" by (metis mset_single_iff_right)
  show ?thesis
    using run_task_eq [OF rr assms(2) p assms(3), of t0 t1 t] assms(6) j q
    by (auto simp: work_response_def attach_correlation_id_def)
qed

theorem closure_serves_front_job_witness:
  "let s = handle_request_async sample_env ''high'' 2
             (handle_request_async sample_env ''low'' 1 (new_handler sample_config 5));
       s' = run_task sample_env 10 20 (hd (tasks s)) s
   in bigint_number sample_mp (root_hash (request (last (completed_jobs s')))) = 2 \<and>
      (\<exists>r. outbox s' = [(1, r)] \<and> (''id'', J_String ''A'') \<in> set r)"
proof -
  let ?s1 = "handle_request_async sample_env ''low'' 1 (new_handler sample_config 5)"
  let ?s = "handle_request_async sample_env ''high'' 2 ?s1"
  obtain j1 where j1: "priority j1 = 0" "jobs ?s1 = push_job j1 []" "outbox ?s1 = []"
    "tasks ?s1 = [\<lparr>task_id = Some ''A'', task_handler = 1\<rparr>]" "active_jobs ?s1 = []"
    "h_devices ?s1 = map register_device [device_default]"
    using sample_low [of "new_handler sample_config 5" 1] by auto
  obtain j2 where j2: "priority j2 = 9" "jobs ?s = push_job j2 (push_job j1 [])" "outbox ?s = []"
    "hd (tasks ?s) = \<lparr>task_id = Some ''A'', task_handler = 1\<rparr>" "active_jobs ?s = []"
    "h_devices ?s = map register_device [device_default]"
    "root_hash (request j2) = bigint_set sample_mp u256_size 2"
    using sample_high [of ?s1 2] j1 by auto
  have "bigint_number sample_mp (bigint_set sample_mp u256_size 2) = 2"
    using sample_mp_laws by (intro number_set) simp_all
  then show ?thesis
    using closure_serves_front_job [of sample_env ?s j2 j1 10 20 "hd (tasks ?s)"] j1(1) j2
    by (auto simp: Let_def)
qed


text \<open>
  C33. The queue listing shows every job and changes nothing: the one answer has three lists, of
  every queued job exactly once in the order the queue would hand them out, of the active jobs,
  and of the completed jobs, oldest first. Each entry carries the id, the priority, both times
  in milliseconds, and the hash, work value, difficulties and multipliers of the job it stands for;
  the hash is shown as a text that reads back to the same hash, so that it can be used to
  cancel the job.
\<close>

theorem queue_listing:
  assumes "heap comparator (jobs s)"
  shows "let ms = (\<lambda>ns. J_Int (sgn ns * (\<bar>ns\<bar> div 1000000)));
      hash = (\<lambda>j. to_hex (M256 e) u256_size (root_hash (request j)));
      hex = (\<lambda>n. J_String (to_hex (M128 e) u128_size n));
      entry = (\<lambda>j. ('''', J_Tree
        [(''id'', J_Int (uint (job_id j))), (''priority'', J_Int (uint (priority j))),
         (''start'', ms (start_time j)), (''end'', ms (end_time j)),
         (''request'', J_Tree [(''hash'', J_String (hash j)),
            (''difficulty'', hex (request_difficulty (request j))),
            (''multiplier'', J_Double (request_multiplier (request j)))]),
         (''result'', J_Tree [(''work'', hex (result_work (result j))),
            (''difficulty'', hex (result_difficulty (result j))),
            (''multiplier'', J_Double (result_multiplier (result j)))])]))
    in \<exists>js. handle_queue_request e h s = s\<lparr>outbox := outbox s @
        [(h, [(''queued'', J_Tree (map entry js)), (''active'', J_Tree (map entry (active_jobs s))),
              (''completed'', J_Tree (map entry (completed_jobs s)))])]\<rparr> \<and>
      mset js = mset (jobs s) \<and>
      sorted_wrt (\<lambda>a b. priority b < priority a \<or> (priority a = priority b \<and> job_id a \<le> job_id b)) js \<and>
      (libs_laws (libs e) \<longrightarrow> (\<forall>j \<in> set js. bigint_wf u256_size (root_hash (request j)) \<longrightarrow>
         bigint_of_string (M256 e) u256_size (hash j) = Inr (root_hash (request j))))"
  using sorted_key_drain [OF assms] jobs.mset_drain [OF assms] unfolding Let_def
  by (intro exI [of _ "pq_drain comparator (jobs s)"])
    (simp add: handle_queue_request_def respond_def key_le_iff jobs_json_def job_json_def
      milliseconds_def libs_laws_def bigint_of_string_to_hex)

theorem queue_listing_witness:
  "\<exists>js. mset js = {#sample_job 1 0 3, sample_job 2 5 4#} \<and>
     (\<forall>j \<in> set js. bigint_of_string sample_mp u256_size
        (to_hex sample_mp u256_size (root_hash (request j))) = Inr (root_hash (request j)))"
proof -
  let ?js = "[sample_job 1 0 3, sample_job 2 5 4]"
  have wf: "\<forall>j \<in> set js. bigint_wf u256_size (root_hash (request j))" if "mset js = mset ?js" for js
    using mset_eq_setD [OF that] by simp
  show ?thesis
    using queue_listing [of "new_handler sample_config 5\<lparr>jobs := push_jobs ?js\<rparr>" sample_env 7]
      heap_push_jobs [of ?js] mset_push_jobs [of ?js] wf
    by (auto simp: Let_def)
qed

lemma fold_run_task_empty:
  assumes "jobs s = []"
  shows "fold (run_task e t0 t1) ts s = s\<lparr>outbox := outbox s @
      map (\<lambda>t. (task_handler t, create_error_response (task_id t) ''No jobs available'')) ts\<rparr>"
  using assms
proof (induction ts arbitrary: s)
  case (Cons t ts)
  have "run_task e t0 t1 t s = s\<lparr>outbox := outbox s @
      [(task_handler t, create_error_response (task_id t) ''No jobs available'')]\<rparr>"
    using Cons.prems by (simp add: run_task_def take_job_def pop_job_def respond_def)
  with Cons show ?case by simp
qed simp

text \<open>
  C34. Clearing the queue is gated and loses no answer: without \<^verbatim>\<open>allow_control\<close> the request
  gets an error and changes nothing; with it the queue is emptied, and then every closure still
  in the pool answers its own request with \<^verbatim>\<open>No jobs available\<close> and the request's id, and
  touches no device.
\<close>

theorem queue_deletion:
  "(\<not> allow_control (server (conf e)) \<longrightarrow>
      handle_queue_delete_request e h s = s\<lparr>outbox := outbox s @ [(h, [(''error'', J_String
        ''Control requests are not allowed. This must be enabled in the server configuration.'')])]\<rparr>) \<and>
   (allow_control (server (conf e)) \<longrightarrow>
      (let s' = handle_queue_delete_request e h s in
       s' = s\<lparr>jobs := [], outbox := outbox s @ [(h, [(''success'', J_Bool True)])]\<rparr> \<and>
       fold (run_task e t0 t1) (tasks s') s' = s'\<lparr>outbox := outbox s' @
         map (\<lambda>t. (task_handler t, create_error_response (task_id t) ''No jobs available'')) (tasks s)\<rparr>))"
  by (simp add: handle_queue_delete_request_def respond_def Let_def pq_empty_def fold_run_task_empty)

theorem queue_deletion_witness:
  "jobs (handle_queue_delete_request sample_env 3
     (new_handler sample_config 5\<lparr>jobs := [sample_job 1 0 3]\<rparr>)) = []"
  using queue_deletion [of sample_env 3 "new_handler sample_config 5\<lparr>jobs := [sample_job 1 0 3]\<rparr>"]
  by (simp add: Let_def)


end
