(* ===== verification/Pool.thy ===== *)
theory Pool
  imports Work_Handler
begin

text \<open>
  The work handler under concurrency: clients call it from the web server's threads while the
  threads of \<^verbatim>\<open>boost::asio::thread_pool\<close> run the posted closures, one thread per device.
  Every access to shared state (a critical section, an atomic exchange, a call of a response
  handler) is one step, and steps of different threads interleave freely. Drawing a job id and
  pushing the job are two accesses of one request; they are one step here, since the id is
  already fixed when the job is pushed and no property depends on what happens in between.

  A pool thread takes the oldest closure of the pool's queue. The state between two steps of
  its closure is a \<open>worker\<close>. \<open>posting\<close> holds the closures of requests whose job is already
  queued but whose call of \<^verbatim>\<open>boost::asio::post\<close> is still to come, and \<open>requests\<close> is the
  history of all response handlers passed in.
\<close>

section \<open>Workers\<close>

datatype worker =
    Idle
  | Fetched task
  | Scan task job nat
  | Holds task job nat
  | Working task job nat
  | Finished task job nat response
  | Answered job nat
  | Released job
  | Stopped job

text \<open>
  The next step of a closure (lines 218 to 300). In \<open>Scan t j i\<close> the next atomic exchange of
  \<^verbatim>\<open>std::find_if\<close> is that of device \<open>i\<close>; past the last device the search throws.
\<close>

fun worker_step :: "'p env \<Rightarrow> int \<Rightarrow> worker \<Rightarrow> handler \<Rightarrow> (worker \<times> handler) option" where
  "worker_step e now Idle s =
     (case tasks s of [] \<Rightarrow> None | t # ts \<Rightarrow> Some (Fetched t, s\<lparr>tasks := ts\<rparr>))"
| "worker_step e now (Fetched t) s =
     (case take_job t s of
        (None, s') \<Rightarrow> Some (Idle, s')
      | (Some j, s') \<Rightarrow> Some (Scan t j 0, s'))"
| "worker_step e now (Scan t j i) s =
     (if i < length (h_devices s) then
        case try_aquire (h_devices s ! i) of
          (was_busy, d) \<Rightarrow>
            Some (if was_busy then Scan t j (Suc i) else Holds t j i,
                  s\<lparr>h_devices := (h_devices s)[i := d]\<rparr>)
      else Some (Idle, respond (task_handler t)
        (create_error_response (task_id t) ''No available devices'') s))"
| "worker_step e now (Holds t j i) s =
     (let (j', s') = begin_work now j s in Some (Working t j' i, s'))"
| "worker_step e now (Working t j i) s =
     (case job_result_of e of
        Inl ex \<Rightarrow>
          Some (Idle, respond (task_handler t) (create_error_response (task_id t) (what ex)) s)
      | Inr rr \<Rightarrow>
          (let (j', s') = set_result (fst rr) j s in
           Some (Finished t j' i (work_response e (task_id t) rr), s')))"
| "worker_step e now (Finished t j i r) s = Some (Answered j i, respond (task_handler t) r s)"
| "worker_step e now (Answered j i) s = Some (Released j, release_device i s)"
| "worker_step e now (Released j) s = (let (j', s') = stop_job now j s in Some (Stopped j', s'))"
| "worker_step e now (Stopped j) s = Some (Idle, complete_job e j s)"

section \<open>The pool\<close>

record pool =
  hs :: handler
  posting :: "task list"
  workers :: "worker list"
  requests :: "nat list"

definition new_pool :: "config \<Rightarrow> 32 word \<Rightarrow> pool" where
  "new_pool c dispenser = \<lparr>hs = new_handler c dispenser, posting = [],
     workers = replicate (length (devices c)) Idle, requests = []\<rparr>"

text \<open>The calls of clients, and the steps that finish what they started.\<close>

inductive client :: "'p env \<Rightarrow> pool \<Rightarrow> pool \<Rightarrow> bool" for e where
  request: "accept_request e body h (hs p) = (t, s') \<Longrightarrow>
     client e p (p\<lparr>hs := s', posting := posting p @ (case t of None \<Rightarrow> [] | Some tk \<Rightarrow> [tk]),
       requests := requests p @ [h]\<rparr>)"
| list: "client e p (p\<lparr>hs := handle_queue_request e h (hs p), requests := requests p @ [h]\<rparr>)"
| delete: "client e p (p\<lparr>hs := handle_queue_delete_request e h (hs p), requests := requests p @ [h]\<rparr>)"

inductive internal :: "'p env \<Rightarrow> pool \<Rightarrow> pool \<Rightarrow> bool" for e where
  post: "posting p = xs @ t # ys \<Longrightarrow>
     internal e p (p\<lparr>hs := post_task t (hs p), posting := xs @ ys\<rparr>)"
| worker: "w < length (workers p) \<Longrightarrow> worker_step e now (workers p ! w) (hs p) = Some (x, s') \<Longrightarrow>
     internal e p (p\<lparr>hs := s', workers := (workers p)[w := x]\<rparr>)"

inductive reachable :: "'p env \<Rightarrow> 32 word \<Rightarrow> pool \<Rightarrow> bool" for e d where
  start: "reachable e d (new_pool (conf e) d)"
| client: "reachable e d p \<Longrightarrow> client e p p' \<Longrightarrow> reachable e d p'"
| internal: "reachable e d p \<Longrightarrow> internal e p p' \<Longrightarrow> reachable e d p'"

declare reachable.intros [step_intros] internal.intros [step_intros] client.intros [step_intros]

text \<open>Nothing is left to do.\<close>

definition quiescent :: "pool \<Rightarrow> bool" where
  "quiescent p \<longleftrightarrow> posting p = [] \<and> tasks (hs p) = [] \<and> (\<forall>x \<in> set (workers p). x = Idle)"

section \<open>Invariants\<close>

lemma reachable_invariant:
  assumes "reachable e d p" "I (new_pool (conf e) d)"
    and "\<And>p p'. I p \<Longrightarrow> client e p p' \<Longrightarrow> I p'"
    and "\<And>p p'. I p \<Longrightarrow> internal e p p' \<Longrightarrow> I p'"
  shows "I p"
  using assms(1) by (induction rule: reachable.induct) (use assms in blast)+

text \<open>The steps of a worker, one by one.\<close>

lemma worker_step_cases:
  assumes "worker_step e now x s = Some (x', s')"
  obtains
    (fetch) t ts where "x = Idle" "tasks s = t # ts" "x' = Fetched t" "s' = s\<lparr>tasks := ts\<rparr>"
  | (no_jobs) t where "x = Fetched t" "jobs s = []" "x' = Idle"
      "s' = respond (task_handler t) (create_error_response (task_id t) ''No jobs available'') s"
  | (take) t j q where "x = Fetched t" "pop_job (jobs s) = (Some j, q)" "x' = Scan t j 0"
      "s' = s\<lparr>jobs := q\<rparr>"
  | (skip) t j i where "x = Scan t j i" "i < length (h_devices s)" "busy (h_devices s ! i)"
      "x' = Scan t j (Suc i)" "s' = s"
  | (acquire) t j i where "x = Scan t j i" "i < length (h_devices s)" "\<not> busy (h_devices s ! i)"
      "x' = Holds t j i" "s' = s\<lparr>h_devices := (h_devices s)[i := (h_devices s ! i)\<lparr>busy := True\<rparr>]\<rparr>"
  | (no_device) t j i where "x = Scan t j i" "length (h_devices s) \<le> i" "x' = Idle"
      "s' = respond (task_handler t) (create_error_response (task_id t) ''No available devices'') s"
  | (begin_job) t j i where "x = Holds t j i" "x' = Working t (j\<lparr>start_time := now\<rparr>) i"
      "s' = s\<lparr>active_jobs := set_insert comparator (j\<lparr>start_time := now\<rparr>) (active_jobs s)\<rparr>"
  | (failed) t j i ex where "x = Working t j i" "job_result_of e = Inl ex" "x' = Idle"
      "s' = respond (task_handler t) (create_error_response (task_id t) (what ex)) s"
  | (result) t j i rr where "x = Working t j i" "job_result_of e = Inr rr"
      "x' = Finished t (j\<lparr>result := fst rr\<rparr>) i (work_response e (task_id t) rr)"
      "s' = s\<lparr>active_jobs := set_refresh comparator (j\<lparr>result := fst rr\<rparr>) (active_jobs s)\<rparr>"
  | (answer) t j i r where "x = Finished t j i r" "x' = Answered j i"
      "s' = respond (task_handler t) r s"
  | (release) j i where "x = Answered j i" "x' = Released j" "s' = release_device i s"
  | (stop) j where "x = Released j" "x' = Stopped (j\<lparr>end_time := now\<rparr>)"
      "s' = s\<lparr>active_jobs := set_refresh comparator (j\<lparr>end_time := now\<rparr>) (active_jobs s)\<rparr>"
  | (done_job) j where "x = Stopped j" "x' = Idle" "s' = complete_job e j s"
proof (cases x)
  case (Fetched t)
  show ?thesis
  proof (cases "jobs s = []")
    case True
    have "x' = Idle"
      "s' = respond (task_handler t) (create_error_response (task_id t) ''No jobs available'') s"
      using assms Fetched True by (simp_all add: take_job_def pop_job_def)
    with Fetched True show ?thesis by (rule no_jobs)
  next
    case False
    have p: "pop_job (jobs s) = (Some (pq_top (jobs s)), pq_pop comparator (jobs s))"
      using False by (simp add: pop_job_def)
    have "Some (x', s') = Some (Scan t (pq_top (jobs s)) 0, s\<lparr>jobs := pq_pop comparator (jobs s)\<rparr>)"
      unfolding assms [symmetric] Fetched worker_step.simps take_job_def p by simp
    then have "x' = Scan t (pq_top (jobs s)) 0" "s' = s\<lparr>jobs := pq_pop comparator (jobs s)\<rparr>"
      by blast+
    with Fetched p show ?thesis by (rule take)
  qed
next
  case (Scan t j i)
  show ?thesis
  proof (cases "i < length (h_devices s)")
    case True
    have st: "Some (x', s') = Some (if busy (h_devices s ! i) then Scan t j (Suc i) else Holds t j i,
        s\<lparr>h_devices := (h_devices s)[i := (h_devices s ! i)\<lparr>busy := True\<rparr>]\<rparr>)"
      unfolding assms [symmetric] Scan worker_step.simps try_aquire_def using True by simp
    show ?thesis
    proof (cases "busy (h_devices s ! i)")
      case busy: True
      then have "x' = Scan t j (Suc i)" "s' = s" using st by (simp_all add: set_busy_again)
      with Scan True busy show ?thesis by (rule skip)
    next
      case free: False
      then have "x' = Holds t j i"
        "s' = s\<lparr>h_devices := (h_devices s)[i := (h_devices s ! i)\<lparr>busy := True\<rparr>]\<rparr>"
        using st by simp_all
      with Scan True free show ?thesis by (rule acquire)
    qed
  qed (use assms Scan no_device [of t j i] in simp)
next
  case (Working t j i)
  then show ?thesis
    using assms failed [of t j i] result [of t j i]
    by (cases "job_result_of e") (simp_all add: set_result_def Let_def)
next
  case Idle
  then show ?thesis using assms fetch by (cases "tasks s") auto
next
  case (Holds t j i)
  then show ?thesis using assms begin_job by (simp add: begin_work_def start_def Let_def)
next
  case (Finished t j i r)
  then show ?thesis using assms answer by simp
next
  case (Answered j i)
  then show ?thesis using assms release by simp
next
  case (Released j)
  then show ?thesis using assms stop by (simp add: stop_job_def stop_def Let_def)
next
  case (Stopped j)
  then show ?thesis using assms done_job by simp
qed

lemma release_device_sels [simp]:
  "jobs (release_device i s) = jobs s" "tasks (release_device i s) = tasks s"
  "active_jobs (release_device i s) = active_jobs s" "outbox (release_device i s) = outbox s"
  "completed_jobs (release_device i s) = completed_jobs s"
  "job_id_dispenser (release_device i s) = job_id_dispenser s"
  "h_devices (release_device i s) = (h_devices s)[i := (h_devices s ! i)\<lparr>busy := False\<rparr>]"
  by (simp_all add: release_device_def release_def)

lemma complete_job_sels [simp]:
  "jobs (complete_job e j s) = jobs s" "tasks (complete_job e j s) = tasks s"
  "h_devices (complete_job e j s) = h_devices s" "outbox (complete_job e j s) = outbox s"
  "job_id_dispenser (complete_job e j s) = job_id_dispenser s"
  "completed_jobs (complete_job e j s) = ring_push e 128 (completed_jobs s) j"
  "active_jobs (complete_job e j s) = set_erase comparator j (active_jobs s)"
  by (simp_all add: complete_job_def)

text \<open>What each step of a client and of a worker does to the parts of the state.\<close>

lemma handle_queue_request_sels [simp]:
  "jobs (handle_queue_request e h s) = jobs s" "tasks (handle_queue_request e h s) = tasks s"
  "h_devices (handle_queue_request e h s) = h_devices s"
  "active_jobs (handle_queue_request e h s) = active_jobs s"
  "completed_jobs (handle_queue_request e h s) = completed_jobs s"
  "job_id_dispenser (handle_queue_request e h s) = job_id_dispenser s"
  "map fst (outbox (handle_queue_request e h s)) = map fst (outbox s) @ [h]"
  by (simp_all add: handle_queue_request_def)

lemma handle_queue_delete_request_sels [simp]:
  "jobs (handle_queue_delete_request e h s) = (if allow_control (server (conf e)) then [] else jobs s)"
  "tasks (handle_queue_delete_request e h s) = tasks s"
  "h_devices (handle_queue_delete_request e h s) = h_devices s"
  "active_jobs (handle_queue_delete_request e h s) = active_jobs s"
  "completed_jobs (handle_queue_delete_request e h s) = completed_jobs s"
  "job_id_dispenser (handle_queue_delete_request e h s) = job_id_dispenser s"
  "map fst (outbox (handle_queue_delete_request e h s)) = map fst (outbox s) @ [h]"
  by (simp_all add: handle_queue_delete_request_def pq_empty_def)

lemma client_frame:
  assumes "client e p p'"
  shows "workers p' = workers p \<and> h_devices (hs p') = h_devices (hs p) \<and>
    active_jobs (hs p') = active_jobs (hs p) \<and> completed_jobs (hs p') = completed_jobs (hs p) \<and>
    tasks (hs p') = tasks (hs p)"
  using assms
proof cases
  case (request body h t s')
  then show ?thesis
    using accept_request_cases [OF request(2)]
    by (auto simp: answered_def queued_def same_pool_def)
qed simp_all

subsection \<open>The queue\<close>

definition queue_inv :: "'p env \<Rightarrow> pool \<Rightarrow> bool" where
  "queue_inv e p \<longleftrightarrow> heap comparator (jobs (hs p)) \<and>
     length (jobs (hs p)) \<le> unat (request_limit (server (conf e)))"

lemma worker_step_jobs:
  assumes "worker_step e now x s = Some (x', s')"
  shows "jobs s' = jobs s \<or> jobs s' = snd (pop_job (jobs s))"
  using assms by (cases rule: worker_step_cases) simp_all

lemma queue_inv_pop:
  "heap comparator q \<Longrightarrow> length q \<le> n \<Longrightarrow>
     heap comparator (snd (pop_job q)) \<and> length (snd (pop_job q)) \<le> n"
  by (auto simp: pop_job_def jobs.invar_pop length_pq_pop)

lemma heap_client:
  assumes "client e p p'" "heap comparator (jobs (hs p))"
  shows "heap comparator (jobs (hs p'))"
  using assms(1)
proof cases
  case (request body h t s')
  then show ?thesis
    using accept_request_cases [OF request(2)] assms(2) answered_sub [of "hs p" h s']
    by (auto simp: queued_def heap_push_job)
qed (use assms(2) in \<open>auto simp: jobs.invar_empty [unfolded pq_empty_def]\<close>)

lemma heap_internal:
  assumes "internal e p p'" "heap comparator (jobs (hs p))"
  shows "heap comparator (jobs (hs p'))"
  using assms
proof cases
  case (worker w now x s')
  then show ?thesis
    using worker_step_jobs [OF worker(3)] assms(2) by (auto simp: queue_inv_pop [OF _ le_refl])
qed simp

lemma reachable_queue: "reachable e d p \<Longrightarrow> queue_inv e p"
proof (erule reachable_invariant)
  show "queue_inv e (new_pool (conf e) d)"
    by (simp add: queue_inv_def new_pool_def jobs.invar_empty [unfolded pq_empty_def])
next
  fix p p' assume I: "queue_inv e p" and st: "client e p p'"
  from st show "queue_inv e p'"
  proof cases
    case (request body h t s')
    then show ?thesis
      using accept_request_cases [OF request(2)] I answered_sub [of "hs p" h s']
        answered_length [of "hs p" h s']
      by (auto simp: queue_inv_def queued_def heap_push_job)
  qed (use I in \<open>auto simp: queue_inv_def jobs.invar_empty [unfolded pq_empty_def]\<close>)
next
  fix p p' assume I: "queue_inv e p" and st: "internal e p p'"
  from st show "queue_inv e p'"
    using I queue_inv_pop by cases (auto simp: queue_inv_def dest!: worker_step_jobs)
qed

subsection \<open>Answers\<close>

text \<open>The response handlers a worker still has to call.\<close>

fun owes :: "worker \<Rightarrow> nat list" where
  "owes Idle = []"
| "owes (Fetched t) = [task_handler t]"
| "owes (Scan t j i) = [task_handler t]"
| "owes (Holds t j i) = [task_handler t]"
| "owes (Working t j i) = [task_handler t]"
| "owes (Finished t j i r) = [task_handler t]"
| "owes (Answered j i) = []"
| "owes (Released j) = []"
| "owes (Stopped j) = []"

abbreviation answers_of :: "handler \<Rightarrow> nat multiset" where
  "answers_of s \<equiv> mset (map fst (outbox s))"

definition pending :: "pool \<Rightarrow> nat multiset" where
  "pending p = mset (map task_handler (posting p @ tasks (hs p))) + mset (concat (map owes (workers p)))"

definition answer_inv :: "pool \<Rightarrow> bool" where
  "answer_inv p \<longleftrightarrow> mset (requests p) = answers_of (hs p) + pending p"

lemma worker_step_answers:
  assumes "worker_step e now x s = Some (x', s')"
  shows "answers_of s' + mset (map task_handler (tasks s')) + mset (owes x')
    = answers_of s + mset (map task_handler (tasks s)) + mset (owes x)"
  using assms by (cases rule: worker_step_cases) (simp_all add: ac_simps)

lemma accept_request_answers:
  assumes "accept_request e body h s = (t, s')"
  shows "answers_of s' + mset (case t of None \<Rightarrow> [] | Some tk \<Rightarrow> [task_handler tk])
    = answers_of s + {#h#}"
  using accept_request_cases [OF assms] by (auto simp: answered_def queued_def)

text \<open>A call adds one answer given or owed, an internal step keeps the sum.\<close>

lemma client_conserves:
  assumes "client e p p'" "requests p' = requests p @ [h]"
  shows "answers_of (hs p') + pending p' = add_mset h (answers_of (hs p) + pending p)"
  using assms(1)
proof cases
  case (request body h' t s')
  then have h: "h' = h" using assms(2) by simp
  have "mset (map task_handler (case t of None \<Rightarrow> [] | Some tk \<Rightarrow> [tk]))
      = mset (case t of None \<Rightarrow> [] | Some tk \<Rightarrow> [task_handler tk])"
    by (cases t) simp_all
  moreover have "tasks s' = tasks (hs p)"
    using client_frame [OF assms(1)] request(1) by simp
  ultimately show ?thesis
    using request accept_request_answers [OF request(2)] by (simp add: pending_def ac_simps h)
qed (use assms(2) in \<open>simp_all add: pending_def del: map_append\<close>)

lemma internal_conserves:
  assumes "internal e p p'"
  shows "answers_of (hs p') + pending p' = answers_of (hs p) + pending p"
  using assms
proof cases
  case (post xs t ys)
  then show ?thesis by (simp add: pending_def)
next
  case (worker w now x s')
  note u = mset_concat_update [OF worker(2), of owes x] and a = worker_step_answers [OF worker(3)]
  have "answers_of s' + mset (map task_handler (tasks s')) + mset (concat (map owes ((workers p)[w := x])))
      = answers_of (hs p) + mset (map task_handler (tasks (hs p))) + mset (concat (map owes (workers p)))"
    using u a by (rule exchange_eq)
  then show ?thesis using worker(1) by (simp add: pending_def ac_simps)
qed

lemma reachable_answers: "reachable e d p \<Longrightarrow> answer_inv p"
proof (erule reachable_invariant)
  show "answer_inv (new_pool (conf e) d)"
    by (simp add: answer_inv_def pending_def new_pool_def)
next
  fix p p' assume "answer_inv p" and st: "client e p p'"
  from st obtain h where "requests p' = requests p @ [h]" by cases auto
  with client_conserves [OF st this] \<open>answer_inv p\<close> show "answer_inv p'" by (simp add: answer_inv_def)
next
  fix p p' assume "answer_inv p" and st: "internal e p p'"
  from st have "requests p' = requests p" by cases simp_all
  with internal_conserves [OF st] \<open>answer_inv p\<close> show "answer_inv p'" by (simp add: answer_inv_def)
qed

subsection \<open>No job is stranded\<close>

fun fetched :: "worker \<Rightarrow> bool" where
  "fetched (Fetched t) = True"
| "fetched _ = False"

definition closure_inv :: "pool \<Rightarrow> bool" where
  "closure_inv p \<longleftrightarrow> length (jobs (hs p)) \<le>
     length (posting p) + length (tasks (hs p)) + length (filter fetched (workers p))"

lemma length_pop_job: "length (snd (pop_job q)) = length q - 1"
  by (simp add: pop_job_def length_pq_pop)

lemma worker_step_closures:
  assumes "worker_step e now x s = Some (x', s')"
    and "length (jobs s) \<le> n + length (tasks s) + (if fetched x then 1 else 0)"
  shows "length (jobs s') \<le> n + length (tasks s') + (if fetched x' then 1 else 0)"
  using assms(1)
proof (cases rule: worker_step_cases)
  case (take t j q)
  then have "length q = length (jobs s) - 1" using length_pop_job [of "jobs s"] by simp
  then show ?thesis using take assms(2) by simp
qed (use assms(2) in simp_all)

lemma reachable_closures: "reachable e d p \<Longrightarrow> heap comparator (jobs (hs p)) \<and> closure_inv p"
proof (erule reachable_invariant)
  show "heap comparator (jobs (hs (new_pool (conf e) d))) \<and> closure_inv (new_pool (conf e) d)"
    by (simp add: closure_inv_def new_pool_def jobs.invar_empty [unfolded pq_empty_def])
next
  fix p p' assume I: "heap comparator (jobs (hs p)) \<and> closure_inv p" and st: "client e p p'"
  note fr = client_frame [OF st]
  from st show "heap comparator (jobs (hs p')) \<and> closure_inv p'"
  proof cases
    case (request body h t s')
    then show ?thesis
      using accept_request_cases [OF request(2)] I fr answered_sub [of "hs p" h s']
        answered_length [of "hs p" h s']
      by (auto simp: closure_inv_def queued_def heap_push_job)
  qed (use I in \<open>auto simp: closure_inv_def jobs.invar_empty [unfolded pq_empty_def]\<close>)
next
  fix p p' assume I: "heap comparator (jobs (hs p)) \<and> closure_inv p" and st: "internal e p p'"
  from st show "heap comparator (jobs (hs p')) \<and> closure_inv p'"
  proof cases
    case (post xs t ys)
    then show ?thesis using I by (simp add: closure_inv_def)
  next
    case (worker w now x s')
    have "heap comparator (jobs s')"
      using worker_step_jobs [OF worker(3)] I by (auto simp: queue_inv_pop [OF _ le_refl])
    moreover have "closure_inv p'"
      using I worker(1)
        worker_step_closures [OF worker(3), of "length (posting p) + length (filter fetched ((workers p)[w := Idle]))"]
        length_filter_update [OF worker(2), of fetched x]
        length_filter_update [OF worker(2), of fetched Idle]
      by (simp add: closure_inv_def)
    ultimately show ?thesis using worker(1) by simp
  qed
qed

subsection \<open>Devices\<close>

text \<open>
  The device a worker holds, and how far it has come: a search that probes device \<open>i\<close> and a
  worker that holds device \<open>i\<close> are both at level \<open>i\<close>. At most \<open>N - i\<close> workers are at level
  \<open>i\<close> or above, so no search gets past the last of the \<open>N\<close> devices.
\<close>

fun held :: "worker \<Rightarrow> nat option" where
  "held (Holds t j i) = Some i"
| "held (Working t j i) = Some i"
| "held (Finished t j i r) = Some i"
| "held (Answered j i) = Some i"
| "held _ = None"

fun level :: "worker \<Rightarrow> nat option" where
  "level (Scan t j i) = Some i"
| "level x = held x"

definition at_least :: "nat \<Rightarrow> worker \<Rightarrow> bool" where
  "at_least i x \<longleftrightarrow> (\<exists>k. level x = Some k \<and> i \<le> k)"

definition holders_inv :: "nat \<Rightarrow> registered_device list \<Rightarrow> worker list \<Rightarrow> bool" where
  "holders_inv n ds ws \<longleftrightarrow>
     (\<forall>i < n. busy (ds ! i) \<longleftrightarrow> (\<exists>w < n. held (ws ! w) = Some i)) \<and>
     (\<forall>w < n. \<forall>v < n. \<forall>i. held (ws ! w) = Some i \<longrightarrow> held (ws ! v) = Some i \<longrightarrow> w = v) \<and>
     (\<forall>w < n. \<forall>i. held (ws ! w) = Some i \<longrightarrow> i < n)"

definition levels_inv :: "nat \<Rightarrow> worker list \<Rightarrow> bool" where
  "levels_inv n ws \<longleftrightarrow> (\<forall>i \<le> n. length (filter (at_least i) ws) + i \<le> n)"

definition device_inv :: "nat \<Rightarrow> registered_device list \<Rightarrow> worker list \<Rightarrow> bool" where
  "device_inv n ds ws \<longleftrightarrow> length ds = n \<and> length ws = n \<and> holders_inv n ds ws \<and> levels_inv n ws"

lemma held_level: "held x = Some i \<Longrightarrow> level x = Some i"
  by (cases x) auto

lemma at_least_simps [simp]:
  "\<not> at_least i Idle" "\<not> at_least i (Fetched t)" "at_least i (Scan t j k) \<longleftrightarrow> i \<le> k"
  "at_least i (Holds t j k) \<longleftrightarrow> i \<le> k" "at_least i (Working t j k) \<longleftrightarrow> i \<le> k"
  "at_least i (Finished t j k r) \<longleftrightarrow> i \<le> k" "at_least i (Answered j k) \<longleftrightarrow> i \<le> k"
  "\<not> at_least i (Released j)" "\<not> at_least i (Stopped j)"
  by (simp_all add: at_least_def)

lemma at_least_update:
  "w < length ws \<Longrightarrow> (at_least i x \<longrightarrow> at_least i (ws ! w)) \<Longrightarrow>
     length (filter (at_least i) (ws[w := x])) \<le> length (filter (at_least i) ws)"
  using length_filter_update [of w ws "at_least i" x] by (auto split: if_splits)

lemma levels_mono:
  assumes "levels_inv n ws" "w < length ws" "length ws = n"
    and "\<And>i. 0 < i \<Longrightarrow> at_least i x \<Longrightarrow> at_least i (ws ! w)"
  shows "levels_inv n (ws[w := x])"
  unfolding levels_inv_def
proof (intro allI impI)
  fix i assume i: "i \<le> n"
  show "length (filter (at_least i) (ws[w := x])) + i \<le> n"
  proof (cases "i = 0")
    case True
    then show ?thesis using length_filter_le [of "at_least 0" "ws[w := x]"] assms(3) by simp
  next
    case False
    then have "length (filter (at_least i) (ws[w := x])) \<le> length (filter (at_least i) ws)"
      using assms(2,4) by (intro at_least_update) auto
    then show ?thesis using assms(1) i by (fastforce simp: levels_inv_def)
  qed
qed

lemma holders_invD:
  assumes "holders_inv n ds ws"
  shows "k < n \<Longrightarrow> busy (ds ! k) \<longleftrightarrow> (\<exists>w < n. held (ws ! w) = Some k)"
    and "v < n \<Longrightarrow> u < n \<Longrightarrow> held (ws ! v) = Some k \<Longrightarrow> held (ws ! u) = Some k \<Longrightarrow> v = u"
    and "v < n \<Longrightarrow> held (ws ! v) = Some k \<Longrightarrow> k < n"
  using assms unfolding holders_inv_def by blast+

text \<open>With as many devices as workers, a worker that holds none leaves one free.\<close>

lemma free_for_idle:
  assumes "holders_inv n ds ws" "w < n" "held (ws ! w) = None"
  shows "\<exists>i < n. \<not> busy (ds ! i)"
proof (rule ccontr)
  assume "\<not> (\<exists>i < n. \<not> busy (ds ! i))"
  then have "\<forall>i < n. \<exists>v < n. held (ws ! v) = Some i"
    using holders_invD(1) [OF assms(1)] by blast
  then obtain f where f: "\<And>i. i < n \<Longrightarrow> f i < n \<and> held (ws ! f i) = Some i" by metis
  then have "inj_on f {..<n}" by (metis inj_onI lessThan_iff option.inject)
  moreover have "f ` {..<n} \<subseteq> {..<n} - {w}" using f assms(3) by fastforce
  ultimately have "card {..<n} \<le> card ({..<n} - {w})" by (intro card_inj_on_le) simp_all
  then show False using assms(2) by simp
qed

lemma holders_same:
  assumes "holders_inv n ds ws" "held x = held (ws ! w)" "w < length ws"
  shows "holders_inv n ds (ws[w := x])"
proof -
  have "held (ws[w := x] ! v) = held (ws ! v)" for v
  proof (cases "v = w")
    case True
    show ?thesis unfolding True nth_list_update_eq [OF assms(3)] by (rule assms(2))
  next
    case False
    then have "ws[w := x] ! v = ws ! v" by (intro nth_list_update_neq) blast
    then show ?thesis by (rule arg_cong)
  qed
  then show ?thesis using assms(1) unfolding holders_inv_def by (simp only:)
qed

text \<open>The step that finds device \<open>i\<close> busy: its holder is a second worker at level \<open>i\<close>.\<close>

lemma levels_skip:
  assumes "levels_inv n ws" "holders_inv n ds ws" "length ws = n"
    and "w < n" "ws ! w = Scan t j i" "i < n" "busy (ds ! i)"
  shows "levels_inv n (ws[w := Scan t j (Suc i)])"
  unfolding levels_inv_def
proof (intro allI impI)
  fix k assume k: "k \<le> n"
  obtain v where v: "v < n" "held (ws ! v) = Some i"
    using assms(2,6,7) by (auto simp: holders_inv_def)
  then have lv: "level (ws ! v) = Some i" by (simp add: held_level)
  have "w \<noteq> v" using v assms(5) by auto
  then have two: "length (filter (at_least (Suc i)) ws) + 2 \<le> length (filter (at_least i) ws)"
    using assms(3-5) v(1) lv
    by (intro length_filter_two [of _ _ w _ v]) (auto simp: at_least_def)
  have old: "length (filter (at_least m) ws) + m \<le> n" if "m \<le> n" for m
    using assms(1) that by (simp add: levels_inv_def)
  show "length (filter (at_least k) (ws[w := Scan t j (Suc i)])) + k \<le> n"
  proof (cases "k = Suc i")
    case True
    have "length (filter (at_least k) (ws[w := Scan t j (Suc i)])) = Suc (length (filter (at_least k) ws))"
      using length_filter_update [of w ws "at_least k" "Scan t j (Suc i)"] assms(3-5) True by simp
    with two old [of i] assms(6) True show ?thesis by simp
  next
    case False
    then have "length (filter (at_least k) (ws[w := Scan t j (Suc i)])) \<le> length (filter (at_least k) ws)"
      using assms(3-5) by (intro at_least_update) auto
    with old [OF k] show ?thesis by simp
  qed
qed

lemma holders_acquire:
  assumes "holders_inv n ds ws" "length ds = n" "length ws = n"
    and "w < n" "held (ws ! w) = None" "i < n" "\<not> busy (ds ! i)" "busy d" "held x = Some i"
  shows "holders_inv n (ds[i := d]) (ws[w := x])"
proof -
  note inv = holders_invD [OF assms(1)]
  have free: "held (ws ! v) \<noteq> Some i" if "v < n" for v
    using inv(1) [OF assms(6)] assms(7) that by blast
  have upd: "held (ws[w := x] ! v) = (if v = w then Some i else held (ws ! v))" for v
    using assms(3,4,9) by simp
  have "busy (ds[i := d] ! k) \<longleftrightarrow> (\<exists>v < n. held (ws[w := x] ! v) = Some k)" if "k < n" for k
  proof (cases "k = i")
    case True
    then show ?thesis using assms(2,4,6,8) upd by auto
  next
    case False
    then have "(\<exists>v < n. held (ws[w := x] ! v) = Some k) \<longleftrightarrow> (\<exists>v < n. held (ws ! v) = Some k)"
      unfolding upd using assms(5) by (metis option.distinct(1) option.inject)
    with False inv(1) [OF that] show ?thesis by simp
  qed
  moreover have "v = u" if "v < n" "u < n" "held (ws[w := x] ! v) = Some k"
    "held (ws[w := x] ! u) = Some k" for v u k
    using that free inv(2) [of v u k] unfolding upd by (auto split: if_splits)
  moreover have "k < n" if "v < n" "held (ws[w := x] ! v) = Some k" for v k
    using that inv(3) [of v k] assms(6) unfolding upd by (auto split: if_splits)
  ultimately show ?thesis unfolding holders_inv_def by blast
qed

lemma holders_release:
  assumes "holders_inv n ds ws" "length ds = n" "length ws = n"
    and "w < n" "held (ws ! w) = Some i" "held x = None" "\<not> busy d"
  shows "holders_inv n (ds[i := d]) (ws[w := x])"
proof -
  note inv = holders_invD [OF assms(1)]
  have i: "i < n" using inv(3) assms(4,5) by blast
  have only: "v = w" if "v < n" "held (ws ! v) = Some i" for v
    using inv(2) [OF that(1) assms(4) that(2) assms(5)] .
  have upd: "held (ws[w := x] ! v) = (if v = w then None else held (ws ! v))" for v
    using assms(3,4,6) by simp
  have "busy (ds[i := d] ! k) \<longleftrightarrow> (\<exists>v < n. held (ws[w := x] ! v) = Some k)" if "k < n" for k
  proof (cases "k = i")
    case True
    then show ?thesis using assms(2,7) i only upd by auto
  next
    case False
    then have "(\<exists>v < n. held (ws[w := x] ! v) = Some k) \<longleftrightarrow> (\<exists>v < n. held (ws ! v) = Some k)"
      unfolding upd using assms(5) by (metis option.distinct(1) option.inject)
    with False inv(1) [OF that] show ?thesis by simp
  qed
  moreover have "v = u" if "v < n" "u < n" "held (ws[w := x] ! v) = Some k"
    "held (ws[w := x] ! u) = Some k" for v u k
    using that inv(2) [of v u k] unfolding upd by (auto split: if_splits)
  moreover have "k < n" if "v < n" "held (ws[w := x] ! v) = Some k" for v k
    using that inv(3) [of v k] unfolding upd by (auto split: if_splits)
  ultimately show ?thesis unfolding holders_inv_def by blast
qed

lemma level_below:
  assumes "levels_inv n ws" "w < length ws" "level (ws ! w) = Some i"
  shows "i < n"
proof (rule ccontr)
  assume "\<not> i < n"
  then have "ws ! w \<in> set (filter (at_least n) ws)"
    using assms(2,3) by (auto simp: at_least_def)
  then have "0 < length (filter (at_least n) ws)" by (rule length_pos_if_in_set)
  with assms(1) show False unfolding levels_inv_def by fastforce
qed

lemma device_inv_same:
  assumes "device_inv n ds ws" "w < n" "held x = held (ws ! w)"
    and "\<And>i. 0 < i \<Longrightarrow> at_least i x \<Longrightarrow> at_least i (ws ! w)"
  shows "device_inv n ds (ws[w := x])"
  using assms levels_mono [of n ws w x] holders_same [of n ds ws x w] by (simp add: device_inv_def)

lemma device_inv_step:
  assumes I: "device_inv n (h_devices s) ws" and w: "w < n"
    and "worker_step e now (ws ! w) s = Some (x, s')" and ok: "\<And>ex. job_result_of e \<noteq> Inl ex"
  shows "device_inv n (h_devices s') (ws[w := x])"
  using assms(3)
proof (cases rule: worker_step_cases)
  case (skip t j i)
  then have "device_inv n (h_devices s) (ws[w := x])"
    using I w levels_skip [of n ws "h_devices s" w t j i] holders_same [of n "h_devices s" ws x w]
    by (simp add: device_inv_def)
  with skip show ?thesis by simp
next
  case (acquire t j i)
  have "levels_inv n (ws[w := x])"
    using I w acquire(1,4) by (intro levels_mono) (simp_all add: device_inv_def)
  then show ?thesis
    using I w acquire holders_acquire [of n "h_devices s" ws w i _ x] by (simp add: device_inv_def)
next
  case (no_device t j i)
  have "level (ws ! w) = Some i" using no_device(1) by simp
  then have "i < n" using I w level_below [of n ws w i] by (simp add: device_inv_def)
  then show ?thesis using I no_device(2) by (simp add: device_inv_def)
next
  case (release j i)
  have "levels_inv n (ws[w := x])"
    using I w release(1,2) by (intro levels_mono) (simp_all add: device_inv_def)
  then show ?thesis
    using I w release holders_release [of n "h_devices s" ws w i x] by (simp add: device_inv_def)
qed (use ok in \<open>auto intro!: device_inv_same [OF I w]\<close>)

lemma levels_start: "levels_inv n (replicate n Idle)"
  by (simp add: levels_inv_def)

lemma reachable_devices:
  assumes "libs_laws (libs e)" "reachable e d p"
  shows "device_inv (length (devices (conf e))) (h_devices (hs p)) (workers p)"
  using assms(2)
proof (rule reachable_invariant)
  show "device_inv (length (devices (conf e))) (h_devices (hs (new_pool (conf e) d)))
      (workers (new_pool (conf e) d))"
    by (simp add: new_pool_def device_inv_def levels_start holders_inv_def)
next
  fix p p' assume "device_inv (length (devices (conf e))) (h_devices (hs p)) (workers p)"
    and "client e p p'"
  then show "device_inv (length (devices (conf e))) (h_devices (hs p')) (workers p')"
    using client_frame [of e p p'] by simp
next
  fix p p' assume I: "device_inv (length (devices (conf e))) (h_devices (hs p)) (workers p)"
    and st: "internal e p p'"
  obtain rr where "job_result_of e = Inr rr" using job_result_of_ok [OF assms(1)] by blast
  then have ok: "job_result_of e \<noteq> Inl ex" for ex by simp
  from st show "device_inv (length (devices (conf e))) (h_devices (hs p')) (workers p')"
  proof cases
    case (worker w now x s')
    then show ?thesis
      using device_inv_step [OF I _ worker(3) ok] I by (simp add: device_inv_def)
  qed (use I in simp)
qed


subsection \<open>Job ids\<close>

lemma fill_job_id: "fill_job e req j0 = Inr j \<Longrightarrow> job_id j = job_id j0"
  by (auto simp: fill_job_spec)

lemma make_job_ids:
  "make_job e req s = (r, s') \<Longrightarrow>
     job_id_dispenser s' \<in> {job_id_dispenser s, job_id_dispenser s + 1} \<and>
     (\<forall>j. r = Inr j \<longrightarrow> job_id j = job_id_dispenser s \<and> job_id_dispenser s' = job_id_dispenser s + 1)"
  by (auto simp: make_job_def new_job_def bind_throws_Inr_iff dest!: fill_job_id split: sum.splits)

lemma work_generate_ids:
  assumes "work_generate e req cid h s = (r, s')"
  shows "job_id_dispenser s' \<in> {job_id_dispenser s, job_id_dispenser s + 1} \<and>
     (\<forall>t. r = Inr t \<longrightarrow> (\<exists>j. jobs s' = push_job j (jobs s) \<and> job_id j = job_id_dispenser s \<and>
        job_id_dispenser s' = job_id_dispenser s + 1))"
proof -
  obtain r1 s1 where m: "make_job e req s = (r1, s1)" by fastforce
  show ?thesis
    using assms make_job_ids [OF m] make_job_frame [OF m]
    by (auto simp: work_generate_def m enqueue_job_def split: sum.splits if_splits)
qed

lemma work_cancel_ids:
  "work_cancel e req cid s = (r, s') \<Longrightarrow> job_id_dispenser s' = job_id_dispenser s"
  by (auto simp: work_cancel_def Let_def split: option.splits sum.splits prod.splits if_splits)

lemma dispatch_ids:
  assumes "dispatch e req cid h s = (r, s')"
  shows "job_id_dispenser s' \<in> {job_id_dispenser s, job_id_dispenser s + 1} \<and>
     (\<forall>t. r = Inr (Some t) \<longrightarrow> (\<exists>j. jobs s' = push_job j (jobs s) \<and> job_id j = job_id_dispenser s \<and>
        job_id_dispenser s' = job_id_dispenser s + 1))"
proof -
  obtain r1 s1 r2 s2 where g: "work_generate e req cid h s = (r1, s1)"
    and c: "work_cancel e req cid s = (r2, s2)" by fastforce
  show ?thesis
    using assms work_generate_ids [OF g] work_cancel_ids [OF c]
    by (auto simp: dispatch_def g c Let_def split: if_splits sum.splits)
qed

lemma accept_request_ids:
  assumes "accept_request e body h s = (t, s')"
  shows "job_id_dispenser s' \<in> {job_id_dispenser s, job_id_dispenser s + 1} \<and>
     (\<forall>tk. t = Some tk \<longrightarrow> (\<exists>j. jobs s' = push_job j (jobs s) \<and> job_id j = job_id_dispenser s \<and>
        job_id_dispenser s' = job_id_dispenser s + 1))"
proof (cases "read_json (json e) body")
  case (Inl ex)
  then show ?thesis using assms by (auto simp: accept_request_def)
next
  case (Inr req)
  obtain r s1 where d: "dispatch e req (get_str (json e) req ''id'') h s = (r, s1)" by fastforce
  show ?thesis
    using assms dispatch_ids [OF d] Inr
    by (cases r) (auto simp: accept_request_def d)
qed

text \<open>The jobs a worker carries, and those it has entered into the active set.\<close>

fun carried :: "worker \<Rightarrow> job list" where
  "carried Idle = []"
| "carried (Fetched t) = []"
| "carried (Scan t j i) = [j]"
| "carried (Holds t j i) = [j]"
| "carried (Working t j i) = [j]"
| "carried (Finished t j i r) = [j]"
| "carried (Answered j i) = [j]"
| "carried (Released j) = [j]"
| "carried (Stopped j) = [j]"

fun worked :: "worker \<Rightarrow> job list" where
  "worked (Scan t j i) = []"
| "worked (Holds t j i) = []"
| "worked x = carried x"

definition live_ids :: "handler \<Rightarrow> worker list \<Rightarrow> 32 word multiset" where
  "live_ids s ws = mset (map job_id (jobs s)) + mset (concat (map (map job_id \<circ> carried) ws))"

text \<open>
  With fewer than \<open>2^32\<close> requests since the start, no two live jobs share an id: every live
  id was drawn, and a number is drawn at most once.
\<close>

definition id_inv :: "32 word \<Rightarrow> pool \<Rightarrow> bool" where
  "id_inv d p \<longleftrightarrow> (length (requests p) < 2 ^ 32 \<longrightarrow>
     (\<exists>n \<le> length (requests p). job_id_dispenser (hs p) = d + of_nat n \<and>
        live_ids (hs p) (workers p) \<subseteq># mset (map (\<lambda>k. d + of_nat k) [0..<n])))"

lemma worker_step_ids:
  assumes "worker_step e now x s = Some (x', s')" "heap comparator (jobs s)"
  shows "mset (map job_id (jobs s')) + mset (map job_id (carried x'))
      \<subseteq># mset (map job_id (jobs s)) + mset (map job_id (carried x)) \<and>
    job_id_dispenser s' = job_id_dispenser s"
  using assms(1)
proof (cases rule: worker_step_cases)
  case (take t j q)
  have "j \<in> set (jobs s)" "mset q = mset (jobs s) - {#j#}"
    using pop_job_Some [OF assms(2) take(2)] by auto
  then have "mset (map job_id q) + {#job_id j#} = mset (map job_id (jobs s))"
    by (simp flip: image_mset_add_mset)
  with take show ?thesis by simp
qed simp_all


lemma exchange_le:
  fixes A :: "'a multiset"
  assumes "X' + a = X + b" "A' + b \<subseteq># A + a"
  shows "A' + X' \<subseteq># A + X"
proof -
  have "A' + X' + a = (A' + b) + X" using assms(1) by (metis add.assoc add.commute)
  also have "\<dots> \<subseteq># A + a + X" using assms(2) by simp
  finally show ?thesis by (metis add.assoc add.commute subset_mset.add_le_cancel_right)
qed

lemma live_ids_step:
  assumes "worker_step e now (ws ! w) s = Some (x, s')" "heap comparator (jobs s)" "w < length ws"
  shows "live_ids s' (ws[w := x]) \<subseteq># live_ids s ws"
proof -
  have "mset (concat (map (map job_id \<circ> carried) (ws[w := x]))) + mset (map job_id (carried (ws ! w)))
      = mset (concat (map (map job_id \<circ> carried) ws)) + mset (map job_id (carried x))"
    using mset_concat_update [OF assms(3), of "map job_id \<circ> carried" x] by (simp only: comp_apply)
  then show ?thesis
    unfolding live_ids_def using worker_step_ids [OF assms(1,2)] by (blast intro: exchange_le)
qed

lemma drawn_mono: "n \<le> m \<Longrightarrow> mset (map f [0..<n]) \<subseteq># mset (map f [0..<m])"
  by (metis le_add_diff_inverse map_append mset_append mset_subset_eq_add_left plus_nat.add_0 upt_add_eq_append zero_le)

lemma id_inv_client:
  assumes "id_inv d p" "heap comparator (jobs (hs p))" "client e p p'"
  shows "id_inv d p'"
  unfolding id_inv_def
proof
  let ?ids = "\<lambda>n. mset (map (\<lambda>k. d + of_nat k) [0..<n])"
  let ?goal = "\<exists>n \<le> length (requests p'). job_id_dispenser (hs p') = d + of_nat n \<and>
      live_ids (hs p') (workers p') \<subseteq># ?ids n"
  assume "length (requests p') < 2 ^ 32"
  moreover have len: "length (requests p') = Suc (length (requests p))"
    using assms(3) by cases simp_all
  ultimately obtain n where n: "n \<le> length (requests p)" "job_id_dispenser (hs p) = d + of_nat n"
    "live_ids (hs p) (workers p) \<subseteq># ?ids n"
    using assms(1) by (auto simp: id_inv_def)
  have w: "workers p' = workers p" using client_frame [OF assms(3)] by simp
  have keep: ?goal if "mset (jobs (hs p')) \<subseteq># mset (jobs (hs p))"
    "job_id_dispenser (hs p') \<in> {job_id_dispenser (hs p), job_id_dispenser (hs p) + 1}"
  proof -
    have "live_ids (hs p') (workers p') \<subseteq># live_ids (hs p) (workers p)"
      using image_mset_subseteq_mono [OF that(1), of job_id] by (simp add: live_ids_def w)
    then have "live_ids (hs p') (workers p') \<subseteq># ?ids n" "live_ids (hs p') (workers p') \<subseteq># ?ids (Suc n)"
      using n(3) drawn_mono [of n "Suc n"] by (blast intro: subset_mset.order_trans le_SucI)+
    moreover have "job_id_dispenser (hs p') = d + of_nat n \<or> job_id_dispenser (hs p') = d + of_nat (Suc n)"
      using that(2) n(2) by (auto simp: ac_simps)
    moreover have "n \<le> length (requests p')" "Suc n \<le> length (requests p')" using n(1) len by simp_all
    ultimately show ?thesis by blast
  qed
  from assms(3) show ?goal
  proof cases
    case (request body h t s')
    consider (answered) "answered h (hs p) s'" | (queued) tk where "t = Some tk"
      using accept_request_cases [OF request(2)] by blast
    then show ?thesis
    proof cases
      case answered
      then show ?thesis
        using keep answered_sub [OF assms(2)] accept_request_ids [OF request(2)] request(1) by simp
    next
      case queued
      then obtain j where j: "jobs s' = push_job j (jobs (hs p))" "job_id j = d + of_nat n"
        "job_id_dispenser s' = d + of_nat (Suc n)"
        using accept_request_ids [OF request(2)] n(2) by (auto simp: ac_simps)
      have "live_ids s' (workers p) = add_mset (d + of_nat n) (live_ids (hs p) (workers p))"
        by (simp add: live_ids_def j mset_push_job)
      then have "live_ids s' (workers p) \<subseteq># ?ids (Suc n)" using n(3) by simp
      with j(3) n(1) len request(1) show ?thesis by (intro exI [of _ "Suc n"]) simp
    qed
  next
    case (list h)
    then show ?thesis using keep by simp
  next
    case (delete h)
    then show ?thesis using keep by simp
  qed
qed

lemma reachable_ids: "reachable e d p \<Longrightarrow> heap comparator (jobs (hs p)) \<and> id_inv d p"
proof (erule reachable_invariant)
  show "heap comparator (jobs (hs (new_pool (conf e) d))) \<and> id_inv d (new_pool (conf e) d)"
    by (simp add: id_inv_def new_pool_def live_ids_def jobs.invar_empty [unfolded pq_empty_def])
next
  fix p p' assume I: "heap comparator (jobs (hs p)) \<and> id_inv d p" and st: "client e p p'"
  have "heap comparator (jobs (hs p'))" using heap_client [OF st] I by blast
  then show "heap comparator (jobs (hs p')) \<and> id_inv d p'"
    using id_inv_client [OF _ _ st] I by blast
next
  fix p p' assume I: "heap comparator (jobs (hs p)) \<and> id_inv d p" and st: "internal e p p'"
  have h: "heap comparator (jobs (hs p'))" using heap_internal [OF st] I by blast
  from st have "id_inv d p'"
  proof cases
    case (post xs t ys)
    then show ?thesis using I by (simp add: id_inv_def live_ids_def)
  next
    case (worker w now x s')
    have "live_ids s' ((workers p)[w := x]) \<subseteq># live_ids (hs p) (workers p)"
      using live_ids_step [OF worker(3) _ worker(2)] I by blast
    moreover have "job_id_dispenser s' = job_id_dispenser (hs p)"
      using worker_step_ids [OF worker(3)] I by blast
    ultimately show ?thesis
      using I worker(1) by (fastforce simp: id_inv_def intro: subset_mset.order_trans)
  qed
  with h show "heap comparator (jobs (hs p')) \<and> id_inv d p'" by blast
qed

lemma live_ids_distinct:
  assumes "id_inv d p" "length (requests p) < 2 ^ 32"
  shows "count (live_ids (hs p) (workers p)) i \<le> 1"
proof -
  obtain n where "n \<le> length (requests p)" and
    "live_ids (hs p) (workers p) \<subseteq># mset (map (\<lambda>k. d + of_nat k) [0..<n])"
    using assms unfolding id_inv_def by blast
  with assms(2) have n: "n < 2 ^ 32"
    "live_ids (hs p) (workers p) \<subseteq># mset (map (\<lambda>k. d + of_nat k) [0..<n])" by linarith+
  have "inj_on (\<lambda>k. d + of_nat k :: 32 word) {0..<n}"
  proof (rule inj_onI)
    fix a b assume ab: "a \<in> {0..<n}" "b \<in> {0..<n}" "d + of_nat a = d + (of_nat b :: 32 word)"
    then have "unat (of_nat a :: 32 word) = unat (of_nat b :: 32 word)" by (simp only: add_left_cancel)
    moreover have "a < 2 ^ 32" "b < 2 ^ 32" using ab(1,2) n(1) by auto
    moreover have "unat (of_nat c :: 32 word) = c" if "c < 2 ^ 32" for c
      using that by (simp add: unat_of_nat)
    ultimately show "a = b" by (simp only:)
  qed
  then have "distinct (map (\<lambda>k. d + of_nat k :: 32 word) [0..<n])"
    by (simp add: distinct_map)
  then have "count (mset (map (\<lambda>k. d + of_nat k) [0..<n])) i \<le> 1"
    by (metis count_mset_0_iff distinct_count_atmost_1 le_numeral_extra(3,4) linorder_le_cases not_one_le_zero)
  with mset_subset_eq_count [OF n(2), of i] show ?thesis by linarith
qed

subsection \<open>The active set\<close>

lemma mset_set_insert:
  "key x \<notin> key ` set ys \<Longrightarrow> mset (set_insert comparator x ys) = add_mset x (mset ys)"
proof (induction ys)
  case (Cons y ys)
  then have "comparator x y \<or> comparator y x" by (simp add: comparator_ne del: key_eq_iff)
  with Cons show ?case by auto
qed simp

lemma mset_set_refresh:
  assumes "mset ys = add_mset j R" "key x = key j" "key j \<notin> key ` set_mset R"
  shows "mset (set_refresh comparator x ys) = add_mset x R"
proof -
  have "mset (set_refresh comparator x ys) = image_mset (\<lambda>y. if key x \<noteq> key y then y else x) (mset ys)"
    by (simp add: set_refresh_def comparator_ne del: key_eq_iff)
  also have "\<dots> = add_mset x (image_mset (\<lambda>y. if key x \<noteq> key y then y else x) R)"
    by (simp add: assms(1,2) del: key_eq_iff)
  also have "image_mset (\<lambda>y. if key x \<noteq> key y then y else x) R = image_mset id R"
    using assms(2,3) by (intro image_mset_cong) (auto simp del: key_eq_iff)
  finally show ?thesis by simp
qed

lemma mset_set_erase:
  assumes "mset ys = add_mset j R" "key j \<notin> key ` set_mset R"
  shows "mset (set_erase comparator j ys) = R"
proof -
  have "mset (set_erase comparator j ys) = filter_mset (\<lambda>y. key j \<noteq> key y) (mset ys)"
    by (simp add: set_erase_def comparator_ne del: key_eq_iff)
  also have "\<dots> = filter_mset (\<lambda>y. key j \<noteq> key y) R" by (simp add: assms(1) del: key_eq_iff)
  also have "\<dots> = R"
    using assms(2) by (intro filter_mset_eq_all) (auto simp del: key_eq_iff)
  finally show ?thesis .
qed

definition in_work :: "worker list \<Rightarrow> job multiset" where
  "in_work ws = mset (concat (map worked ws))"

lemma worked_carried: "mset (worked x) \<subseteq># mset (carried x)"
  by (cases x) auto

text \<open>All workers but one.\<close>

abbreviation others :: "nat \<Rightarrow> worker list \<Rightarrow> worker list" where
  "others w ws \<equiv> take w ws @ drop (Suc w) ws"

lemma split_worker:
  assumes "w < length ws"
  shows "mset (concat (map f ws)) = mset (f (ws ! w)) + mset (concat (map f (others w ws)))"
  by (subst id_take_nth_drop [OF assms]) (simp add: ac_simps)

lemma split_updated:
  assumes "w < length ws"
  shows "mset (concat (map f (ws[w := x]))) = mset (f x) + mset (concat (map f (others w ws)))"
  by (simp add: upd_conv_take_nth_drop [OF assms] ac_simps)

lemma mset_worked_carried: "mset (concat (map worked R)) \<subseteq># mset (concat (map carried R))"
  by (induction R) (auto intro: subset_mset.add_mono worked_carried)

lemma concat_map_comp: "concat (map (map f \<circ> g) xs) = map f (concat (map g xs))"
  by (induction xs) simp_all

text \<open>Distinct live ids: the job of one worker has another key than the active jobs of the others.\<close>

lemma other_keys:
  assumes "count (mset (map job_id [j]) + mset (concat (map (map job_id \<circ> carried) R))) (job_id j) \<le> 1"
  shows "key j \<notin> key ` set_mset (mset (concat (map worked R)))"
proof
  assume "key j \<in> key ` set_mset (mset (concat (map worked R)))"
  then obtain k where "k \<in># mset (concat (map worked R))" "job_id k = job_id j"
    by (metis (no_types, lifting) imageE key_eq_iff)
  then have "k \<in># mset (concat (map carried R))" "job_id k = job_id j"
    using mset_worked_carried [of R] by (blast dest: mset_subset_eqD)+
  then have "job_id j \<in> set (map job_id (concat (map carried R)))"
    by (metis image_eqI set_map set_mset_mset)
  then have "job_id j \<in># mset (concat (map (map job_id \<circ> carried) R))"
    by (simp only: concat_map_comp set_mset_mset)
  then have "1 \<le> count (mset (concat (map (map job_id \<circ> carried) R))) (job_id j)"
    by (simp add: Suc_le_eq)
  with assms show False by simp
qed


lemma active_step:
  assumes active: "mset (active_jobs s) = in_work ws"
    and ids: "\<And>i. count (live_ids s ws) i \<le> 1"
    and step: "worker_step e now (ws ! w) s = Some (x, s')" and w: "w < length ws"
    and ok: "\<And>ex. job_result_of e \<noteq> Inl ex"
  shows "mset (active_jobs s') = in_work (ws[w := x])"
proof -
  define R where "R = others w ws"
  note old = split_worker [OF w, folded R_def] and new = split_updated [OF w, folded R_def]
  let ?R = "mset (concat (map worked R))"
  have A: "mset (active_jobs s) = mset (worked (ws ! w)) + ?R"
    using active old [of worked] by (simp add: in_work_def)
  have W: "in_work (ws[w := x]) = mset (worked x) + ?R"
    using new [of worked] by (simp add: in_work_def)
  have keys: "key j \<notin> key ` set_mset ?R" if "carried (ws ! w) = [j]" for j
  proof (rule other_keys)
    have "live_ids s ws = mset (map job_id (jobs s)) +
        (mset (map job_id [j]) + mset (concat (map (map job_id \<circ> carried) R)))"
      using old [of "map job_id \<circ> carried"] that by (simp add: live_ids_def)
    with ids [of "job_id j"]
    show "count (mset (map job_id [j]) + mset (concat (map (map job_id \<circ> carried) R))) (job_id j) \<le> 1"
      by simp
  qed
  from step show ?thesis
  proof (cases rule: worker_step_cases)
    case (begin_job t j i)
    then have a: "mset (active_jobs s) = ?R" and k: "key (j\<lparr>start_time := now\<rparr>) = key j"
      using A by simp_all
    have "set (active_jobs s) = set_mset ?R" using arg_cong [OF a, of set_mset] by simp
    then have "key (j\<lparr>start_time := now\<rparr>) \<notin> key ` set (active_jobs s)"
      using keys [of j] begin_job(1) by (simp only: k carried.simps not_False_eq_True)
    from mset_set_insert [OF this] show ?thesis using W begin_job(2,3) a by simp
  next
    case (result t j i rr)
    have "mset (active_jobs s) = add_mset j ?R" using A result(1) by simp
    from mset_set_refresh [OF this _ keys, of "j\<lparr>result := fst rr\<rparr>"]
    show ?thesis using W result by simp
  next
    case (stop j)
    have "mset (active_jobs s) = add_mset j ?R" using A stop(1) by simp
    from mset_set_refresh [OF this _ keys, of "j\<lparr>end_time := now\<rparr>"]
    show ?thesis using W stop by simp
  next
    case (done_job j)
    have "mset (active_jobs s) = add_mset j ?R" using A done_job(1) by simp
    from mset_set_erase [OF this keys] show ?thesis using W done_job by simp
  qed (use A W ok in simp_all)
qed

lemma reachable_active:
  assumes "libs_laws (libs e)" "reachable e d p"
  shows "length (requests p) < 2 ^ 32 \<longrightarrow> mset (active_jobs (hs p)) = in_work (workers p)"
proof -
  obtain rr where "job_result_of e = Inr rr" using job_result_of_ok [OF assms(1)] by blast
  then have ok: "job_result_of e \<noteq> Inl ex" for ex by simp
  let ?I = "\<lambda>p. reachable e d p \<and>
    (length (requests p) < 2 ^ 32 \<longrightarrow> mset (active_jobs (hs p)) = in_work (workers p))"
  have "?I p"
    using assms(2)
  proof (rule reachable_invariant)
    show "?I (new_pool (conf e) d)"
      by (simp add: reachable.start) (simp add: new_pool_def in_work_def)
  next
    fix p p' assume I: "?I p" and st: "client e p p'"
    have "length (requests p) \<le> length (requests p')" using st by cases simp_all
    then show "?I p'"
      using I client_frame [OF st] reachable.client [OF _ st] by auto
  next
    fix p p' assume I: "?I p" and st: "internal e p p'"
    have "length (requests p') < 2 ^ 32 \<longrightarrow> mset (active_jobs (hs p')) = in_work (workers p')"
      using st
    proof cases
      case (worker w now x s')
      show ?thesis
      proof
        assume "length (requests p') < 2 ^ 32"
        then have l: "length (requests p) < 2 ^ 32" using worker(1) by simp
        have "count (live_ids (hs p) (workers p)) i \<le> 1" for i
          using live_ids_distinct [OF _ l] reachable_ids [of e d p] I by blast
        then show "mset (active_jobs (hs p')) = in_work (workers p')"
          using active_step [OF _ _ worker(3,2) ok] I l worker(1) by simp
      qed
    qed (use I in simp)
    then show "?I p'" using I reachable.internal [OF _ st] by blast
  qed
  then show ?thesis by blast
qed


subsection \<open>Completed jobs\<close>

lemma reachable_completed:
  assumes "ring_law (ring_push e)" "reachable e d p"
  shows "length (completed_jobs (hs p)) \<le> 128"
  using assms(2)
proof (rule reachable_invariant)
  fix p p' assume I: "length (completed_jobs (hs p)) \<le> 128" and "internal e p p'"
  from this(2) show "length (completed_jobs (hs p')) \<le> 128"
  proof cases
    case (worker w now x s')
    have "length (completed_jobs s') \<le> 128"
      using worker(3) by (cases rule: worker_step_cases) (use assms(1) I in \<open>auto simp: ring_law_def\<close>)
    with worker(1) show ?thesis by simp
  qed (use I in simp)
qed (auto simp: new_pool_def dest: client_frame)

subsection \<open>Termination\<close>

text \<open>How many steps a worker may still need, with \<open>n\<close> devices.\<close>

fun cost :: "nat \<Rightarrow> worker \<Rightarrow> nat" where
  "cost n Idle = 0"
| "cost n (Fetched t) = n + 11"
| "cost n (Scan t j i) = (n - i) + 10"
| "cost n (Holds t j i) = 9"
| "cost n (Working t j i) = 8"
| "cost n (Finished t j i r) = 7"
| "cost n (Answered j i) = 6"
| "cost n (Released j) = 5"
| "cost n (Stopped j) = 4"

definition remaining :: "pool \<Rightarrow> nat" where
  "remaining p = (let n = length (h_devices (hs p)) in
     (n + 13) * length (posting p) + (n + 12) * length (tasks (hs p)) +
     sum_list (map (cost n) (workers p)))"

lemma worker_step_cost:
  assumes "worker_step e now x s = Some (x', s')" "n = length (h_devices s)"
  shows "(n + 12) * length (tasks s') + cost n x' < (n + 12) * length (tasks s) + cost n x \<and>
    length (h_devices s') = length (h_devices s)"
  using assms(1) by (cases rule: worker_step_cases) (use assms(2) in auto)

lemma internal_decreases: "internal e p p' \<Longrightarrow> remaining p' < remaining p"
proof (erule internal.cases)
  fix xs t ys q assume "p = q" "p' = q\<lparr>hs := post_task t (hs q), posting := xs @ ys\<rparr>" "posting q = xs @ t # ys"
  then show "remaining p' < remaining p" by (simp add: remaining_def Let_def algebra_simps)
next
  fix w now x s' q
  assume q: "p = q" "p' = q\<lparr>hs := s', workers := (workers q)[w := x]\<rparr>" "w < length (workers q)"
    and st: "worker_step e now (workers q ! w) (hs q) = Some (x, s')"
  let ?n = "length (h_devices (hs q))"
  note c = worker_step_cost [OF st refl]
  have "sum_list (map (cost ?n) ((workers q)[w := x])) + cost ?n (workers q ! w)
      = sum_list (map (cost ?n) (workers q)) + cost ?n x"
    by (rule sum_list_update [OF q(3)])
  with c q(1,2) show "remaining p' < remaining p" by (simp add: remaining_def Let_def)
qed

lemma worker_step_enabled: "x \<noteq> Idle \<or> tasks s \<noteq> [] \<Longrightarrow> \<exists>x' s'. worker_step e now x s = Some (x', s')"
  by (cases x) (auto simp: Let_def split: list.splits option.splits prod.splits sum.splits)

lemma accept_request_devices:
  assumes "accept_request e body h s = (Some t, s')"
  shows "devices (conf e) \<noteq> []"
proof
  assume "devices (conf e) = []"
  then have "fst (dispatch e req cid h s) \<noteq> Inr (Some t)" for req cid
    by (simp add: dispatch_def work_generate_def Let_def split: sum.split prod.split)
  with assms show False
    by (auto simp: accept_request_def Let_def split: sum.splits prod.splits) (metis fst_conv)
qed

lemma reachable_no_devices:
  "reachable e d p \<Longrightarrow> devices (conf e) = [] \<longrightarrow> posting p = [] \<and> tasks (hs p) = []"
proof (erule reachable_invariant)
  fix p p' assume I: "devices (conf e) = [] \<longrightarrow> posting p = [] \<and> tasks (hs p) = []"
    and st: "client e p p'"
  from st show "devices (conf e) = [] \<longrightarrow> posting p' = [] \<and> tasks (hs p') = []"
  proof cases
    case (request body h t s')
    then show ?thesis
      using I client_frame [OF st] accept_request_devices [of e body h "hs p" _ s'] by (cases t) auto
  qed (use I in auto)
next
  fix p p' assume I: "devices (conf e) = [] \<longrightarrow> posting p = [] \<and> tasks (hs p) = []"
    and st: "internal e p p'"
  from st show "devices (conf e) = [] \<longrightarrow> posting p' = [] \<and> tasks (hs p') = []"
  proof cases
    case (worker w now x s')
    have "tasks s' = tasks (hs p) \<or> tasks (hs p) \<noteq> []"
      using worker(3) by (cases rule: worker_step_cases) simp_all
    with I worker(1) show ?thesis by auto
  qed (use I in auto)
qed (simp add: new_pool_def)

lemma not_quiescent_steps:
  assumes "libs_laws (libs e)" "reachable e d p" "\<not> quiescent p"
  shows "\<exists>p'. internal e p p'"
proof (cases "posting p")
  case (Cons t ts)
  then show ?thesis using internal.post [of p "[]" t ts] by auto
next
  case Nil
  have "length (workers p) = length (devices (conf e))"
    using reachable_devices [OF assms(1,2)] by (simp add: device_inv_def)
  moreover have "tasks (hs p) = [] \<or> devices (conf e) \<noteq> []"
    using reachable_no_devices [OF assms(2)] by blast
  ultimately obtain w where "w < length (workers p)" "workers p ! w \<noteq> Idle \<or> tasks (hs p) \<noteq> []"
    using assms(3) Nil by (auto simp: quiescent_def in_set_conv_nth)
  then show ?thesis
    using worker_step_enabled [of "workers p ! w" "hs p" e 0] internal.worker by blast
qed

lemma internal_ends: "\<exists>q. (internal e)\<^sup>*\<^sup>* p q \<and> (\<nexists>q'. internal e q q')"
proof (induction "remaining p" arbitrary: p rule: less_induct)
  case less
  show ?case
  proof (cases "\<exists>p'. internal e p p'")
    case True
    then obtain p' where p': "internal e p p'" by blast
    from less [OF internal_decreases [OF p']] obtain q where
      "(internal e)\<^sup>*\<^sup>* p' q" "\<nexists>q'. internal e q q'" by blast
    with p' show ?thesis by (meson converse_rtranclp_into_rtranclp)
  qed blast
qed

lemma internal_requests: "(internal e)\<^sup>*\<^sup>* p q \<Longrightarrow> requests q = requests p"
  by (induction rule: rtranclp_induct) (auto elim: internal.cases)

lemma internal_reachable: "(internal e)\<^sup>*\<^sup>* p q \<Longrightarrow> reachable e d p \<Longrightarrow> reachable e d q"
  by (induction rule: rtranclp_induct) (auto intro: reachable.internal)

lemma quiescent_pending: "quiescent p \<Longrightarrow> pending p = {#}"
proof -
  assume q: "quiescent p"
  then have "concat (map owes (workers p)) = []" by (auto simp: quiescent_def)
  with q show ?thesis by (simp add: pending_def quiescent_def)
qed

lemma quiescent_no_jobs:
  assumes "reachable e d p" "quiescent p"
  shows "jobs (hs p) = []"
proof -
  have "filter fetched (workers p) = []" using assms(2) by (auto simp: quiescent_def filter_empty_conv)
  then show ?thesis
    using reachable_closures [OF assms(1)] assms(2) by (simp add: closure_inv_def quiescent_def)
qed


subsection \<open>A closure run without interference\<close>

definition solo :: "'p env \<Rightarrow> worker \<times> handler \<Rightarrow> worker \<times> handler \<Rightarrow> bool" where
  "solo e c c' \<longleftrightarrow> (\<exists>now. worker_step e now (fst c) (snd c) = Some c')"

lemma solo_internal:
  assumes "(solo e)\<^sup>*\<^sup>* (workers p ! w, hs p) c" "w < length (workers p)"
  shows "(internal e)\<^sup>*\<^sup>* p (p\<lparr>hs := snd c, workers := (workers p)[w := fst c]\<rparr>)"
  using assms(1)
proof (induction rule: rtranclp_induct)
  case (step c c')
  then obtain now where st: "worker_step e now (fst c) (snd c) = Some (fst c', snd c')"
    by (auto simp: solo_def)
  let ?p = "p\<lparr>hs := snd c, workers := (workers p)[w := fst c]\<rparr>"
  have "internal e ?p (?p\<lparr>hs := snd c', workers := (workers ?p)[w := fst c']\<rparr>)"
    using assms(2) st by (intro internal.worker [of w ?p e now]) simp_all
  then have "internal e ?p (p\<lparr>hs := snd c', workers := (workers p)[w := fst c']\<rparr>)" by simp
  with step.IH show ?case by (rule rtranclp.rtrancl_into_rtrancl)
qed simp

lemma solo_step: "worker_step e now x s = Some c' \<Longrightarrow> (solo e)\<^sup>*\<^sup>* c' c'' \<Longrightarrow> (solo e)\<^sup>*\<^sup>* (x, s) c''"
  by (rule converse_rtranclp_into_rtranclp) (auto simp: solo_def)

lemma solo_scan:
  assumes "i \<le> k" "k \<le> length (h_devices s)" "\<And>m. i \<le> m \<Longrightarrow> m < k \<Longrightarrow> busy (h_devices s ! m)"
  shows "(solo e)\<^sup>*\<^sup>* (Scan t j i, s) (Scan t j k, s)"
  using assms(1,3)
proof (induction i rule: inc_induct)
  case (step i)
  then have "busy (h_devices s ! i)" "i < length (h_devices s)" using assms(2) by auto
  then have "worker_step e 0 (Scan t j i) s = Some (Scan t j (Suc i), s)"
    by (simp add: try_aquire_def set_busy_again)
  then show ?case using step by (intro solo_step) auto
qed simp

lemma solo_run_task: "(solo e)\<^sup>*\<^sup>* (Fetched t, s) (Idle, run_task e t0 t1 t s)"
proof (cases "jobs s = []")
  case True
  then have "worker_step e 0 (Fetched t) s = Some (Idle, run_task e t0 t1 t s)"
    by (simp add: run_task_def take_job_def pop_job_def)
  then show ?thesis by (rule solo_step) simp
next
  case False
  define s1 where "s1 = s\<lparr>jobs := pq_pop comparator (jobs s)\<rparr>"
  have take: "take_job t s = (Some (pq_top (jobs s)), s1)"
    using False by (simp add: take_job_def pop_job_def s1_def)
  let ?j = "pq_top (jobs s)"
  have first: "worker_step e 0 (Fetched t) s = Some (Scan t ?j 0, s1)" by (simp add: take)
  show ?thesis
  proof (cases "find_device (h_devices s1)")
    case (Pair found ds)
    show ?thesis
    proof (cases found)
      case None
      with Pair have all: "list_all busy (h_devices s1)" and ds: "ds = h_devices s1"
        using find_device_None [of "h_devices s1" ds] by simp_all
      let ?n = "length (h_devices s1)"
      have "worker_step e 0 (Scan t ?j ?n) s1 = Some (Idle, run_task e t0 t1 t s)"
        by (simp add: run_task_def take aquire_first_available_device_def Pair None ds)
      moreover have "(solo e)\<^sup>*\<^sup>* (Scan t ?j 0, s1) (Scan t ?j ?n, s1)"
        using all by (intro solo_scan) (auto simp: list_all_length)
      ultimately have "(solo e)\<^sup>*\<^sup>* (Scan t ?j 0, s1) (Idle, run_task e t0 t1 t s)"
        by (auto simp: solo_def intro: rtranclp.rtrancl_into_rtrancl)
      then show ?thesis by (rule solo_step [OF first])
    next
      case (Some k)
      with Pair have k: "k < length (h_devices s1)" "\<not> busy (h_devices s1 ! k)"
        "\<forall>m. m < k \<longrightarrow> busy (h_devices s1 ! m)" "ds = (h_devices s1)[k := (h_devices s1 ! k)\<lparr>busy := True\<rparr>]"
        using find_device_Some [of "h_devices s1" k ds] by simp_all
      let ?s2 = "s1\<lparr>h_devices := ds\<rparr>"
      obtain j3 s3 where b: "begin_work t0 ?j ?s2 = (j3, s3)" by fastforce
      have acquire: "worker_step e 0 (Scan t ?j k) s1 = Some (Holds t ?j k, ?s2)"
        using k by (simp add: try_aquire_def)
      have begin_job: "worker_step e t0 (Holds t ?j k) ?s2 = Some (Working t j3 k, s3)"
        by (simp add: b)
      have "(solo e)\<^sup>*\<^sup>* (Working t j3 k, s3) (Idle, run_task e t0 t1 t s)"
      proof (cases "job_result_of e")
        case (Inl ex)
        then have "worker_step e 0 (Working t j3 k) s3 = Some (Idle, run_task e t0 t1 t s)"
          by (simp add: run_task_def take aquire_first_available_device_def Pair Some b)
        then show ?thesis by (rule solo_step) simp
      next
        case (Inr rr)
        obtain j4 s4 where r: "set_result (fst rr) j3 s3 = (j4, s4)" by fastforce
        let ?s5 = "respond (task_handler t) (work_response e (task_id t) rr) s4"
        obtain j6 s6 where f: "stop_job t1 j4 (release_device k ?s5) = (j6, s6)" by fastforce
        have run: "run_task e t0 t1 t s = complete_job e j6 s6"
          by (simp add: run_task_def take aquire_first_available_device_def Pair Some b Inr r f Let_def)
        have "worker_step e 0 (Working t j3 k) s3 = Some (Finished t j4 k (work_response e (task_id t) rr), s4)"
          "worker_step e 0 (Finished t j4 k (work_response e (task_id t) rr)) s4 = Some (Answered j4 k, ?s5)"
          "worker_step e 0 (Answered j4 k) ?s5 = Some (Released j4, release_device k ?s5)"
          "worker_step e t1 (Released j4) (release_device k ?s5) = Some (Stopped j6, s6)"
          "worker_step e 0 (Stopped j6) s6 = Some (Idle, run_task e t0 t1 t s)"
          by (simp_all add: Inr r f run)
        then show ?thesis by (meson solo_step rtranclp.rtrancl_refl)
      qed
      then have "(solo e)\<^sup>*\<^sup>* (Scan t ?j k, s1) (Idle, run_task e t0 t1 t s)"
        by (intro solo_step [OF acquire] solo_step [OF begin_job])
      moreover have "(solo e)\<^sup>*\<^sup>* (Scan t ?j 0, s1) (Scan t ?j k, s1)"
        using k by (intro solo_scan) auto
      ultimately have "(solo e)\<^sup>*\<^sup>* (Scan t ?j 0, s1) (Idle, run_task e t0 t1 t s)" by simp
      then show ?thesis by (rule solo_step [OF first])
    qed
  qed
qed


text \<open>
  The closure as one function is an execution of the interleaved model: a worker that has
  fetched a closure can run it to its end, other threads standing still.
\<close>

lemma run_task_internal:
  "w < length (workers p) \<Longrightarrow> workers p ! w = Fetched t \<Longrightarrow>
     (internal e)\<^sup>*\<^sup>* p (p\<lparr>hs := run_task e t0 t1 t (hs p), workers := (workers p)[w := Idle]\<rparr>)"
  using solo_internal [of e p w "(Idle, run_task e t0 t1 t (hs p))"] solo_run_task [of e t "hs p" t0 t1]
  by simp

section \<open>A sample run\<close>

text \<open>One request, its closure posted and taken by the only pool thread, up to the device search.\<close>

lemma sample_accept:
  "\<exists>j. accept_request sample_env ''low'' 1 (new_handler sample_config 5) =
     (Some \<lparr>task_id = Some ''A'', task_handler = 1\<rparr>,
      (new_handler sample_config 5)\<lparr>jobs := push_job j [], job_id_dispenser := 6\<rparr>)"
proof -
  obtain j0 where j0: "new_job sample_libs 5 = Inr (j0, 5 + 1)"
    using new_job_ok [OF sample_libs_laws, of 5] by blast
  show ?thesis
    by (intro exI [of _ "j0\<lparr>request := (request j0)\<lparr>root_hash := bigint_set sample_mp u256_size 1,
          request_difficulty := base_sample\<rparr>, priority := 0\<rparr>"])
      (simp add: accept_request_def sample_requests dispatch_def work_generate_def make_job_def j0
        fill_job_def sample_u256 [unfolded One_nat_def] request_difficulty_of_def from_hex_field_def
        set_priority_def enqueue_job_def)
qed

lemma sample_scan:
  "\<exists>p t j. reachable sample_env 5 p \<and> requests p = [1] \<and> workers p = [Scan t j 0] \<and>
     task_handler t = 1 \<and> posting p = [] \<and> tasks (hs p) = [] \<and> outbox (hs p) = [] \<and>
     jobs (hs p) = [] \<and> completed_jobs (hs p) = [] \<and> active_jobs (hs p) = []"
proof -
  let ?t = "\<lparr>task_id = Some ''A'', task_handler = 1\<rparr>" and ?s0 = "new_handler sample_config 5"
  obtain j where acc: "accept_request sample_env ''low'' 1 ?s0 =
      (Some ?t, ?s0\<lparr>jobs := push_job j [], job_id_dispenser := 6\<rparr>)"
    using sample_accept by blast
  let ?s1 = "?s0\<lparr>jobs := push_job j [], job_id_dispenser := 6\<rparr>"
  let ?p0 = "new_pool sample_config 5"
  have p0: "hs ?p0 = ?s0" "posting ?p0 = []" "workers ?p0 = [Idle]" "requests ?p0 = []"
    by (simp_all add: new_pool_def)
  have r0: "reachable sample_env 5 ?p0" using reachable.start [of sample_env 5] by simp
  define p1 where "p1 = ?p0\<lparr>hs := ?s1, posting := [?t], requests := [1]\<rparr>"
  have "client sample_env ?p0 p1"
    using client.request [of sample_env "''low''" 1 ?p0 "Some ?t" ?s1] acc p0 by (simp add: p1_def)
  then have r1: "reachable sample_env 5 p1" by (rule reachable.client [OF r0])
  define p2 where "p2 = p1\<lparr>hs := post_task ?t ?s1, posting := []\<rparr>"
  have "internal sample_env p1 p2"
    using internal.post [of p1 "[]" ?t "[]" sample_env] by (simp add: p1_def p2_def)
  then have r2: "reachable sample_env 5 p2" by (rule reachable.internal [OF r1])
  define p3 where "p3 = p2\<lparr>hs := ?s1, workers := [Fetched ?t]\<rparr>"
  have "internal sample_env p2 p3"
    using internal.worker [of 0 p2 sample_env 0 "Fetched ?t" ?s1] p0
    by (simp add: p1_def p2_def p3_def post_task_def)
  then have r3: "reachable sample_env 5 p3" by (rule reachable.internal [OF r2])
  have "heap comparator (push_job j [])" using heap_push_jobs [of "[j]"] by (simp add: pq_empty_def)
  moreover obtain j' q where p: "pop_job (push_job j []) = (Some j', q)" by (auto simp: pop_job_def)
  moreover have "length q = 0" using length_pop_job [of "push_job j []"] p by simp
  ultimately have q: "q = []" by simp
  define p4 where "p4 = p3\<lparr>hs := ?s1\<lparr>jobs := []\<rparr>, workers := [Scan ?t j' 0]\<rparr>"
  have "internal sample_env p3 p4"
    using internal.worker [of 0 p3 sample_env 0 "Scan ?t j' 0" "?s1\<lparr>jobs := []\<rparr>"] p q
    by (simp add: p3_def p4_def take_job_def)
  then have "reachable sample_env 5 p4" by (rule reachable.internal [OF r3])
  then show ?thesis
    using p0 by (intro exI [of _ p4] exI [of _ ?t] exI [of _ j'])
      (simp add: p1_def p2_def p3_def p4_def)
qed

section \<open>Properties\<close>

text \<open>
  C3. Every request is answered, exactly once, under every schedule: each step of the pool
  brings it nearer to its end, so no schedule runs forever, and when a schedule can go no
  further no job is left in the queue and the response handlers called are exactly those that
  were passed in, each as often as it was passed in.
\<close>

theorem every_schedule_answers_all:
  assumes "libs_laws (libs e)" "reachable e d p"
  shows "(\<forall>p'. internal e p p' \<longrightarrow> remaining p' < remaining p) \<and>
    (\<forall>q. (internal e)\<^sup>*\<^sup>* p q \<longrightarrow> (\<nexists>q'. internal e q q') \<longrightarrow>
       jobs (hs q) = [] \<and> mset (map fst (outbox (hs q))) = mset (requests p))"
proof (intro conjI allI impI)
  fix p' assume "internal e p p'"
  then show "remaining p' < remaining p" by (rule internal_decreases)
next
  fix q assume q: "(internal e)\<^sup>*\<^sup>* p q" "\<nexists>q'. internal e q q'"
  have r: "reachable e d q" using internal_reachable [OF q(1) assms(2)] .
  then have quiet: "quiescent q" using not_quiescent_steps [OF assms(1)] q(2) by blast
  show "jobs (hs q) = []" by (rule quiescent_no_jobs [OF r quiet])
  show "mset (map fst (outbox (hs q))) = mset (requests p)"
    using reachable_answers [OF r] quiescent_pending [OF quiet] internal_requests [OF q(1)]
    by (simp add: answer_inv_def)
qed

theorem every_schedule_answers_all_witness:
  "\<exists>p q. reachable sample_env 5 p \<and> (internal sample_env)\<^sup>*\<^sup>* p q \<and>
     (\<nexists>q'. internal sample_env q q') \<and> map fst (outbox (hs q)) = [1]"
proof -
  obtain p where p: "reachable sample_env 5 p" "requests p = [1]" using sample_scan by blast
  obtain q where q: "(internal sample_env)\<^sup>*\<^sup>* p q" "\<nexists>q'. internal sample_env q q'"
    using internal_ends [of sample_env p] by blast
  have "mset (map fst (outbox (hs q))) = mset [1]"
    using every_schedule_answers_all [of sample_env 5 p] p q by simp
  then have "map fst (outbox (hs q)) = [1]" by (metis mset_single_iff_right mset.simps(1,2))
  with p(1) q show ?thesis by (intro exI [of _ p] exI [of _ q] conjI)
qed


text \<open>
  C6. The comment in the handler is right: since the pool has as many threads as there are
  devices, a closure that searches for a device finds one under every interleaving of the
  atomic exchanges; a search never gets past the last device, and no two closures ever hold
  the same device.
\<close>

theorem device_search_succeeds:
  assumes "libs_laws (libs e)" "reachable e d p" "v < length (workers p)" "w < length (workers p)"
  shows "(workers p ! w = Scan t j i \<longrightarrow> i < length (h_devices (hs p))) \<and>
    (held (workers p ! w) = Some k \<longrightarrow> held (workers p ! v) = Some k \<longrightarrow> v = w)"
proof -
  let ?n = "length (devices (conf e))"
  have I: "levels_inv ?n (workers p)" "holders_inv ?n (h_devices (hs p)) (workers p)"
    "length (h_devices (hs p)) = ?n" "length (workers p) = ?n"
    using reachable_devices [OF assms(1,2)] by (simp_all add: device_inv_def)
  show ?thesis
    using level_below [OF I(1) assms(4), of i] holders_invD(2) [OF I(2), of v w k] assms(3,4) I(3,4)
    by auto
qed

theorem device_search_succeeds_witness:
  "\<exists>p t j. reachable sample_env 5 p \<and> workers p = [Scan t j 0] \<and> 0 < length (h_devices (hs p))"
proof -
  obtain p t j where p: "reachable sample_env 5 p" "workers p = [Scan t j 0]"
    using sample_scan by blast
  then show ?thesis
    using device_search_succeeds [of sample_env 5 p 0 0 t j 0] by auto
qed

text \<open>
  C13. The bounds hold at every moment: the queue is a heap of at most \<^verbatim>\<open>request_limit\<close> jobs,
  at most 128 completed jobs are kept, and there are never more jobs in the queue than closures
  still to serve them, so no job is stranded.
\<close>

theorem pool_bounds:
  assumes "ring_law (ring_push e)" "reachable e d p"
  shows "heap comparator (jobs (hs p)) \<and>
    length (jobs (hs p)) \<le> unat (request_limit (server (conf e))) \<and>
    length (completed_jobs (hs p)) \<le> 128 \<and>
    length (jobs (hs p)) \<le>
      length (posting p) + length (tasks (hs p)) + length (filter fetched (workers p))"
  using reachable_queue [OF assms(2)] reachable_closures [OF assms(2)] reachable_completed [OF assms]
  by (simp add: queue_inv_def closure_inv_def)

theorem pool_bounds_witness: "\<exists>p. reachable sample_env 5 p \<and> length (jobs (hs p)) \<le> 2"
proof -
  obtain p where p: "reachable sample_env 5 p" using sample_scan by blast
  then show ?thesis using pool_bounds [of sample_env 5 p] by auto
qed

text \<open>
  C7. The active set is exact: as long as fewer than \<open>2^32\<close> requests have been made, no two
  live jobs share an id, and the active set holds exactly the jobs that closures have started
  and not yet completed; in a pool at rest it is empty.
\<close>

theorem active_set_exact:
  assumes "libs_laws (libs e)" "reachable e d p" "length (requests p) < 2 ^ 32"
  shows "count (live_ids (hs p) (workers p)) i \<le> 1 \<and>
    mset (active_jobs (hs p)) = in_work (workers p) \<and> (quiescent p \<longrightarrow> active_jobs (hs p) = [])"
proof (intro conjI impI)
  show "count (live_ids (hs p) (workers p)) i \<le> 1"
    using live_ids_distinct [OF _ assms(3)] reachable_ids [OF assms(2)] by blast
  show a: "mset (active_jobs (hs p)) = in_work (workers p)"
    using reachable_active [OF assms(1,2)] assms(3) by blast
  assume "quiescent p"
  then have "concat (map worked (workers p)) = []" by (auto simp: quiescent_def)
  with a show "active_jobs (hs p) = []" by (simp add: in_work_def)
qed

theorem active_set_exact_witness:
  "\<exists>p. reachable sample_env 5 p \<and> requests p = [1] \<and> mset (active_jobs (hs p)) = in_work (workers p)"
proof -
  obtain p where p: "reachable sample_env 5 p" "requests p = [1]" using sample_scan by blast
  with active_set_exact [of sample_env 5 p] show ?thesis by (intro exI [of _ p]) simp
qed

text \<open>
  C11. No device is leaked and none is missing, whatever the schedule: at every moment a device
  is marked busy exactly while one closure holds it, so in a pool at rest every device is free; and
  while any pool thread holds no device, some device is free, so that a closure which fetches a
  job always meets the situation in which it can be served.
\<close>

theorem device_busy_exact:
  assumes "libs_laws (libs e)" "reachable e d p"
  shows "length (h_devices (hs p)) = length (devices (conf e)) \<and>
    (\<forall>i < length (h_devices (hs p)).
      busy (h_devices (hs p) ! i) \<longleftrightarrow> (\<exists>!w. w < length (workers p) \<and> held (workers p ! w) = Some i)) \<and>
    (quiescent p \<longrightarrow> (\<forall>x \<in> set (h_devices (hs p)). \<not> busy x)) \<and>
    ((\<exists>x \<in> set (workers p). held x = None) \<longrightarrow> (\<exists>x \<in> set (h_devices (hs p)). \<not> busy x))"
proof (intro conjI impI allI)
  have I: "device_inv (length (devices (conf e))) (h_devices (hs p)) (workers p)"
    using reachable_devices [OF assms] .
  then have len: "length (h_devices (hs p)) = length (workers p)"
    and H: "holders_inv (length (workers p)) (h_devices (hs p)) (workers p)"
    by (simp_all add: device_inv_def)
  show "length (h_devices (hs p)) = length (devices (conf e))" using I by (simp add: device_inv_def)
  show "busy (h_devices (hs p) ! i) \<longleftrightarrow> (\<exists>!w. w < length (workers p) \<and> held (workers p ! w) = Some i)"
    if "i < length (h_devices (hs p))" for i
    using holders_invD(1,2) [OF H] that len by metis
  show "\<forall>x \<in> set (h_devices (hs p)). \<not> busy x" if "quiescent p"
  proof -
    have "held (workers p ! w) = None" if "w < length (workers p)" for w
      using \<open>quiescent p\<close> nth_mem [OF that] by (auto simp: quiescent_def)
    then show ?thesis using holders_invD(1) [OF H] len by (auto simp: in_set_conv_nth)
  qed
  assume "\<exists>x \<in> set (workers p). held x = None"
  then obtain w where "w < length (workers p)" "held (workers p ! w) = None"
    by (metis in_set_conv_nth)
  then obtain i where "i < length (workers p)" "\<not> busy (h_devices (hs p) ! i)"
    using free_for_idle [OF H] by blast
  then show "\<exists>x \<in> set (h_devices (hs p)). \<not> busy x"
    using len nth_mem by metis
qed

theorem device_busy_exact_witness:
  "\<exists>p. reachable sample_env 5 p \<and> requests p = [1] \<and> length (h_devices (hs p)) = 1 \<and>
     (\<exists>x \<in> set (h_devices (hs p)). \<not> busy x)"
proof -
  obtain p t j where p: "reachable sample_env 5 p" "requests p = [1]" "workers p = [Scan t j 0]"
    using sample_scan by blast
  then show ?thesis
    using device_busy_exact [of sample_env 5 p] by (intro exI [of _ p]) auto
qed


end
