(* ===== verification/Service.thy ===== *)
theory Service
  imports Pool
begin

text \<open>
  What the work handler promises the web server, as an abstract specification: a service that owes
  answers to the response handlers it was given, and answers each of them once, at once or later. The
  locale states the promise as a simulation and derives what a client may count on; the interleaved
  model of the work handler is its interpretation.
\<close>

section \<open>The specification\<close>

text \<open>The state: the response handlers an answer is owed to, and the answers given.\<close>

type_synonym ('h, 'r) service = "'h multiset \<times> ('h \<times> 'r) list"

inductive service_request :: "'h \<Rightarrow> ('h, 'r) service \<Rightarrow> ('h, 'r) service \<Rightarrow> bool" for h where
  at_once: "service_request h (owing, out) (owing, out @ [(h, r)])"
| later: "service_request h (owing, out) (add_mset h owing, out)"

inductive service_step :: "('h, 'r) service \<Rightarrow> ('h, 'r) service \<Rightarrow> bool" where
  idle: "service_step (owing, out) (owing, out)"
| answer: "service_step (add_mset h owing, out) (owing, out @ [(h, r)])"

inductive_cases service_requestE: "service_request h (owing, out) (owing', out')"

inductive_cases service_stepE: "service_step (owing, out) (owing', out')"

declare service_request.intros [step_intros] service_step.intros [step_intros]

text \<open>The answers owed to a client, when \<open>cs ! h\<close> is the client response handler \<open>h\<close> belongs to.\<close>

definition owed :: "nat multiset \<Rightarrow> 'w list \<Rightarrow> 'w \<Rightarrow> nat" where
  "owed owing cs who = size {#h \<in># owing. cs ! h = who#}"

section \<open>The interface\<close>

locale answering_service =
  fixes asked_of :: "nat \<Rightarrow> 's \<Rightarrow> 's \<Rightarrow> bool"
    and step :: "'s \<Rightarrow> 's \<Rightarrow> bool"
    and owing :: "'s \<Rightarrow> nat multiset"
    and answers :: "'s \<Rightarrow> (nat \<times> 'r) list"
  assumes request_sim: "asked_of h s s' \<Longrightarrow> service_request h (owing s, answers s) (owing s', answers s')"
    and step_sim: "step s s' \<Longrightarrow> service_step (owing s, answers s) (owing s', answers s')"
begin

text \<open>The service was given the response handlers below \<open>n\<close>, each once.\<close>

definition served :: "'s \<Rightarrow> nat \<Rightarrow> bool" where
  "served s n \<longleftrightarrow> mset [0..<n] = mset (map fst (answers s)) + owing s"

text \<open>The answers of one transition.\<close>

definition fresh :: "'s \<Rightarrow> 's \<Rightarrow> (nat \<times> 'r) list" where
  "fresh s s' = drop (length (answers s)) (answers s')"

lemma request_cases:
  assumes "asked_of h s s'"
  obtains r where "owing s' = owing s" "answers s' = answers s @ [(h, r)]" "fresh s s' = [(h, r)]"
    | "owing s' = add_mset h (owing s)" "answers s' = answers s" "fresh s s' = []"
  using request_sim [OF assms] by (rule service_requestE) (auto simp: fresh_def intro: that)

lemma step_cases:
  assumes "step s s'"
  obtains "owing s' = owing s" "answers s' = answers s" "fresh s s' = []"
    | h r where "owing s = add_mset h (owing s')" "answers s' = answers s @ [(h, r)]" "fresh s s' = [(h, r)]"
  using step_sim [OF assms] by (rule service_stepE) (auto simp: fresh_def intro: that)

lemma request_fresh: "asked_of h s s' \<Longrightarrow> fresh s s' = [] \<or> (\<exists>r. fresh s s' = [(h, r)])"
  by (erule request_cases) simp_all

lemma step_fresh: "step s s' \<Longrightarrow> length (fresh s s') \<le> 1"
  by (erule step_cases) simp_all

lemma served_request: "served s n \<Longrightarrow> asked_of n s s' \<Longrightarrow> served s' (Suc n)"
  by (erule request_cases) (simp_all add: served_def)

lemma served_step: "served s n \<Longrightarrow> step s s' \<Longrightarrow> served s' n"
  by (erule step_cases) (simp_all add: served_def)

lemma owing_less: "served s n \<Longrightarrow> h \<in># owing s \<Longrightarrow> h < n"
  unfolding served_def by (metis atLeastLessThan_iff set_mset_mset set_upt union_iff)

lemma fresh_less:
  assumes "served s n" "step s s'" "a \<in> set (fresh s s')"
  shows "fst a < n"
  using assms(2,3) owing_less [OF assms(1)] by (elim step_cases) auto

text \<open>How the answers owed to each client change.\<close>

lemma owed_snoc: "served s (length cs) \<Longrightarrow> owed (owing s) (cs @ [who]) w = owed (owing s) cs w"
  unfolding owed_def
proof (intro arg_cong [where f = size] filter_mset_cong refl)
  fix h assume "served s (length cs)" "h \<in># owing s"
  then show "(cs @ [who]) ! h = w \<longleftrightarrow> cs ! h = w" using owing_less [of s "length cs" h] by (simp add: nth_append)
qed

lemma owed_nobody: "served s (length cs) \<Longrightarrow> w \<notin> set cs \<Longrightarrow> owed (owing s) cs w = 0"
proof -
  assume "served s (length cs)" "w \<notin> set cs"
  then have "{#h \<in># owing s. cs ! h = w#} = {#}"
    using owing_less [of s "length cs"] by (intro filter_mset_eq_mempty_iff [THEN iffD2]) (metis nth_mem)
  then show ?thesis by (simp add: owed_def)
qed

lemma owed_request:
  assumes "served s (length cs)" "asked_of (length cs) s s'"
  shows "owed (owing s') (cs @ [who]) w + (if w = who then length (fresh s s') else 0)
    = owed (owing s) cs w + (if w = who then 1 else 0)"
  using assms(2)
proof (rule request_cases)
  fix r assume "owing s' = owing s" "fresh s s' = [(length cs, r)]"
  then show ?thesis using owed_snoc [OF assms(1)] by simp
next
  assume "owing s' = add_mset (length cs) (owing s)" "fresh s s' = []"
  then show ?thesis using owed_snoc [OF assms(1), of who w] by (auto simp: owed_def)
qed

lemma owed_step:
  assumes "step s s'"
  shows "owed (owing s') cs w + length (filter (\<lambda>a. cs ! fst a = w) (fresh s s')) = owed (owing s) cs w"
  using assms by (rule step_cases) (simp_all add: owed_def)

end

section \<open>The work handler provides it\<close>

lemma worker_step_outbox:
  assumes "worker_step e now x s = Some (x', s')"
  shows "outbox s' = outbox s \<or> (\<exists>a. outbox s' = outbox s @ [a])"
  using assms by (cases rule: worker_step_cases) simp_all

definition service_of :: "pool \<Rightarrow> (nat, response) service" where
  "service_of p = (pending p, outbox (hs p))"

lemma client_simulated:
  assumes "client e p p'" "requests p' = requests p @ [h]"
  shows "service_request h (service_of p) (service_of p')"
proof -
  have "(\<exists>r. outbox (hs p') = outbox (hs p) @ [(h, r)]) \<or> outbox (hs p') = outbox (hs p)"
    using assms(1)
  proof cases
    case (request body h' t s')
    then show ?thesis
      using accept_request_cases [OF request(2)] assms(2) by (auto simp: answered_def queued_def)
  next
    case (list h')
    then show ?thesis using assms(2) by (auto simp: handle_queue_request_def)
  next
    case (delete h')
    then show ?thesis using assms(2)
      by (cases "allow_control (server (conf e))") (auto simp: handle_queue_delete_request_def)
  qed
  then show ?thesis
    using client_conserves [OF assms] service_request.intros [of h "pending p" "outbox (hs p)"]
    by (auto simp: service_of_def)
qed

lemma internal_simulated:
  assumes "internal e p p'"
  shows "service_step (service_of p) (service_of p')"
proof -
  have "outbox (hs p') = outbox (hs p) \<or> (\<exists>a. outbox (hs p') = outbox (hs p) @ [a])"
    using assms
  proof cases
    case (worker w now x s')
    then show ?thesis using worker_step_outbox [OF worker(3)] by simp
  qed simp
  then show ?thesis
  proof
    assume "outbox (hs p') = outbox (hs p)"
    then show ?thesis using internal_conserves [OF assms] service_step.idle by (simp add: service_of_def)
  next
    assume "\<exists>a. outbox (hs p') = outbox (hs p) @ [a]"
    then obtain h r where "outbox (hs p') = outbox (hs p) @ [(h, r)]" by auto
    then show ?thesis
      using internal_conserves [OF assms] service_step.answer [of h "pending p'" "outbox (hs p)" r]
      by (simp add: service_of_def)
  qed
qed

interpretation work_service: answering_service
  "\<lambda>h p p'. client e p p' \<and> requests p' = requests p @ [h]" "internal e" pending "\<lambda>p. outbox (hs p)"
  for e :: "'p env"
  by unfold_locales
    (use client_simulated [of e] internal_simulated [of e] in \<open>simp_all add: service_of_def\<close>)

lemma reachable_served: "reachable e d p \<Longrightarrow> requests p = [0..<n] \<Longrightarrow> work_service.served p n"
  using reachable_answers [of e d p] by (simp add: work_service.served_def answer_inv_def)

section \<open>Properties\<close>

text \<open>
  C4. The work handler is a correct answering service: under every interleaving of its clients and
  its threads, each call of a client is a request of the specification, which is answered at once or
  adds one owed answer, and each internal step changes nothing the clients see or gives exactly one
  owed answer.
\<close>

theorem pool_refines_service:
  "(client e p p' \<longrightarrow> (\<exists>h. requests p' = requests p @ [h] \<and>
      service_request h (service_of p) (service_of p'))) \<and>
   (internal e p p' \<longrightarrow> requests p' = requests p \<and> service_step (service_of p) (service_of p'))"
proof (intro conjI impI)
  assume c: "client e p p'"
  then obtain h where "requests p' = requests p @ [h]" by cases auto
  with client_simulated [OF c this] show "\<exists>h. requests p' = requests p @ [h] \<and>
      service_request h (service_of p) (service_of p')" by blast
next
  assume i: "internal e p p'"
  then show "requests p' = requests p" by cases simp_all
  from i show "service_step (service_of p) (service_of p')" by (rule internal_simulated)
qed

theorem pool_refines_service_witness:
  "\<exists>p' h. requests p' = [h] \<and> service_request h (service_of (new_pool sample_config 5)) (service_of p')"
proof -
  have "client sample_env (new_pool sample_config 5)
      ((new_pool sample_config 5)\<lparr>hs := handle_queue_request sample_env 3 (hs (new_pool sample_config 5)),
        requests := requests (new_pool sample_config 5) @ [3]\<rparr>)" (is "client _ _ ?p")
    by (rule client.list)
  with pool_refines_service [of sample_env "new_pool sample_config 5" ?p] obtain h where
    "requests ?p = requests (new_pool sample_config 5) @ [h]"
    "service_request h (service_of (new_pool sample_config 5)) (service_of ?p)" by blast
  moreover have "requests (new_pool sample_config 5) = []" by (simp add: new_pool_def)
  ultimately show ?thesis by (intro exI [of _ ?p] exI [of _ h]) simp
qed

end
