(* ===== verification/Http.thy ===== *)
theory Http
  imports Prelude
begin

text \<open>
  \<^verbatim>\<open>webserver.hpp\<close>, the parts without session state: the URL parser, MIME types, paths, the
  routing table with its patterns, and \<^verbatim>\<open>http_session::handle_request\<close>, which decides what a
  request is answered with. Boost.Beast's messages are records of the fields the code sets;
  the library functions that compute something (\<^verbatim>\<open>iequals\<close>, \<^verbatim>\<open>prepare_payload\<close>) and the
  file system are parameters.
\<close>

section \<open>Messages\<close>

datatype verb = Get | Head | Post | Delete | Other_verb string

record request =
  req_method :: verb
  target :: string
  req_version :: nat
  req_keep_alive :: bool
  req_body :: string
  is_upgrade :: bool

datatype status = Ok | Bad_request | Not_found | Internal_server_error

datatype 'f body = String_body string | Empty_body | File_body 'f

record 'f http_response =
  status :: status
  res_version :: nat
  server_field :: string
  content_type :: string
  keep_alive :: bool
  content_length :: "nat option"
  res_body :: "'f body"

text \<open>
  Outcomes of asynchronous operations: the error codes the code tells apart. \<open>Success\<close> is the
  code that converts to false.
\<close>

datatype error_code = Success | Operation_aborted | End_of_stream | Ws_closed | No_such_file | Failure string

section \<open>The URL parser\<close>

record url =
  path :: string
  query :: string

definition parse_url :: "string \<Rightarrow> url" where
  "parse_url url_a =
     (let path_i = dropWhile (\<lambda>c. c \<noteq> CHR ''/'') url_a;
          query_i = dropWhile (\<lambda>c. c \<noteq> CHR ''?'') path_i
      in \<lparr>path = takeWhile (\<lambda>c. c \<noteq> CHR ''?'') path_i,
          query = (if query_i \<noteq> [] then tl query_i else query_i)\<rparr>)"

section \<open>MIME types\<close>

text \<open>\<^verbatim>\<open>path.substr (path.rfind ("."))\<close>: from the last dot on, or nothing.\<close>

definition extension :: "string \<Rightarrow> string" where
  "extension p = (if CHR ''.'' \<in> set p
     then CHR ''.'' # rev (takeWhile (\<lambda>c. c \<noteq> CHR ''.'') (rev p)) else [])"

definition mime_table :: "(string \<times> string) list" where
  "mime_table =
     [(''.htm'', ''text/html''), (''.html'', ''text/html''), (''.css'', ''text/css''),
      (''.txt'', ''text/plain''), (''.js'', ''application/javascript''),
      (''.json'', ''application/json''), (''.xml'', ''application/xml''),
      (''.png'', ''image/png''), (''.jpe'', ''image/jpeg''), (''.jpeg'', ''image/jpeg''),
      (''.jpg'', ''image/jpeg''), (''.gif'', ''image/gif''), (''.bmp'', ''image/bmp''),
      (''.ico'', ''image/vnd.microsoft.icon''), (''.tiff'', ''image/tiff''),
      (''.tif'', ''image/tiff''), (''.svg'', ''image/svg+xml''), (''.svgz'', ''image/svg+xml'')]"

definition mime_type :: "(string \<Rightarrow> string \<Rightarrow> bool) \<Rightarrow> string \<Rightarrow> string" where
  "mime_type iequals p =
     (case List.find (\<lambda>(e, t). iequals (extension p) e) mime_table of
        None \<Rightarrow> ''application/text''
      | Some (e, t) \<Rightarrow> t)"

text \<open>Beast's \<^verbatim>\<open>iequals\<close> compares ASCII letters without case.\<close>

definition lower :: "char \<Rightarrow> char" where
  "lower c = (if of_char c \<in> {65..90 :: nat} then char_of (of_char c + 32 :: nat) else c)"

definition iequals_law :: "(string \<Rightarrow> string \<Rightarrow> bool) \<Rightarrow> bool" where
  "iequals_law iequals \<longleftrightarrow> (\<forall>a b. iequals a b \<longleftrightarrow> map lower a = map lower b)"

section \<open>Paths\<close>

text \<open>The branch for platforms with \<^verbatim>\<open>/\<close> as separator.\<close>

definition path_cat :: "string \<Rightarrow> string \<Rightarrow> string" where
  "path_cat base p =
     (if base = [] then p
      else (if last base = CHR ''/'' then butlast base else base) @ p)"

text \<open>\<^verbatim>\<open>req.target ().find ("..")\<close>.\<close>

fun has_dotdot :: "string \<Rightarrow> bool" where
  "has_dotdot (a # b # s) \<longleftrightarrow> (a = CHR ''.'' \<and> b = CHR ''.'') \<or> has_dotdot (b # s)"
| "has_dotdot _ \<longleftrightarrow> False"

section \<open>Endpoints\<close>

text \<open>
  \<^verbatim>\<open>add_endpoint\<close> replaces every \<^verbatim>\<open>?\<close> of a path by the group \<^verbatim>\<open>([^\?]+)\<close> and anchors the
  pattern. A pattern is modelled as the list of its literal characters and groups, which is
  what the regular expression means for a path without metacharacters, as all paths of the
  program are. Matching is greedy and backtracks, like \<^verbatim>\<open>std::regex\<close>.
\<close>

datatype token = Lit char | Group

definition path_regex :: "string \<Rightarrow> token list" where
  "path_regex p = map (\<lambda>c. if c = CHR ''?'' then Group else Lit c) p"

function regex_match :: "token list \<Rightarrow> string \<Rightarrow> string list option"
  and match_group :: "token list \<Rightarrow> string \<Rightarrow> nat \<Rightarrow> string list option" where
  "regex_match [] s = (if s = [] then Some [] else None)"
| "regex_match (Lit c # ts) s =
     (case s of [] \<Rightarrow> None | x # xs \<Rightarrow> if x = c then regex_match ts xs else None)"
| "regex_match (Group # ts) s = match_group ts s (length (takeWhile (\<lambda>c. c \<noteq> CHR ''?'') s))"
| "match_group ts s 0 = None"
| "match_group ts s (Suc k) =
     (case regex_match ts (drop (Suc k) s) of
        Some params \<Rightarrow> Some (take (Suc k) s # params)
      | None \<Rightarrow> match_group ts s k)"
  by pat_completeness auto
termination
  by (relation "measures [\<lambda>x. case x of Inl (ts, s) \<Rightarrow> length ts | Inr (ts, s, k) \<Rightarrow> length ts,
        \<lambda>x. case x of Inl (ts, s) \<Rightarrow> 0 | Inr (ts, s, k) \<Rightarrow> Suc k]") auto

record 'h rest_endpoint =
  verb :: verb
  path_verbatim :: string
  endpoint_path :: "token list"
  endpoint_handler :: 'h

definition add_endpoint :: "verb \<Rightarrow> string \<Rightarrow> 'h \<Rightarrow> 'h rest_endpoint list \<Rightarrow> 'h rest_endpoint list" where
  "add_endpoint v p h handlers =
     handlers @ [\<lparr>verb = v, path_verbatim = p, endpoint_path = path_regex p, endpoint_handler = h\<rparr>]"

definition add_get_endpoint :: "string \<Rightarrow> 'h \<Rightarrow> 'h rest_endpoint list \<Rightarrow> 'h rest_endpoint list" where
  "add_get_endpoint p h handlers = add_endpoint Get p h handlers"

definition add_post_endpoint :: "string \<Rightarrow> 'h \<Rightarrow> 'h rest_endpoint list \<Rightarrow> 'h rest_endpoint list" where
  "add_post_endpoint p h handlers = add_endpoint Post p h handlers"

definition add_delete_endpoint :: "string \<Rightarrow> 'h \<Rightarrow> 'h rest_endpoint list \<Rightarrow> 'h rest_endpoint list" where
  "add_delete_endpoint p h handlers = add_endpoint Delete p h handlers"

record 'h websocket_endpoint =
  ws_path_verbatim :: string
  ws_path :: "token list"
  ws_handler :: 'h

definition add_websocket_endpoint :: "string \<Rightarrow> 'h \<Rightarrow> 'h websocket_endpoint list \<Rightarrow> 'h websocket_endpoint list" where
  "add_websocket_endpoint p h handlers =
     handlers @ [\<lparr>ws_path_verbatim = p, ws_path = path_regex p, ws_handler = h\<rparr>]"

text \<open>The loop over the handlers: the first whose pattern and verb match, with the groups.\<close>

fun find_endpoint :: "'h rest_endpoint list \<Rightarrow> verb \<Rightarrow> string \<Rightarrow> ('h \<times> string list) option" where
  "find_endpoint [] v t = None"
| "find_endpoint (ep # eps) v t =
     (case regex_match (endpoint_path ep) t of
        Some params \<Rightarrow> if verb ep = v then Some (endpoint_handler ep, params) else find_endpoint eps v t
      | None \<Rightarrow> find_endpoint eps v t)"

fun find_websocket_endpoint :: "'h websocket_endpoint list \<Rightarrow> string \<Rightarrow> 'h websocket_endpoint option" where
  "find_websocket_endpoint [] t = None"
| "find_websocket_endpoint (ep # eps) t =
     (if regex_match (ws_path ep) t \<noteq> None then Some ep else find_websocket_endpoint eps t)"

section \<open>Handling a request\<close>

text \<open>
  \<open>open_file p\<close> is the outcome of opening the file \<open>p\<close>, \<open>file_size\<close> the size of an open file,
  and \<open>message\<close> the text of an error code; \<open>beast_version\<close> is \<^verbatim>\<open>BOOST_BEAST_VERSION_STRING\<close>.
\<close>

record 'f web_env =
  iequals :: "string \<Rightarrow> string \<Rightarrow> bool"
  prepare_payload :: "'f http_response \<Rightarrow> 'f http_response"
  need_eof :: "'f http_response \<Rightarrow> bool"
  open_file :: "string \<Rightarrow> error_code + 'f"
  file_size :: "'f \<Rightarrow> nat"
  message :: "error_code \<Rightarrow> string"
  beast_version :: string

record web_config =
  static_pages_allow_remote :: bool
  static_pages_allow :: bool

definition string_response :: "'f web_env \<Rightarrow> request \<Rightarrow> status \<Rightarrow> string \<Rightarrow> 'f http_response" where
  "string_response e req st text = prepare_payload e
     \<lparr>status = st, res_version = req_version req, server_field = ''web/1'',
      content_type = ''text/html'', keep_alive = req_keep_alive req, content_length = None,
      res_body = String_body text\<rparr>"

definition quote :: string where
  "quote = [CHR 0x27]"

definition bad_request :: "'f web_env \<Rightarrow> request \<Rightarrow> string \<Rightarrow> 'f http_response" where
  "bad_request e req why = string_response e req Bad_request why"

definition not_found :: "'f web_env \<Rightarrow> request \<Rightarrow> string \<Rightarrow> 'f http_response" where
  "not_found e req t = string_response e req Not_found (''The resource '' @ quote @ t @ quote @ '' was not found.'')"

definition server_error :: "'f web_env \<Rightarrow> request \<Rightarrow> string \<Rightarrow> 'f http_response" where
  "server_error e req msg = string_response e req Internal_server_error (''An error occurred: '' @ quote @ msg @ quote)"

text \<open>Either a response to send, or the call of a handler, which sends its own.\<close>

datatype ('h, 'f) outcome = Send "'f http_response" | Call 'h string "string list"

text \<open>Lines 780 to 806: the file for a target, with its path, after the fallback to the index page.\<close>

definition open_static :: "'f web_env \<Rightarrow> string \<Rightarrow> string \<Rightarrow> string \<times> (error_code + 'f)" where
  "open_static e doc_root t =
     (let p = path_cat doc_root t @ (if last t = CHR ''/'' then ''index.html'' else []);
          body = open_file e p
      in if body = Inl No_such_file
         then (path_cat doc_root ''/index.html'', open_file e (path_cat doc_root ''/index.html''))
         else (p, body))"

definition file_response :: "'f web_env \<Rightarrow> request \<Rightarrow> string \<Rightarrow> 'f \<Rightarrow> 'f http_response" where
  "file_response e req p f =
     \<lparr>status = Ok, res_version = req_version req, server_field = beast_version e,
      content_type = mime_type (iequals e) p, keep_alive = req_keep_alive req,
      content_length = Some (file_size e f),
      res_body = (if req_method req = Head then Empty_body else File_body f)\<rparr>"

definition handle_request :: "'f web_env \<Rightarrow> web_config \<Rightarrow> 'h rest_endpoint list \<Rightarrow> bool \<Rightarrow> string \<Rightarrow>
    request \<Rightarrow> ('h, 'f) outcome" where
  "handle_request e conf handlers is_loopback doc_root req =
     (let t = target req in
      if t = [] \<or> hd t \<noteq> CHR ''/'' \<or> has_dotdot t then Send (bad_request e req ''Illegal request-target'')
      else case find_endpoint handlers (req_method req) t of
        Some (h, params) \<Rightarrow> Call h (req_body req) params
      | None \<Rightarrow>
          if \<not> static_pages_allow conf \<or> (\<not> static_pages_allow_remote conf \<and> \<not> is_loopback)
          then Send (bad_request e req ''Access denied'')
          else case open_static e doc_root t of
            (p, Inl ec) \<Rightarrow>
              Send (if ec = No_such_file then not_found e req t else server_error e req (message e ec))
          | (p, Inr f) \<Rightarrow> Send (file_response e req p f))"

section \<open>Lemmas\<close>

subsection \<open>Patterns\<close>

text \<open>The texts a pattern denotes: each group is replaced by a non-empty text without \<^verbatim>\<open>?\<close>.\<close>

fun fill :: "token list \<Rightarrow> string list \<Rightarrow> string option" where
  "fill [] [] = Some []"
| "fill (Lit c # ts) ps = map_option ((#) c) (fill ts ps)"
| "fill (Group # ts) (p # ps) =
     (if p \<noteq> [] \<and> CHR ''?'' \<notin> set p then map_option ((@) p) (fill ts ps) else None)"
| "fill _ _ = None"

lemma take_no_query:
  "k \<le> length (takeWhile (\<lambda>c. c \<noteq> CHR ''?'') s) \<Longrightarrow> CHR ''?'' \<notin> set (take k s)"
proof -
  assume k: "k \<le> length (takeWhile (\<lambda>c. c \<noteq> CHR ''?'') s)"
  then have "take k s = take k (takeWhile (\<lambda>c. c \<noteq> CHR ''?'') s)"
    by (metis append_take_drop_id take_all_iff takeWhile_eq_take take_take min.absorb1)
  then show ?thesis by (metis in_set_takeD set_takeWhileD)
qed

lemma regex_match_sound:
  "regex_match ts s = Some ps \<Longrightarrow> fill ts ps = Some s"
  "match_group ts s k = Some ps \<Longrightarrow> k \<le> length (takeWhile (\<lambda>c. c \<noteq> CHR ''?'') s) \<Longrightarrow>
     fill (Group # ts) ps = Some s"
proof (induction ts s and ts s k arbitrary: ps and ps rule: regex_match_match_group.induct)
  case (5 ts s k)
  show ?case
  proof (cases "regex_match ts (drop (Suc k) s)")
    case None
    with 5 show ?thesis by simp
  next
    case (Some params)
    with 5 have "ps = take (Suc k) s # params" "fill ts params = Some (drop (Suc k) s)" by auto
    moreover have "take (Suc k) s \<noteq> []"
      using 5(4) length_takeWhile_le [of "\<lambda>c. c \<noteq> CHR ''?''" s] by auto
    ultimately show ?thesis using take_no_query [OF 5(4)] by simp
  qed
qed (auto split: if_splits list.splits)

lemma match_group_complete:
  "0 < m \<Longrightarrow> m \<le> k \<Longrightarrow> regex_match ts (drop m s) \<noteq> None \<Longrightarrow> match_group ts s k \<noteq> None"
proof (induction k)
  case (Suc k)
  then show ?case by (cases "m = Suc k") (auto split: option.split)
qed simp

lemma length_takeWhile_append:
  "\<forall>x \<in> set p. P x \<Longrightarrow> length p \<le> length (takeWhile P (p @ s))"
  by (induction p) auto

lemma regex_match_complete: "fill ts ps = Some s \<Longrightarrow> regex_match ts s \<noteq> None"
proof (induction ts ps arbitrary: s rule: fill.induct)
  case (3 ts p ps)
  then obtain s' where s': "p \<noteq> []" "CHR ''?'' \<notin> set p" "fill ts ps = Some s'" "s = p @ s'"
    by (auto split: if_splits)
  then have "length p \<le> length (takeWhile (\<lambda>c. c \<noteq> CHR ''?'') s)"
    by (auto intro!: length_takeWhile_append)
  moreover have "regex_match ts (drop (length p) s) \<noteq> None" using 3 s' by simp
  ultimately show ?case
    using match_group_complete [of "length p" _ ts s] s'(1) by simp
qed auto

lemma no_query_in_path: "fill (path_regex p) ps = Some s \<Longrightarrow> CHR ''?'' \<notin> set s"
proof (induction p arbitrary: ps s)
  case (Cons c p)
  show ?case
  proof (cases "c = CHR ''?''")
    case True
    then obtain q qs s' where "ps = q # qs" "CHR ''?'' \<notin> set q" "fill (path_regex p) qs = Some s'" "s = q @ s'"
      using Cons.prems by (cases ps) (auto simp: path_regex_def split: if_splits)
    then show ?thesis using Cons.IH by auto
  next
    case False
    then obtain s' where "fill (path_regex p) ps = Some s'" "s = c # s'"
      using Cons.prems by (auto simp: path_regex_def)
    then show ?thesis using False Cons.IH by auto
  qed
next
  case Nil
  then show ?case by (cases ps) (auto simp: path_regex_def)
qed

lemma plain_regex:
  "CHR ''?'' \<notin> set p \<Longrightarrow> regex_match (path_regex p) s = (if s = p then Some [] else None)"
proof (induction p arbitrary: s)
  case (Cons c p)
  then show ?case by (cases s) (auto simp: path_regex_def)
qed (simp add: path_regex_def)

section \<open>Properties\<close>

text \<open>
  C36. A route matches exactly the targets its pattern denotes: a path matches a target if and
  only if the target arises from it by replacing every \<^verbatim>\<open>?\<close> with a non-empty text without
  \<^verbatim>\<open>?\<close>, and the parameters the handler gets are such texts, in the order of the path.
\<close>

theorem route_match_iff:
  "((\<exists>ps. regex_match (path_regex p) t = Some ps) \<longleftrightarrow> (\<exists>ps. fill (path_regex p) ps = Some t)) \<and>
   (regex_match (path_regex p) t = Some ps \<longrightarrow> fill (path_regex p) ps = Some t)"
  using regex_match_sound(1) [of "path_regex p" t] regex_match_complete [of "path_regex p" _ t] by fastforce

theorem route_match_iff_witness:
  "regex_match (path_regex ''/job/?/of/?'') ''/job/12/of/a/b'' = Some [''12'', ''a/b''] \<and>
   fill (path_regex ''/job/?/of/?'') [''12'', ''a/b''] = Some ''/job/12/of/a/b''"
proof -
  have m: "regex_match (path_regex ''/job/?/of/?'') ''/job/12/of/a/b'' = Some [''12'', ''a/b'']"
    by (simp add: path_regex_def)
  with route_match_iff [of "''/job/?/of/?''" "''/job/12/of/a/b''" "[''12'', ''a/b'']"] show ?thesis by simp
qed

lemma find_endpoint_no_query:
  assumes "CHR ''?'' \<in> set t" "\<forall>ep \<in> set eps. endpoint_path ep = path_regex (path_verbatim ep)"
  shows "find_endpoint eps v t = None"
  using assms(2)
proof (induction eps)
  case (Cons ep eps)
  have "regex_match (path_regex (path_verbatim ep)) t = None"
    using regex_match_sound(1) no_query_in_path assms(1) by (metis not_Some_eq)
  with Cons show ?case by simp
qed simp

lemma find_endpoint_plain:
  assumes "\<forall>ep \<in> set eps. endpoint_path ep = path_regex (path_verbatim ep) \<and> CHR ''?'' \<notin> set (path_verbatim ep)"
  shows "find_endpoint eps v t =
    map_option (\<lambda>ep. (endpoint_handler ep, [])) (List.find (\<lambda>ep. path_verbatim ep = t \<and> verb ep = v) eps)"
  using assms by (induction eps) (auto simp: plain_regex)

text \<open>
  C37. Routing with plain paths, such as all of the program's, is table lookup: the handler
  called is that of the first endpoint with exactly this path and verb, and it gets no
  parameters. A target with a query string is never routed to an endpoint, whatever the paths.
\<close>

theorem routing_is_lookup:
  assumes "\<forall>ep \<in> set eps. endpoint_path ep = path_regex (path_verbatim ep)"
  shows "((\<forall>ep \<in> set eps. CHR ''?'' \<notin> set (path_verbatim ep)) \<longrightarrow>
      find_endpoint eps v t = map_option (\<lambda>ep. (endpoint_handler ep, []))
        (List.find (\<lambda>ep. path_verbatim ep = t \<and> verb ep = v) eps)) \<and>
    (CHR ''?'' \<in> set t \<longrightarrow> find_endpoint eps v t = None)"
  using assms find_endpoint_plain [of eps v t] find_endpoint_no_query [of t eps v] by blast

theorem routing_is_lookup_witness:
  "find_endpoint (add_get_endpoint ''/api/v1/ping'' (1 :: nat) (add_post_endpoint ''/'' 0 [])) Get
     ''/api/v1/ping'' = Some (1, []) \<and>
   find_endpoint (add_get_endpoint ''/api/v1/ping'' (1 :: nat) (add_post_endpoint ''/'' 0 [])) Get
     ''/api/v1/ping?x'' = None"
  using routing_is_lookup [of "add_get_endpoint ''/api/v1/ping'' (1 :: nat) (add_post_endpoint ''/'' 0 [])"
      Get "''/api/v1/ping''"]
    routing_is_lookup [of "add_get_endpoint ''/api/v1/ping'' (1 :: nat) (add_post_endpoint ''/'' 0 [])"
      Get "''/api/v1/ping?x''"]
  by (simp add: add_endpoint_def add_get_endpoint_def add_post_endpoint_def)

text \<open>
  The URL parser splits at the right places: for a target made of a part without \<^verbatim>\<open>/\<close>
  (scheme and host are cut up to their first \<^verbatim>\<open>/\<close>), a path and an optional query, it returns
  that path and that query.
\<close>

lemma parse_url_parts:
  assumes "CHR ''/'' \<notin> set pre" "p = [] \<longrightarrow> q = None" "p \<noteq> [] \<longrightarrow> hd p = CHR ''/''" "CHR ''?'' \<notin> set p"
  shows "parse_url (pre @ p @ (case q of None \<Rightarrow> [] | Some s \<Rightarrow> CHR ''?'' # s))
    = \<lparr>path = p, query = (case q of None \<Rightarrow> [] | Some s \<Rightarrow> s)\<rparr>"
proof -
  let ?tail = "case q of None \<Rightarrow> [] | Some s \<Rightarrow> CHR ''?'' # s"
  have "dropWhile (\<lambda>c. c \<noteq> CHR ''/'') (pre @ p @ ?tail) = p @ ?tail"
    using assms(1-3) by (cases p) (auto simp: dropWhile_append split: option.split)
  moreover have "takeWhile (\<lambda>c. c \<noteq> CHR ''?'') (p @ ?tail) = p"
    "dropWhile (\<lambda>c. c \<noteq> CHR ''?'') (p @ ?tail) = ?tail"
    using assms(4) by (auto simp: takeWhile_append dropWhile_append split: option.split)
  ultimately show ?thesis by (simp add: parse_url_def Let_def split: option.split)
qed

lemma parse_url_parts_witness:
  "parse_url ''host/websocket?id=/7'' = \<lparr>path = ''/websocket'', query = ''id=/7''\<rparr>"
  using parse_url_parts [of "''host''" "''/websocket''" "Some ''id=/7''"] by simp

lemma lower_dot: "lower c = CHR ''.'' \<longleftrightarrow> c = CHR ''.''"
proof
  assume l: "lower c = CHR ''.''"
  show "c = CHR ''.''"
  proof (cases "of_char c \<in> {65..90 :: nat}")
    case True
    then have "of_char (lower c) = (of_char c + 32 :: nat)" by (simp add: lower_def of_char_of)
    with l True show ?thesis by simp
  next
    case False
    then have "lower c = c" by (simp only: lower_def if_False)
    with l show ?thesis by simp
  qed
qed (simp add: lower_def)

lemma extension_append: "CHR ''.'' \<notin> set e \<Longrightarrow> extension (p @ CHR ''.'' # e) = CHR ''.'' # e"
proof -
  assume "CHR ''.'' \<notin> set e"
  then have "takeWhile (\<lambda>c. c \<noteq> CHR ''.'') (rev e @ CHR ''.'' # rev p) = rev e"
    by (subst takeWhile_append2) auto
  then show ?thesis by (simp add: extension_def)
qed

lemma mime_table_lower: "list_all (\<lambda>(e, t). map lower e = e \<and> hd e = CHR ''.'' \<and> CHR ''.'' \<notin> set (tl e) \<and> e \<noteq> []) mime_table"
  by (simp add: mime_table_def lower_def)

lemma mime_table_distinct: "distinct (map fst mime_table)"
  by (simp add: mime_table_def)

lemma find_assoc: "distinct (map fst xs) \<Longrightarrow> (k, v) \<in> set xs \<Longrightarrow> List.find (\<lambda>(k', v'). k = k') xs = Some (k, v)"
  by (induction xs) force+

lemma find_congr: "(\<And>x. x \<in> set xs \<Longrightarrow> P x = Q x) \<Longrightarrow> List.find P xs = List.find Q xs"
  by (induction xs) auto

text \<open>
  C38. Content types follow the extension: a path that ends in a known extension, in upper or
  lower case, gets the type of the table, and a path with any other extension, or none, gets
  \<^verbatim>\<open>application/text\<close>.
\<close>

theorem mime_type_by_extension:
  assumes "iequals_law ieq"
  shows "((e, ty) \<in> set mime_table \<longrightarrow> map lower x = e \<longrightarrow> mime_type ieq (p @ x) = ty) \<and>
    (map lower (extension q) \<notin> fst ` set mime_table \<longrightarrow> mime_type ieq q = ''application/text'')"
proof (intro conjI impI)
  assume e: "(e, ty) \<in> set mime_table" "map lower x = e"
  have "hd e = CHR ''.''" "CHR ''.'' \<notin> set (tl e)" "e \<noteq> []"
    using mime_table_lower e(1) by (auto simp: list_all_iff)
  then obtain y where y: "x = CHR ''.'' # y" "CHR ''.'' \<notin> set y"
  proof (cases x)
    case (Cons c y)
    then have "c = CHR ''.''" using e(2) \<open>hd e = CHR ''.''\<close> by (auto simp: lower_dot)
    moreover have "CHR ''.'' \<notin> set y"
    proof
      assume "CHR ''.'' \<in> set y"
      then have "lower (CHR ''.'') \<in> lower ` set y" by (rule imageI)
      moreover have "lower (CHR ''.'') = CHR ''.''" by (simp add: lower_dot)
      ultimately show False using e(2) Cons \<open>CHR ''.'' \<notin> set (tl e)\<close> by auto
    qed
    ultimately show ?thesis using that Cons by blast
  qed (use e(2) \<open>e \<noteq> []\<close> in simp)
  have "ieq (extension (p @ x)) e' \<longleftrightarrow> e = e'" if "(e', t') \<in> set mime_table" for e' t'
    using assms e(2) that mime_table_lower y
    by (auto simp: iequals_law_def extension_append list_all_iff)
  then have "List.find (\<lambda>(e', t). ieq (extension (p @ x)) e') mime_table
      = List.find (\<lambda>(e', t). e = e') mime_table"
    by (intro find_congr) auto
  also have "\<dots> = Some (e, ty)" by (rule find_assoc [OF mime_table_distinct e(1)])
  finally show "mime_type ieq (p @ x) = ty" by (simp add: mime_type_def)
next
  assume n: "map lower (extension q) \<notin> fst ` set mime_table"
  have "\<not> ieq (extension q) e'" if "(e', t') \<in> set mime_table" for e' t'
  proof
    assume "ieq (extension q) e'"
    then have "map lower (extension q) = e'"
      using assms that mime_table_lower by (force simp: iequals_law_def list_all_iff)
    with n that show False by force
  qed
  then have "List.find (\<lambda>(e', t). ieq (extension q) e') mime_table = None"
    by (auto simp: find_None_iff)
  then show "mime_type ieq q = ''application/text''" by (simp add: mime_type_def)
qed

theorem mime_type_by_extension_witness:
  "mime_type (\<lambda>a b. map lower a = map lower b) ''/app.v2/main.Js'' = ''application/javascript'' \<and>
   mime_type (\<lambda>a b. map lower a = map lower b) ''/app.v2/readme'' = ''application/text''"
proof -
  have l: "iequals_law (\<lambda>a b. map lower a = map lower b)" by (simp add: iequals_law_def)
  have "extension ''/app.v2/readme'' = ''.v2/readme''" by (simp add: extension_def)
  then have "map lower (extension ''/app.v2/readme'') \<notin> fst ` set mime_table"
    by (simp add: mime_table_def lower_def)
  moreover have "map lower ''.Js'' = ''.js''" "(''.js'', ''application/javascript'') \<in> set mime_table"
    by (code_simp, simp add: mime_table_def)
  ultimately show ?thesis
    using mime_type_by_extension [OF l, of "''.js''" "''application/javascript''" "''.Js''" "''/app.v2/main''"
        "''/app.v2/readme''"] by simp
qed


subsection \<open>Static files\<close>

definition payload_law :: "('f http_response \<Rightarrow> 'f http_response) \<Rightarrow> bool" where
  "payload_law prep \<longleftrightarrow> (\<forall>r. \<exists>n. prep r = r\<lparr>content_length := n\<rparr>)"

lemma string_response_sels:
  assumes "payload_law (prepare_payload e)"
  shows "status (string_response e req st text) = st"
    "res_body (string_response e req st text) = String_body text"
    "keep_alive (string_response e req st text) = req_keep_alive req"
proof -
  let ?r = "\<lparr>status = st, res_version = req_version req, server_field = ''web/1'',
    content_type = ''text/html'', keep_alive = req_keep_alive req, content_length = None,
    res_body = String_body text\<rparr>"
  obtain n where "prepare_payload e ?r = ?r\<lparr>content_length := n\<rparr>"
    using assms unfolding payload_law_def by blast
  then have "string_response e req st text = ?r\<lparr>content_length := n\<rparr>"
    by (simp only: string_response_def)
  then show "status (string_response e req st text) = st"
    "res_body (string_response e req st text) = String_body text"
    "keep_alive (string_response e req st text) = req_keep_alive req" by simp_all
qed

lemma has_dotdot_append:
  "has_dotdot (xs @ ys) \<longleftrightarrow> has_dotdot xs \<or> has_dotdot ys \<or>
     (xs \<noteq> [] \<and> ys \<noteq> [] \<and> last xs = CHR ''.'' \<and> hd ys = CHR ''.'')"
proof (induction xs rule: has_dotdot.induct)
  case (1 a b s)
  then show ?case by auto
qed (cases ys; auto)+

lemma index_no_dotdot: "\<not> has_dotdot ''index.html''" "\<not> has_dotdot ''/index.html''"
  by simp_all

text \<open>The document root, as it appears in front of every path.\<close>

definition root_prefix :: "string \<Rightarrow> string" where
  "root_prefix doc_root = (if doc_root \<noteq> [] \<and> last doc_root = CHR ''/'' then butlast doc_root else doc_root)"

definition below_root :: "string \<Rightarrow> string \<Rightarrow> bool" where
  "below_root doc_root p \<longleftrightarrow>
     (\<exists>rel. p = root_prefix doc_root @ CHR ''/'' # rel \<and> \<not> has_dotdot (CHR ''/'' # rel))"

lemma path_cat_root: "path_cat doc_root p = root_prefix doc_root @ p"
  by (simp add: path_cat_def root_prefix_def)

lemma open_static_below:
  assumes "t \<noteq> []" "hd t = CHR ''/''" "\<not> has_dotdot t" "open_static e doc_root t = (p, r)"
  shows "below_root doc_root p \<and> r = open_file e p"
proof (cases "p = path_cat doc_root ''/index.html''")
  case True
  with assms(4) show ?thesis
    by (auto simp: open_static_def Let_def below_root_def path_cat_root split: if_splits)
next
  case False
  let ?rel = "t @ (if last t = CHR ''/'' then ''index.html'' else [])"
  have "p = root_prefix doc_root @ ?rel" "r = open_file e p"
    using assms(4) False by (auto simp: open_static_def Let_def path_cat_root split: if_splits)
  moreover have "\<not> has_dotdot ?rel"
    using assms(3) by (auto simp: has_dotdot_append)
  moreover obtain u where "?rel = CHR ''/'' # u" using assms(1,2) by (cases t) auto
  ultimately show ?thesis by (auto simp: below_root_def)
qed

text \<open>
  C10. Static files are confined and guarded: whenever a request is answered from the file
  system (status 200), serving static files is enabled, the client is local unless remote
  access is allowed, no endpoint matches, and the file is one below the document root, reached
  without \<^verbatim>\<open>..\<close>; the response carries its size, its content type and, except for HEAD, the file.
\<close>

theorem static_files_confined:
  assumes "payload_law (prepare_payload e)"
    and "handle_request e conf handlers is_loopback doc_root req = Send r" "status r = Ok"
  shows "static_pages_allow conf \<and> (static_pages_allow_remote conf \<or> is_loopback) \<and>
    find_endpoint handlers (req_method req) (target req) = None \<and>
    (\<exists>p f. below_root doc_root p \<and> open_file e p = Inr f \<and> content_length r = Some (file_size e f) \<and>
       content_type r = mime_type (iequals e) p \<and>
       res_body r = (if req_method req = Head then Empty_body else File_body f))"
proof -
  let ?t = "target req"
  have t: "?t \<noteq> []" "hd ?t = CHR ''/''" "\<not> has_dotdot ?t"
    using assms by (auto simp: handle_request_def Let_def bad_request_def string_response_sels split: if_splits)
  have none: "find_endpoint handlers (req_method req) ?t = None"
    using assms t by (auto simp: handle_request_def Let_def split: option.splits)
  have allow: "static_pages_allow conf \<and> (static_pages_allow_remote conf \<or> is_loopback)"
    using assms t none
    by (auto simp: handle_request_def Let_def bad_request_def string_response_sels split: if_splits)
  obtain p x where o: "open_static e doc_root ?t = (p, x)" by fastforce
  note below = open_static_below [OF t o]
  obtain f where f: "x = Inr f"
    using assms t none allow o
    by (cases x) (auto simp: handle_request_def Let_def not_found_def server_error_def string_response_sels
        split: if_splits)
  then have "r = file_response e req p f"
    using assms t none allow o by (auto simp: handle_request_def Let_def)
  with allow none below f show ?thesis
    by (auto simp: file_response_def intro!: exI [of _ p] exI [of _ f])
qed

text \<open>A file system with two files, for the witnesses.\<close>

definition sample_files :: "string \<Rightarrow> error_code + string" where
  "sample_files p = (if p = ''public/index.html'' then Inr ''<html>''
     else if p = ''public/app.js'' then Inr ''main ()'' else Inl No_such_file)"

definition sample_web :: "string web_env" where
  "sample_web = \<lparr>iequals = (\<lambda>a b. map lower a = map lower b),
     prepare_payload = (\<lambda>r. r\<lparr>content_length := (case res_body r of String_body s \<Rightarrow> Some (length s) | _ \<Rightarrow> None)\<rparr>),
     need_eof = (\<lambda>r. \<not> keep_alive r), open_file = sample_files, file_size = length,
     message = (\<lambda>ec. case ec of Failure m \<Rightarrow> m | _ \<Rightarrow> ''''), beast_version = ''Beast''\<rparr>"

lemma sample_web_sels [simp]:
  "open_file sample_web = sample_files" "file_size sample_web = length"
  "need_eof sample_web r = (\<not> keep_alive r)" "payload_law (prepare_payload sample_web)"
  by (auto simp: sample_web_def payload_law_def)

definition sample_get :: "string \<Rightarrow> request" where
  "sample_get t = \<lparr>req_method = Get, target = t, req_version = 11, req_keep_alive = True, req_body = [],
     is_upgrade = False\<rparr>"

definition static_conf :: web_config where
  "static_conf = \<lparr>static_pages_allow_remote = False, static_pages_allow = True\<rparr>"

theorem static_files_confined_witness:
  "\<exists>r p f. handle_request sample_web static_conf ([] :: nat rest_endpoint list) True ''public/'' (sample_get ''/app.js'')
     = Send r \<and> below_root ''public/'' p \<and> open_file sample_web p = Inr f \<and> res_body r = File_body f"
proof -
  let ?h = "handle_request sample_web static_conf ([] :: nat rest_endpoint list) True ''public/'' (sample_get ''/app.js'')"
  have h: "?h = Send (file_response sample_web (sample_get ''/app.js'') ''public/app.js'' ''main ()'')"
    by (simp add: handle_request_def Let_def sample_get_def static_conf_def open_static_def path_cat_def sample_files_def)
  show ?thesis
    using static_files_confined [OF _ h] h by (force simp: file_response_def sample_get_def)
qed

text \<open>
  C35. Every answer the web server gives by itself. A target that is empty, not absolute or
  contains \<^verbatim>\<open>..\<close> is a bad request before anything else is looked at. An unrouted target is
  refused without permission for static pages; with it, the file is sent if it opens, the index page
  if the file does not exist, 404 with the target exactly when neither exists, and a server error with
  the message of the system for every other failure to open the one or the other.
\<close>

theorem web_error_replies:
  fixes e :: "'f web_env" and handlers :: "'h rest_endpoint list" and conf is_loopback doc_root req
  assumes "payload_law (prepare_payload e)"
  defines "h \<equiv> handle_request e conf handlers is_loopback doc_root req"
    and "file \<equiv> path_cat doc_root (target req) @ (if last (target req) = CHR ''/'' then ''index.html'' else [])"
    and "index \<equiv> path_cat doc_root ''/index.html''"
  defines "says \<equiv> \<lambda>st msg. \<exists>r. h = Send r \<and> status r = st \<and> res_body r = String_body msg \<and>
      keep_alive r = req_keep_alive req"
  shows "(target req = [] \<or> hd (target req) \<noteq> CHR ''/'' \<or> has_dotdot (target req) \<longrightarrow>
      says Bad_request ''Illegal request-target'') \<and>
    (target req = CHR ''/'' # u \<and> \<not> has_dotdot (target req) \<and>
       find_endpoint handlers (req_method req) (target req) = None \<longrightarrow>
       (\<not> (static_pages_allow conf \<and> (static_pages_allow_remote conf \<or> is_loopback)) \<longrightarrow>
          says Bad_request ''Access denied'') \<and>
       (static_pages_allow conf \<and> (static_pages_allow_remote conf \<or> is_loopback) \<longrightarrow>
          (\<forall>f. open_file e file = Inr f \<longrightarrow> h = Send (file_response e req file f)) \<and>
          (\<forall>f. open_file e file = Inl No_such_file \<longrightarrow> open_file e index = Inr f \<longrightarrow>
             h = Send (file_response e req index f)) \<and>
          (\<forall>ec. ec \<noteq> No_such_file \<longrightarrow>
             open_file e file = Inl ec \<or>
             open_file e file = Inl No_such_file \<and> open_file e index = Inl ec \<longrightarrow>
             says Internal_server_error (''An error occurred: '' @ [CHR 0x27] @ message e ec @ [CHR 0x27])) \<and>
          (if open_file e file = Inl No_such_file \<and> open_file e index = Inl No_such_file
           then says Not_found
             (''The resource '' @ [CHR 0x27] @ target req @ [CHR 0x27] @ '' was not found.'')
           else \<not> (\<exists>r. h = Send r \<and> status r = Not_found))))"
proof (intro conjI impI)
  note sels = string_response_sels [OF assms(1)]
  show "says Bad_request ''Illegal request-target''"
    if "target req = [] \<or> hd (target req) \<noteq> CHR ''/'' \<or> has_dotdot (target req)"
    using that by (simp add: says_def h_def handle_request_def bad_request_def sels Let_def)
  assume t: "target req = CHR ''/'' # u \<and> \<not> has_dotdot (target req) \<and>
    find_endpoint handlers (req_method req) (target req) = None"
  show "says Bad_request ''Access denied''"
    if "\<not> (static_pages_allow conf \<and> (static_pages_allow_remote conf \<or> is_loopback))"
    using t that by (auto simp: says_def h_def handle_request_def bad_request_def sels Let_def)
  assume allow: "static_pages_allow conf \<and> (static_pages_allow_remote conf \<or> is_loopback)"
  have t': "target req \<noteq> []" "hd (target req) = CHR ''/''" "\<not> has_dotdot (target req)"
    "find_endpoint handlers (req_method req) (target req) = None"
    using t by auto
  have h: "h = (case open_static e doc_root (target req) of
      (p, Inl ec) \<Rightarrow>
        Send (if ec = No_such_file then not_found e req (target req) else server_error e req (message e ec))
    | (p, Inr f) \<Rightarrow> Send (file_response e req p f))"
    using t' allow by (auto simp: h_def handle_request_def Let_def)
  have o: "open_static e doc_root (target req) =
      (if open_file e file = Inl No_such_file then (index, open_file e index) else (file, open_file e file))"
    by (simp add: open_static_def file_def index_def Let_def)
  show "\<forall>f. open_file e file = Inr f \<longrightarrow> h = Send (file_response e req file f)"
    "\<forall>f. open_file e file = Inl No_such_file \<longrightarrow> open_file e index = Inr f \<longrightarrow>
       h = Send (file_response e req index f)"
    by (simp_all add: h o)
  show "\<forall>ec. ec \<noteq> No_such_file \<longrightarrow>
      open_file e file = Inl ec \<or>
      open_file e file = Inl No_such_file \<and> open_file e index = Inl ec \<longrightarrow>
      says Internal_server_error (''An error occurred: '' @ [CHR 0x27] @ message e ec @ [CHR 0x27])"
    by (auto simp: says_def h o server_error_def quote_def sels)
  show "if open_file e file = Inl No_such_file \<and> open_file e index = Inl No_such_file
      then says Not_found
        (''The resource '' @ [CHR 0x27] @ target req @ [CHR 0x27] @ '' was not found.'')
      else \<not> (\<exists>r. h = Send r \<and> status r = Not_found)"
    by (auto simp: says_def h o server_error_def not_found_def file_response_def quote_def sels
        split: sum.splits if_splits)
qed

definition broken_web :: "string web_env" where
  "broken_web = sample_web\<lparr>open_file := (\<lambda>p. if p = ''public/app.js'' then Inl (Failure ''denied'') else Inl No_such_file)\<rparr>"

theorem web_error_replies_witness:
  "handle_request sample_web static_conf ([] :: nat rest_endpoint list) True ''public'' (sample_get ''/missing'')
     = Send (file_response sample_web (sample_get ''/missing'') ''public/index.html'' ''<html>'') \<and>
   (\<exists>r. handle_request broken_web static_conf ([] :: nat rest_endpoint list) True ''public'' (sample_get ''/app.js'')
     = Send r \<and> status r = Internal_server_error) \<and>
   (\<exists>r. handle_request broken_web static_conf ([] :: nat rest_endpoint list) True ''public'' (sample_get ''/lost'')
     = Send r \<and> status r = Not_found)"
proof -
  note replies = web_error_replies [where handlers = "[] :: nat rest_endpoint list" and conf = static_conf
      and is_loopback = True and doc_root = "''public''"]
  have law: "payload_law (prepare_payload broken_web)"
    using sample_web_sels(4) by (simp add: broken_web_def)
  show ?thesis
    using replies [OF sample_web_sels(4), where req = "sample_get ''/missing''" and u = "''missing''"]
      replies [OF law, where req = "sample_get ''/app.js''" and u = "''app.js''"]
      replies [OF law, where req = "sample_get ''/lost''" and u = "''lost''"]
    by (auto simp: sample_get_def static_conf_def path_cat_def sample_files_def broken_web_def)
qed


end
