(* ===== verification/Writer.thy ===== *)
theory Writer
  imports Prelude
begin

text \<open>
  The interface the HTTP pipeline and the WebSocket send queue share: messages are pushed into
  a queue whose front is being written to the socket, and the completion of a write removes the
  front and starts the next one. The locale states what the two queues promise; inside it, the
  order of the messages on the wire is derived once. Both queues are interpretations, in the
  theories \<^verbatim>\<open>Http_Session\<close> and \<^verbatim>\<open>Websocket\<close>.
\<close>

datatype 'm write_event = Push 'm | Done

fun pushed :: "'m write_event list \<Rightarrow> 'm list" where
  "pushed [] = []"
| "pushed (Push m # evs) = m # pushed evs"
| "pushed (Done # evs) = pushed evs"

definition opt_list :: "'a option \<Rightarrow> 'a list" where
  "opt_list x = (case x of None \<Rightarrow> [] | Some y \<Rightarrow> [y])"

lemma opt_list_simps [simp]: "opt_list None = []" "opt_list (Some y) = [y]"
  by (simp_all add: opt_list_def)

text \<open>
  A run of a writer: the queue, the messages whose write was started, and the number of
  completed writes. A completion without a write in flight cannot happen.
\<close>

fun write_run :: "('m \<Rightarrow> 'q \<Rightarrow> 'q \<times> 'm option) \<Rightarrow> ('q \<Rightarrow> 'q \<times> 'm option) \<Rightarrow>
    'm write_event list \<Rightarrow> 'q \<times> 'm list \<times> nat \<Rightarrow> ('q \<times> 'm list \<times> nat) option" where
  "write_run push fin [] c = Some c"
| "write_run push fin (Push m # evs) (q, started, n) =
     (case push m q of (q', st) \<Rightarrow> write_run push fin evs (q', started @ opt_list st, n))"
| "write_run push fin (Done # evs) (q, started, n) =
     (if n < length started
      then case fin q of (q', st) \<Rightarrow> write_run push fin evs (q', started @ opt_list st, Suc n)
      else None)"

locale serial_writer =
  fixes pending :: "'q \<Rightarrow> 'm list"
    and push :: "'m \<Rightarrow> 'q \<Rightarrow> 'q \<times> 'm option"
    and fin :: "'q \<Rightarrow> 'q \<times> 'm option"
  assumes push_pending: "pending (fst (push m q)) = pending q @ [m]"
    and push_starts: "snd (push m q) = (if pending q = [] then Some m else None)"
    and fin_pending: "pending q \<noteq> [] \<Longrightarrow> pending (fst (fin q)) = tl (pending q)"
    and fin_starts: "pending q \<noteq> [] \<Longrightarrow>
      snd (fin q) = (if tl (pending q) = [] then None else Some (hd (tl (pending q))))"
begin

text \<open>
  With messages \<open>ms\<close> pushed and \<open>n\<close> writes completed: the queue holds the messages from \<open>n\<close> on,
  and the writes started are those completed and, unless the queue is empty, one more.
\<close>

definition in_order :: "'m list \<Rightarrow> 'm list \<Rightarrow> nat \<Rightarrow> 'q \<Rightarrow> bool" where
  "in_order ms started n q \<longleftrightarrow> n \<le> length ms \<and> pending q = drop n ms \<and>
     started = take (if pending q = [] then n else Suc n) ms"

lemma in_order_push:
  assumes "in_order ms started n q" "push m q = (q', st)"
  shows "in_order (ms @ [m]) (started @ opt_list st) n q'"
  using assms push_pending [of m q] push_starts [of m q]
  by (auto simp: in_order_def)

lemma in_order_fin:
  assumes "in_order ms started n q" "pending q \<noteq> []" "fin q = (q', st)"
  shows "in_order ms (started @ opt_list st) (Suc n) q'"
proof -
  have n: "n < length ms" using assms(1,2) by (auto simp: in_order_def)
  have p: "pending q' = drop (Suc n) ms"
    using assms fin_pending [OF assms(2)] by (simp add: in_order_def drop_Suc tl_drop)
  have s: "st = (if drop (Suc n) ms = [] then None else Some (hd (drop (Suc n) ms)))"
    using assms fin_starts [OF assms(2)] by (simp add: in_order_def drop_Suc tl_drop)
  show ?thesis
  proof (cases "Suc n < length ms")
    case True
    then have "take (Suc (Suc n)) ms = take (Suc n) ms @ [ms ! Suc n]"
      by (rule take_Suc_conv_app_nth)
    moreover have "hd (drop (Suc n) ms) = ms ! Suc n" using True by (rule hd_drop_conv_nth)
    ultimately show ?thesis using assms(1,2) p s n True by (simp add: in_order_def)
  qed (use assms(1,2) p s n in \<open>simp add: in_order_def\<close>)
qed

lemma in_order_start: "pending q = [] \<Longrightarrow> in_order [] [] 0 q"
  by (simp add: in_order_def)

lemma in_flight:
  "in_order ms started n q \<Longrightarrow> length started = n + (if pending q = [] then 0 else 1)"
  by (auto simp: in_order_def)

lemma write_run_in_order:
  "write_run push fin evs (q, started, n) = Some (q', started', n') \<Longrightarrow> in_order ms started n q \<Longrightarrow>
     in_order (ms @ pushed evs) started' n' q'"
proof (induction evs arbitrary: q started n ms)
  case (Cons ev evs)
  show ?case
  proof (cases ev)
    case (Push m)
    obtain q1 st where p: "push m q = (q1, st)" by fastforce
    from Cons.IH [OF _ in_order_push [OF Cons.prems(2) p]] Cons.prems(1) p Push
    show ?thesis by simp
  next
    case Done
    obtain q1 st where f: "fin q = (q1, st)" by fastforce
    have "n < length started" using Cons.prems(1) Done by (simp split: if_splits)
    then have "pending q \<noteq> []" using in_flight [OF Cons.prems(2)] by (auto split: if_splits)
    from Cons.IH [OF _ in_order_fin [OF Cons.prems(2) this f]] Cons.prems(1) f Done
    show ?thesis by (simp split: if_splits)
  qed
qed simp

lemma in_order_wire: "in_order ms started n q \<Longrightarrow> started @ tl (pending q) = ms"
  by (auto simp: in_order_def tl_drop drop_Suc [symmetric] split: if_splits)

text \<open>The messages reach the socket in the order they were pushed, one write at a time.\<close>

lemma writes_in_order:
  assumes "write_run push fin evs (q, [], 0) = Some (q', started, n)" "pending q = []"
  shows "started @ tl (pending q') = pushed evs"
    and "length started = n + (if pending q' = [] then 0 else 1)"
proof -
  have i: "in_order (pushed evs) started n q'"
    using write_run_in_order [OF assms(1) in_order_start [OF assms(2)]] by simp
  then show "length started = n + (if pending q' = [] then 0 else 1)" by (rule in_flight)
  show "started @ tl (pending q') = pushed evs" using i by (rule in_order_wire)
qed

end

end
