(* ===== verification/Http_Session.thy ===== *)
theory Http_Session
  imports Http Writer
begin

text \<open>
  \<^verbatim>\<open>webserver.hpp\<close>, \<^verbatim>\<open>http_session\<close>: one connection with its pipeline of responses. Every
  completion handler is one function on the session; what it starts or does on the socket is
  returned as a list of actions. The handlers of one connection run on its strand, so they are
  sequential. A connection (\<open>conn\<close>) is a session together with the asynchronous operations in
  flight, and events are the completions the operating system may deliver.
\<close>

section \<open>The pipeline queue\<close>

definition limit :: nat where
  "limit = 8"

definition is_full :: "'m list \<Rightarrow> bool" where
  "is_full items \<longleftrightarrow> length items \<ge> limit"

text \<open>\<^verbatim>\<open>queue::operator()\<close>: the new queue, and the message whose write is started, if any.\<close>

definition queue_send :: "'m \<Rightarrow> 'm list \<Rightarrow> 'm list \<times> 'm option" where
  "queue_send msg items =
     (let items = items @ [msg] in (items, if length items = 1 then Some (hd items) else None))"

text \<open>\<^verbatim>\<open>queue::on_write\<close>: whether to initiate a read, the new queue, the next message to write.\<close>

definition queue_on_write :: "'m list \<Rightarrow> bool \<times> 'm list \<times> 'm option" where
  "queue_on_write items =
     (let was_full = is_full items; items = tl items
      in (was_full, items, if items \<noteq> [] then Some (hd items) else None))"

interpretation pipeline: serial_writer "\<lambda>items. items" queue_send "\<lambda>items. snd (queue_on_write items)"
  by unfold_locales (auto simp: queue_send_def queue_on_write_def Let_def)

section \<open>The session\<close>

text \<open>\<open>expiry = None\<close> is the largest time point; times are in seconds.\<close>

record 'f http_session =
  items :: "'f http_response list"
  client_version :: nat
  client_keepalive :: bool
  expiry :: "int option"

datatype ('h, 'f) action =
    Start_read
  | Start_write "'f http_response"
  | Wait_timer
  | Shutdown_send
  | Close_socket
  | Upgrade "'h websocket_endpoint" request
  | Report string

text \<open>The effect of a handler: the session after it, and the actions taken.\<close>

type_synonym ('h, 'f) effect = "'f http_session \<times> ('h, 'f) action list"

text \<open>
  What a session refers to: the environment, the registered endpoints, the document root, the
  configuration, whether the peer is the local host, and what the call of an endpoint's handler
  does to the session before it returns.
\<close>

record ('h, 'f) site =
  web :: "'f web_env"
  web_conf :: web_config
  handlers :: "'h rest_endpoint list"
  websocket_handlers :: "'h websocket_endpoint list"
  doc_root :: string
  is_loopback :: bool
  call :: "'h \<Rightarrow> string \<Rightarrow> string list \<Rightarrow> 'f http_session \<Rightarrow> ('h, 'f) effect"

definition new_session :: "'f http_session" where
  "new_session = \<lparr>items = [], client_version = 11, client_keepalive = True, expiry = None\<rparr>"

definition send :: "'f http_response \<Rightarrow> 'f http_session \<Rightarrow> ('h, 'f) effect" where
  "send msg s =
     (case queue_send msg (items s) of
        (items', st) \<Rightarrow> (s\<lparr>items := items'\<rparr>, map Start_write (opt_list st)))"

definition json_response :: "'f web_env \<Rightarrow> string \<Rightarrow> 'f http_session \<Rightarrow> 'f http_response" where
  "json_response e body s = prepare_payload e
     \<lparr>status = Ok, res_version = client_version s, server_field = ''web/1'',
      content_type = ''application/json'', keep_alive = client_keepalive s, content_length = None,
      res_body = String_body body\<rparr>"

definition write_json_response :: "'f web_env \<Rightarrow> string \<Rightarrow> 'f http_session \<Rightarrow>
    ('h, 'f) effect" where
  "write_json_response e body s = send (json_response e body s) s"

definition read :: "int \<Rightarrow> 'f http_session \<Rightarrow> ('h, 'f) effect" where
  "read now s = (s\<lparr>expiry := Some (now + 3600)\<rparr>, [Start_read])"

definition expired :: "int \<Rightarrow> int option \<Rightarrow> bool" where
  "expired now x \<longleftrightarrow> (case x of None \<Rightarrow> False | Some t \<Rightarrow> t \<le> now)"

definition on_timer :: "int \<Rightarrow> error_code \<Rightarrow> 'f http_session \<Rightarrow> ('h, 'f) effect" where
  "on_timer now ec s =
     (s, if ec \<noteq> Success \<and> ec \<noteq> Operation_aborted then [Report ''timer'']
         else if expired now (expiry s) then [Close_socket]
         else [Wait_timer])"

definition run :: "int \<Rightarrow> 'f http_session \<Rightarrow> ('h, 'f) effect" where
  "run now s =
     (case on_timer now Success s of
        (s1, a1) \<Rightarrow> (case read now s1 of (s2, a2) \<Rightarrow> (s2, a1 @ a2)))"

definition graceful_shutdown :: "'f http_session \<Rightarrow> ('h, 'f) effect" where
  "graceful_shutdown s = (s, [Shutdown_send])"

text \<open>\<^verbatim>\<open>handle_request\<close> with its effect on the session: lines 710, 711, and the send or the call.\<close>

definition session_handle_request :: "('h, 'f) site \<Rightarrow> request \<Rightarrow> 'f http_session \<Rightarrow>
    ('h, 'f) effect" where
  "session_handle_request S req s =
     (let s = s\<lparr>client_version := req_version req, client_keepalive := req_keep_alive req\<rparr>
      in case handle_request (web S) (web_conf S) (handlers S) (is_loopback S) (doc_root S) req of
           Send res \<Rightarrow> send res s
         | Call h body params \<Rightarrow> call S h body params s)"

definition on_read :: "('h, 'f) site \<Rightarrow> int \<Rightarrow> error_code \<Rightarrow> request \<Rightarrow> 'f http_session \<Rightarrow>
    ('h, 'f) effect" where
  "on_read S now ec req s =
     (if ec = Operation_aborted then (s, [])
      else if ec = End_of_stream then graceful_shutdown s
      else if ec \<noteq> Success then (s, [Report ''read''])
      else if is_upgrade req then
        (case find_websocket_endpoint (websocket_handlers S) (path (parse_url (target req))) of
           Some ep \<Rightarrow> (s, [Upgrade ep req])
         | None \<Rightarrow> (s, [Report ''WebSocket connection denied, path is not a valid target'']))
      else
        (case session_handle_request S req s of
           (s1, a1) \<Rightarrow>
             if \<not> is_full (items s1)
             then (case read now s1 of (s2, a2) \<Rightarrow> (s2, a1 @ a2))
             else (s1, a1)))"

definition on_write :: "int \<Rightarrow> error_code \<Rightarrow> bool \<Rightarrow> 'f http_session \<Rightarrow> ('h, 'f) effect" where
  "on_write now ec close s =
     (if ec = Operation_aborted then (s, [])
      else if ec \<noteq> Success then (s, [Report ''write''])
      else if close then graceful_shutdown s
      else
        (case queue_on_write (items s) of
           (was_full, items', st) \<Rightarrow>
             (let s1 = s\<lparr>items := items'\<rparr>; a1 = map Start_write (opt_list st)
              in if was_full then (case read now s1 of (s2, a2) \<Rightarrow> (s2, a1 @ a2)) else (s1, a1))))"

section \<open>Connections\<close>

text \<open>
  \<open>reads\<close> and \<open>writing\<close> count the operations in flight, \<open>wire\<close> lists the responses whose write
  was started, \<open>sent\<close> those that were handed to the pipeline; \<open>ended\<close> is set when the session
  shuts the connection down, reports an error and stops, or gives the socket away.
\<close>

record 'f conn =
  sess :: "'f http_session"
  reads :: nat
  writing :: nat
  wire :: "'f http_response list"
  sent :: "'f http_response list"
  ended :: bool

fun apply_action :: "('h, 'f) action \<Rightarrow> 'f conn \<Rightarrow> 'f conn" where
  "apply_action Start_read c = c\<lparr>reads := Suc (reads c)\<rparr>"
| "apply_action (Start_write r) c = c\<lparr>writing := Suc (writing c), wire := wire c @ [r]\<rparr>"
| "apply_action Wait_timer c = c"
| "apply_action Shutdown_send c = c\<lparr>ended := True\<rparr>"
| "apply_action Close_socket c = c\<lparr>ended := True\<rparr>"
| "apply_action (Upgrade ep req) c = c\<lparr>ended := True\<rparr>"
| "apply_action (Report m) c = c\<lparr>ended := True\<rparr>"

definition apply_result :: "('h, 'f) effect \<Rightarrow> 'f conn \<Rightarrow> 'f conn" where
  "apply_result r c = fold apply_action (snd r)
     (c\<lparr>sess := fst r,
        sent := sent c @ drop (length (items (sess c))) (items (fst r))\<rparr>)"

datatype event =
    Read_done error_code request
  | Write_done error_code
  | Late_response string
  | Timer_done error_code

text \<open>
  An event is impossible (\<open>None\<close>) when no such operation is in flight; operations are aborted
  only after the connection has ended. \<open>Late_response\<close> is a response handler called after the
  endpoint's handler has returned.
\<close>

definition conn_event :: "('h, 'f) site \<Rightarrow> int \<times> event \<Rightarrow> 'f conn \<Rightarrow> 'f conn option" where
  "conn_event S tev c =
     (case tev of (now, ev) \<Rightarrow>
      case ev of
        Read_done ec req \<Rightarrow>
          if reads c = 0 \<or> (ec = Operation_aborted \<and> \<not> ended c) then None
          else Some (apply_result (on_read S now ec req (sess c)) (c\<lparr>reads := reads c - 1\<rparr>))
      | Write_done ec \<Rightarrow>
          if writing c = 0 \<or> (ec = Operation_aborted \<and> \<not> ended c) then None
          else Some (apply_result
            (on_write now ec (need_eof (web S) (hd (items (sess c)))) (sess c) :: ('h, 'f) effect)
            (c\<lparr>writing := writing c - 1\<rparr>))
      | Late_response text \<Rightarrow>
          Some (apply_result
            (write_json_response (web S) text (sess c) :: ('h, 'f) effect) c)
      | Timer_done ec \<Rightarrow>
          Some (apply_result (on_timer now ec (sess c) :: ('h, 'f) effect) c))"

fun conn_run :: "('h, 'f) site \<Rightarrow> (int \<times> event) list \<Rightarrow> 'f conn \<Rightarrow> 'f conn option" where
  "conn_run S [] c = Some c"
| "conn_run S (ev # evs) c =
     (case conn_event S ev c of None \<Rightarrow> None | Some c' \<Rightarrow> conn_run S evs c')"

definition new_conn :: "int \<Rightarrow> 'f conn" where
  "new_conn now = apply_result (run now new_session :: (unit, 'f) effect)
     \<lparr>sess = new_session, reads = 0, writing = 0, wire = [], sent = [], ended = False\<rparr>"

section \<open>Invariants\<close>

text \<open>A handler sends at most one response before it returns; a synchronous one sends exactly one.\<close>

definition calls_send :: "('h, 'f) site \<Rightarrow> bool" where
  "calls_send S \<longleftrightarrow> (\<forall>h body params s. call S h body params s = (s, []) \<or> (\<exists>r. call S h body params s = send r s))"

definition synchronous :: "('h, 'f) site \<Rightarrow> bool" where
  "synchronous S \<longleftrightarrow> (\<forall>h body params s. \<exists>r. call S h body params s = send r s)"

lemma synchronous_calls: "synchronous S \<Longrightarrow> calls_send S"
  by (auto simp: synchronous_def calls_send_def)

lemma conn_run_invariant:
  assumes "conn_run S evs c = Some c'" "I c"
    and "\<And>c tev c'. I c \<Longrightarrow> tev \<in> set evs \<Longrightarrow> conn_event S tev c = Some c' \<Longrightarrow> I c'"
  shows "I c'"
  using assms
proof (induction evs arbitrary: c)
  case (Cons tev evs)
  from Cons.prems(1) obtain c1 where c1: "conn_event S tev c = Some c1" "conn_run S evs c1 = Some c'"
    by (auto split: option.splits)
  have "I c1" by (rule Cons.prems(3) [OF Cons.prems(2) _ c1(1)]) simp
  with c1(2) show ?case
  proof (rule Cons.IH)
    fix c tev' c' assume "I c" "tev' \<in> set evs" "conn_event S tev' c = Some c'"
    then show "I c'" by (intro Cons.prems(3) [of c tev' c']) simp_all
  qed
qed simp

text \<open>The outcomes of the two completion handlers, as what happens to the connection.\<close>

definition pushed_msg :: "'f http_response \<Rightarrow> 'f conn \<Rightarrow> 'f conn" where
  "pushed_msg r c = c\<lparr>sess := (sess c)\<lparr>items := items (sess c) @ [r]\<rparr>, sent := sent c @ [r],
     writing := (if items (sess c) = [] then Suc (writing c) else writing c),
     wire := (if items (sess c) = [] then wire c @ [r] else wire c)\<rparr>"

lemma apply_send:
  assumes "length (items (sess c)) = length (items s)"
  shows "apply_result (send r s :: ('h, 'f) effect) c = pushed_msg r (c\<lparr>sess := s\<rparr>)"
proof (cases "items s = []")
  case True
  with assms show ?thesis
    by (simp add: apply_result_def send_def queue_send_def pushed_msg_def)
next
  case False
  then have "length (items s @ [r]) \<noteq> 1" by simp
  with assms False show ?thesis
    by (simp add: apply_result_def send_def queue_send_def pushed_msg_def)
qed

definition popped :: "'f conn \<Rightarrow> 'f conn" where
  "popped c = c\<lparr>sess := (sess c)\<lparr>items := tl (items (sess c))\<rparr>,
     writing := (if tl (items (sess c)) = [] then writing c else Suc (writing c)),
     wire := (if tl (items (sess c)) = [] then wire c else wire c @ [hd (tl (items (sess c)))])\<rparr>"

definition reading :: "int \<Rightarrow> 'f conn \<Rightarrow> 'f conn" where
  "reading now c = c\<lparr>sess := (sess c)\<lparr>expiry := Some (now + 3600)\<rparr>, reads := Suc (reads c)\<rparr>"

lemma fold_apply_sels [simp]:
  "sess (fold apply_action acts c) = sess c" "sent (fold apply_action acts c) = sent c"
proof (induction acts arbitrary: c)
  case (Cons a acts)
  { case 1 show ?case using Cons by (cases a) simp_all }
  { case 2 show ?case using Cons by (cases a) simp_all }
qed simp_all

lemma apply_action_update:
  "apply_action a (c\<lparr>sess := s, sent := ms\<rparr>) = (apply_action a c)\<lparr>sess := s, sent := ms\<rparr>"
  by (cases a; cases c) simp_all

lemma fold_apply_update:
  "fold apply_action acts (c\<lparr>sess := s, sent := ms\<rparr>) = (fold apply_action acts c)\<lparr>sess := s, sent := ms\<rparr>"
  by (induction acts arbitrary: c) (simp_all only: fold_simps apply_action_update)

lemma apply_result_read:
  assumes "items s1 = items (sess c1)"
  shows "apply_result (read now s1 :: ('h, 'f) effect) c1
    = reading now (c1\<lparr>sess := s1\<rparr>)"
  by (simp add: apply_result_def read_def reading_def assms)

lemma apply_result_seq:
  assumes "length (items (sess c)) \<le> length (items s1)" "items s2 = items s1"
  shows "apply_result (s2, a1 @ a2) c = apply_result (s2, a2) (apply_result (s1, a1) c)"
proof -
  have "apply_result (s1, a1) c = (fold apply_action a1 c)\<lparr>sess := s1,
      sent := sent c @ drop (length (items (sess c))) (items s1)\<rparr>"
    by (simp add: apply_result_def fold_apply_update)
  then show ?thesis
    by (simp add: apply_result_def fold_apply_update assms(2))
qed

lemma apply_result_seq_pop:
  assumes "length (items s1) \<le> length (items (sess c))" "items s2 = items s1"
  shows "apply_result (s2, a1 @ a2) c = apply_result (s2, a2) (apply_result (s1, a1) c)"
proof -
  have d: "drop (length (items (sess c))) (items s1) = []" using assms(1) by simp
  have "apply_result (s1, a1) c = (fold apply_action a1 c)\<lparr>sess := s1, sent := sent c\<rparr>"
    by (simp only: apply_result_def fst_conv snd_conv d append_Nil2 fold_apply_update)
  moreover have "apply_result (s2, a1 @ a2) c
      = (fold apply_action (a1 @ a2) c)\<lparr>sess := s2, sent := sent c\<rparr>"
    by (simp only: apply_result_def fst_conv snd_conv assms(2) d append_Nil2 fold_apply_update)
  ultimately show ?thesis
    by (simp add: apply_result_def fold_apply_update assms(2))
qed

lemma read_items [simp]: "items (fst (read now s)) = items s"
  by (simp add: read_def)

lemma quiet_result: "apply_result (sess c, []) c = c"
  by (simp add: apply_result_def)

lemma ending_result: "fold apply_action acts c = c\<lparr>ended := True\<rparr> \<Longrightarrow> apply_result (sess c, acts) c = c\<lparr>ended := True\<rparr>"
  by (simp add: apply_result_def)

lemma session_handle_request_cases:
  assumes "calls_send S"
  obtains s' where "items s' = items s" "session_handle_request S req s = (s', [])" "\<not> synchronous S"
    | s' r where "items s' = items s" "session_handle_request S req s = send r s'"
proof -
  let ?s = "s\<lparr>client_version := req_version req, client_keepalive := req_keep_alive req\<rparr>"
  show thesis
  proof (cases "handle_request (web S) (web_conf S) (handlers S) (is_loopback S) (doc_root S) req")
    case (Send r)
    then show thesis using that(2) [of ?s r] by (simp add: session_handle_request_def)
  next
    case (Call h body params)
    then have c: "session_handle_request S req s = call S h body params ?s"
      by (simp add: session_handle_request_def)
    show thesis
    proof (cases "\<exists>r. call S h body params ?s = send r ?s")
      case True
      then obtain r where "call S h body params ?s = send r ?s" by blast
      then show thesis using that(2) [of ?s r] c by simp
    next
      case False
      then have "call S h body params ?s = (?s, [])" "\<not> synchronous S"
        using assms unfolding calls_send_def synchronous_def by blast+
      then show thesis using that(1) [of ?s] c by simp
    qed
  qed
qed

lemma on_read_cases:
  fixes S :: "('h, 'f) site"
  assumes "calls_send S"
  obtains "apply_result (on_read S now ec req (sess c)) c = c" "ec = Operation_aborted"
    | "apply_result (on_read S now ec req (sess c)) c = c\<lparr>ended := True\<rparr>"
    | s' c1 where "items s' = items (sess c)"
        "(c1 = c\<lparr>sess := s'\<rparr> \<and> \<not> synchronous S) \<or> (\<exists>r. c1 = pushed_msg r (c\<lparr>sess := s'\<rparr>))"
        "apply_result (on_read S now ec req (sess c)) c
           = (if is_full (items (sess c1)) then c1 else reading now c1)"
proof -
  consider "ec = Operation_aborted" | "ec = End_of_stream" | "ec \<noteq> Operation_aborted" "ec \<noteq> End_of_stream" "ec \<noteq> Success"
    | "ec = Success" "is_upgrade req" | "ec = Success" "\<not> is_upgrade req" by blast
  then show thesis
  proof cases
    case 1
    then show thesis using that(1) by (simp add: on_read_def quiet_result)
  next
    case 2
    then show thesis using that(2) by (simp add: on_read_def graceful_shutdown_def ending_result)
  next
    case 3
    then show thesis using that(2) by (simp add: on_read_def ending_result)
  next
    case 4
    then show thesis using that(2) by (simp add: on_read_def ending_result split: option.split)
  next
    case 5
    obtain s1 a1 where h: "session_handle_request S req (sess c) = (s1, a1)" by fastforce
    obtain c1 s' where c1: "apply_result (s1, a1) c = c1" "items s' = items (sess c)"
      "(c1 = c\<lparr>sess := s'\<rparr> \<and> \<not> synchronous S) \<or> (\<exists>r. c1 = pushed_msg r (c\<lparr>sess := s'\<rparr>))"
      "length (items (sess c)) \<le> length (items s1)" "sess c1 = s1"
    proof (rule session_handle_request_cases [OF assms, of "sess c" req])
      fix s' assume s': "items s' = items (sess c)" "session_handle_request S req (sess c) = (s', [])" "\<not> synchronous S"
      show thesis
        using h s' by (intro that [of "c\<lparr>sess := s'\<rparr>" s']) (auto simp: apply_result_def)
    next
      fix s' r assume s': "items s' = items (sess c)" "session_handle_request S req (sess c) = send r s'"
      have "apply_result (send r s' :: ('h, 'f) effect) c = pushed_msg r (c\<lparr>sess := s'\<rparr>)"
        using s'(1) by (intro apply_send) simp
      moreover have "s1 = s'\<lparr>items := items s' @ [r]\<rparr>"
        using h s'(2) by (auto simp: send_def queue_send_def Let_def)
      ultimately show thesis
        using h s' by (intro that [of "pushed_msg r (c\<lparr>sess := s'\<rparr>)" s']) (auto simp: pushed_msg_def)
    qed
    show thesis
    proof (rule that(3) [OF c1(2,3)])
      have r: "on_read S now ec req (sess c) = (if \<not> is_full (items s1)
          then (fst (read now s1 :: ('h, 'f) effect), a1 @ snd (read now s1)) else (s1, a1))"
        using 5 h by (simp add: on_read_def case_prod_unfold)
      show "apply_result (on_read S now ec req (sess c)) c = (if is_full (items (sess c1)) then c1 else reading now c1)"
      proof (cases "is_full (items s1)")
        case False
        have "apply_result (on_read S now ec req (sess c)) c
            = apply_result (read now s1 :: ('h, 'f) effect) (apply_result (s1, a1) c)"
          using r False apply_result_seq [OF c1(4), of "fst (read now s1 :: ('h, 'f) effect)" a1
            "snd (read now s1 :: ('h, 'f) effect)"] by simp
        also have "\<dots> = reading now (c1\<lparr>sess := s1\<rparr>)"
          unfolding c1(1) by (rule apply_result_read) (simp add: c1(5))
        also have "c1\<lparr>sess := s1\<rparr> = c1" using c1(5) by (cases c1) simp
        finally show ?thesis using False c1(5) by simp
      qed (use r c1(1,5) in simp)
    qed
  qed
qed


lemma on_write_success:
  fixes c :: "'f conn"
  assumes "c' = apply_result (on_write now Success close (sess c) :: ('h, 'f) effect) c"
    and "items (sess c) \<noteq> []" "is_full (items (sess c)) = full" "\<not> close"
  shows "c' = (if full then reading now (popped c) else popped c)"
proof -
  let ?s1 = "(sess c)\<lparr>items := tl (items (sess c))\<rparr>"
  let ?a1 = "map Start_write (opt_list (if tl (items (sess c)) \<noteq> [] then Some (hd (tl (items (sess c)))) else None))
    :: ('h, 'f) action list"
  have pop: "apply_result (?s1, ?a1) c = popped c"
    by (simp add: apply_result_def popped_def)
  have w: "on_write now Success close (sess c) = (if full
      then (fst (read now ?s1 :: ('h, 'f) effect), ?a1 @ snd (read now ?s1)) else (?s1, ?a1))"
    using assms(3,4) by (simp add: on_write_def queue_on_write_def case_prod_unfold Let_def)
  show ?thesis
  proof (cases full)
    case True
    have "c' = apply_result (read now ?s1 :: ('h, 'f) effect) (popped c)"
      using assms(1) w True apply_result_seq_pop [of ?s1 c "fst (read now ?s1 :: ('h, 'f) effect)" ?a1
        "snd (read now ?s1 :: ('h, 'f) effect)"] pop by simp
    also have "\<dots> = reading now ((popped c)\<lparr>sess := ?s1\<rparr>)"
      by (rule apply_result_read) (simp add: popped_def)
    also have "(popped c)\<lparr>sess := ?s1\<rparr> = popped c" by (simp add: popped_def)
    finally show ?thesis using True by simp
  qed (use assms(1) w pop in simp)
qed

lemma on_write_cases:
  fixes c :: "'f conn"
  assumes "c' = apply_result (on_write now ec close (sess c) :: ('h, 'f) effect) c"
    and "items (sess c) \<noteq> []"
  obtains "c' = c" "ec = Operation_aborted" | "c' = c\<lparr>ended := True\<rparr>"
    | "c' = (if is_full (items (sess c)) then reading now (popped c) else popped c)"
proof -
  consider "ec = Operation_aborted" | "ec \<noteq> Operation_aborted" "ec \<noteq> Success"
    | "ec = Success" "close" | "ec = Success" "\<not> close" by blast
  then show thesis
  proof cases
    case 1
    then show thesis using that(1) assms(1) by (simp add: on_write_def quiet_result)
  next
    case 2
    then show thesis using that(2) assms(1) by (simp add: on_write_def ending_result)
  next
    case 3
    then show thesis using that(2) assms(1) by (simp add: on_write_def graceful_shutdown_def ending_result)
  next
    case 4
    show thesis
    proof (rule that(3))
      show "c' = (if is_full (items (sess c)) then reading now (popped c) else popped c)"
        by (rule on_write_success [OF assms(1) [unfolded 4(1)] assms(2) refl 4(2)])
    qed
  qed
qed

lemma on_timer_cases:
  fixes c :: "'f conn"
  assumes "c' = apply_result (on_timer now ec (sess c) :: ('h, 'f) effect) c"
  shows "c' \<in> {c, c\<lparr>ended := True\<rparr>}"
proof -
  have "apply_result (sess c, [Wait_timer]) c = c" by (simp add: apply_result_def)
  then show ?thesis unfolding assms by (auto simp: on_timer_def ending_result)
qed

text \<open>The order of the responses, and at most one write in flight.\<close>

definition wire_inv :: "'f conn \<Rightarrow> bool" where
  "wire_inv c \<longleftrightarrow> (\<exists>n. pipeline.in_order (sent c) (wire c) n (items (sess c))) \<and>
     writing c \<le> 1 \<and> (writing c = 1 \<longrightarrow> items (sess c) \<noteq> [])"

lemma wire_inv_pushed: "wire_inv c \<Longrightarrow> wire_inv (pushed_msg r c)"
proof -
  assume I: "wire_inv c"
  then obtain n where n: "pipeline.in_order (sent c) (wire c) n (items (sess c))" by (auto simp: wire_inv_def)
  have "queue_send r (items (sess c)) = (items (sess c) @ [r], if items (sess c) = [] then Some r else None)"
    by (auto simp: queue_send_def Let_def)
  from pipeline.in_order_push [OF n this]
  have "pipeline.in_order (sent c @ [r]) (if items (sess c) = [] then wire c @ [r] else wire c) n (items (sess c) @ [r])"
    by (cases "items (sess c) = []") simp_all
  with I show ?thesis by (auto simp: wire_inv_def pushed_msg_def)
qed

lemma wire_inv_popped: "wire_inv c \<Longrightarrow> writing c = 1 \<Longrightarrow> wire_inv (popped (c\<lparr>writing := 0\<rparr>))"
proof -
  assume I: "wire_inv c" "writing c = 1"
  then obtain n where n: "pipeline.in_order (sent c) (wire c) n (items (sess c))" and ne: "items (sess c) \<noteq> []"
    by (auto simp: wire_inv_def)
  let ?i = "items (sess c)"
  have "snd (queue_on_write ?i) = (tl ?i, if tl ?i \<noteq> [] then Some (hd (tl ?i)) else None)"
    by (simp add: queue_on_write_def Let_def)
  from pipeline.in_order_fin [OF n ne this]
  have "pipeline.in_order (sent c) (if tl ?i = [] then wire c else wire c @ [hd (tl ?i)]) (Suc n) (tl ?i)"
    by (cases "tl ?i = []") simp_all
  then show ?thesis by (auto simp: wire_inv_def popped_def)
qed

lemma wire_inv_same:
  "wire_inv c \<Longrightarrow> items (sess c') = items (sess c) \<Longrightarrow> sent c' = sent c \<Longrightarrow> wire c' = wire c \<Longrightarrow>
     writing c' \<le> writing c \<Longrightarrow> wire_inv c'"
  by (auto simp: wire_inv_def)

lemma wire_inv_event:
  fixes S :: "('h, 'f) site"
  assumes "calls_send S" "wire_inv c" "conn_event S (now, ev) c = Some c'"
  shows "wire_inv c'"
proof (cases ev)
  case (Read_done ec req)
  let ?c = "c\<lparr>reads := reads c - 1\<rparr>"
  have I: "wire_inv ?c" using assms(2) by (rule wire_inv_same) simp_all
  have c': "c' = apply_result (on_read S now ec req (sess ?c)) ?c"
    using assms(3) Read_done by (simp add: conn_event_def split: if_splits)
  show ?thesis
  proof (rule on_read_cases [OF assms(1), of now ec req ?c])
    fix s' c1
    assume s': "items s' = items (sess ?c)" and o: "(c1 = ?c\<lparr>sess := s'\<rparr> \<and> \<not> synchronous S) \<or> (\<exists>r. c1 = pushed_msg r (?c\<lparr>sess := s'\<rparr>))"
      and res: "apply_result (on_read S now ec req (sess ?c)) ?c = (if is_full (items (sess c1)) then c1 else reading now c1)"
    have "wire_inv (?c\<lparr>sess := s'\<rparr>)" using I by (rule wire_inv_same) (simp_all add: s')
    then have "wire_inv c1" using o wire_inv_pushed by blast
    then show ?thesis unfolding c' res
      by (auto simp: reading_def intro: wire_inv_same)
  qed (use I c' in \<open>auto intro: wire_inv_same [OF I]\<close>)
next
  case (Write_done ec)
  let ?c = "c\<lparr>writing := writing c - 1\<rparr>"
  have w: "writing c = 1" "items (sess ?c) \<noteq> []"
    using assms(2,3) Write_done by (auto simp: conn_event_def wire_inv_def split: if_splits)
  have I: "wire_inv ?c" using assms(2) by (rule wire_inv_same) simp_all
  have c': "c' = apply_result (on_write now ec (need_eof (web S) (hd (items (sess c)))) (sess ?c) :: ('h, 'f) effect) ?c"
    using assms(3) Write_done by (simp add: conn_event_def split: if_splits)
  have p: "wire_inv (popped ?c)" using wire_inv_popped [OF assms(2) w(1)] w(1) by simp
  show ?thesis
    by (rule on_write_cases [OF c' w(2)])
      (use I p c' in \<open>auto simp: reading_def intro: wire_inv_same [OF I] wire_inv_same [OF p] split: if_splits\<close>)
next
  case (Late_response b)
  then have "c' = apply_result (send (json_response (web S) b (sess c)) (sess c) :: ('h, 'f) effect) c"
    using assms(3) by (simp add: conn_event_def write_json_response_def)
  then have "c' = pushed_msg (json_response (web S) b (sess c)) c" by (simp add: apply_send)
  with assms(2) show ?thesis by (simp add: wire_inv_pushed)
next
  case (Timer_done ec)
  then have "c' = apply_result (on_timer now ec (sess c) :: ('h, 'f) effect) c"
    using assms(3) by (simp add: conn_event_def)
  from on_timer_cases [OF this] show ?thesis using assms(2) by (auto intro: wire_inv_same)
qed

lemma new_conn_eq: "new_conn now = \<lparr>sess = new_session\<lparr>expiry := Some (now + 3600)\<rparr>, reads = 1,
    writing = 0, wire = [], sent = [], ended = False\<rparr>"
  by (simp add: new_conn_def run_def on_timer_def new_session_def expired_def read_def apply_result_def)

lemma wire_inv_new: "wire_inv (new_conn now)"
  by (simp add: wire_inv_def new_conn_eq new_session_def pipeline.in_order_def)


text \<open>Flow control: a read is outstanding exactly while the pipeline has room.\<close>

definition read_inv :: "'f conn \<Rightarrow> bool" where
  "read_inv c \<longleftrightarrow> reads c \<le> 1 \<and> length (items (sess c)) \<le> limit \<and>
     (is_full (items (sess c)) \<longrightarrow> reads c = 0) \<and>
     (\<not> ended c \<longrightarrow> \<not> is_full (items (sess c)) \<longrightarrow> reads c = 1)"

lemma read_inv_event:
  fixes S :: "('h, 'f) site"
  assumes "synchronous S" "wire_inv c" "read_inv c" "conn_event S (now, ev) c = Some c'"
    and "\<And>b. ev \<noteq> Late_response b"
  shows "read_inv c'"
proof (cases ev)
  case (Read_done ec req)
  let ?c = "c\<lparr>reads := reads c - 1\<rparr>"
  have r: "reads c = 1" "length (items (sess c)) < limit" "ec = Operation_aborted \<longrightarrow> ended c"
    using assms(3,4) Read_done by (auto simp: conn_event_def read_inv_def is_full_def split: if_splits)
  have c': "c' = apply_result (on_read S now ec req (sess ?c)) ?c"
    using assms(4) Read_done by (simp add: conn_event_def split: if_splits)
  show ?thesis
  proof (rule on_read_cases [OF synchronous_calls [OF assms(1)], of now ec req ?c])
    fix s' c1
    assume s': "items s' = items (sess ?c)"
      and o: "(c1 = ?c\<lparr>sess := s'\<rparr> \<and> \<not> synchronous S) \<or> (\<exists>m. c1 = pushed_msg m (?c\<lparr>sess := s'\<rparr>))"
      and res: "apply_result (on_read S now ec req (sess ?c)) ?c = (if is_full (items (sess c1)) then c1 else reading now c1)"
    obtain m where c1: "c1 = pushed_msg m (?c\<lparr>sess := s'\<rparr>)" using o assms(1) by blast
    have len: "length (items (sess c1)) \<le> limit" "reads c1 = 0"
      using r s' by (simp_all add: c1 pushed_msg_def)
    then show ?thesis
      unfolding c' res by (auto simp: read_inv_def reading_def)
  qed (use c' r in \<open>auto simp: read_inv_def is_full_def\<close>)
next
  case (Write_done ec)
  let ?c = "c\<lparr>writing := writing c - 1\<rparr>"
  have w: "items (sess ?c) \<noteq> []" "ec = Operation_aborted \<longrightarrow> ended c"
    using assms(2,4) Write_done by (auto simp: conn_event_def wire_inv_def split: if_splits)
  have c': "c' = apply_result (on_write now ec (need_eof (web S) (hd (items (sess c)))) (sess ?c) :: ('h, 'f) effect) ?c"
    using assms(4) Write_done by (simp add: conn_event_def split: if_splits)
  have pop: "reads (popped ?c) = reads c" "length (items (sess (popped ?c))) = length (items (sess c)) - 1"
    "ended (popped ?c) = ended c"
    by (simp_all add: popped_def)
  show ?thesis
    by (rule on_write_cases [OF c' w(1)])
      (use assms(3) w pop in \<open>auto simp: read_inv_def is_full_def reading_def limit_def\<close>)
next
  case (Late_response b)
  with assms(5) show ?thesis by blast
next
  case (Timer_done ec)
  then have "c' = apply_result (on_timer now ec (sess c) :: ('h, 'f) effect) c"
    using assms(4) by (simp add: conn_event_def)
  from on_timer_cases [OF this] show ?thesis using assms(3) by (auto simp: read_inv_def)
qed

section \<open>Properties\<close>

text \<open>
  C5. Responses leave in the order they were given to the pipeline, one write at a time:
  whatever the events on a connection, and whether the handlers answer at once or later, the
  responses written so far, followed by those waiting behind the one being written, are the
  responses handed over, in order, and at most one write is in flight.
\<close>

theorem responses_in_order:
  fixes S :: "('h, 'f) site"
  assumes "calls_send S" "conn_run S evs (new_conn t0) = Some c"
  shows "wire c @ tl (items (sess c)) = sent c \<and> writing c \<le> 1"
proof -
  have I: "wire_inv c"
    using assms(2) wire_inv_new
  proof (rule conn_run_invariant)
    fix c c' :: "'f conn" and tev
    assume "wire_inv c" "conn_event S tev c = Some c'"
    then show "wire_inv c'" using wire_inv_event [OF assms(1), of c "fst tev" "snd tev"] by simp
  qed
  then obtain n where "pipeline.in_order (sent c) (wire c) n (items (sess c))"
    by (auto simp: wire_inv_def)
  then have "wire c @ tl (items (sess c)) = sent c" by (rule pipeline.in_order_wire)
  with I show ?thesis by (simp add: wire_inv_def)
qed

text \<open>
  C12. Flow control with synchronous handlers: when every endpoint answers before it returns,
  the pipeline never holds more than 8 responses, at most one read is outstanding, and as long
  as the connection lasts a read is outstanding exactly while the pipeline is not full.
\<close>

theorem pipeline_flow_control:
  fixes S :: "('h, 'f) site"
  assumes "synchronous S" "conn_run S evs (new_conn t0) = Some c"
    and "\<forall>(t, ev) \<in> set evs. \<forall>b. ev \<noteq> Late_response b"
  shows "length (items (sess c)) \<le> 8 \<and> reads c \<le> 1 \<and>
    (\<not> ended c \<longrightarrow> (reads c = 1 \<longleftrightarrow> \<not> is_full (items (sess c))))"
proof -
  have new: "wire_inv (new_conn t0) \<and> read_inv (new_conn t0 :: 'f conn)"
    using wire_inv_new by (simp add: read_inv_def new_conn_eq new_session_def is_full_def limit_def)
  have "wire_inv c \<and> read_inv c"
    using assms(2) new
  proof (rule conn_run_invariant)
    fix c c' :: "'f conn" and tev
    assume I: "wire_inv c \<and> read_inv c" and e: "tev \<in> set evs" "conn_event S tev c = Some c'"
    have ev: "conn_event S (fst tev, snd tev) c = Some c'" using e(2) by simp
    have late: "snd tev \<noteq> Late_response b" for b using assms(3) e(1) by (cases tev) auto
    show "wire_inv c' \<and> read_inv c'"
      using wire_inv_event [OF synchronous_calls [OF assms(1)] _ ev]
        read_inv_event [OF assms(1) _ _ ev late] I by blast
  qed
  then show ?thesis by (auto simp: read_inv_def limit_def)
qed


text \<open>Handlers that answer later: the connection after reads without answers, and late answers.\<close>

lemma conn_run_append:
  "conn_run S (xs @ ys) c = (case conn_run S xs c of None \<Rightarrow> None | Some c' \<Rightarrow> conn_run S ys c')"
  by (induction xs arbitrary: c) (simp_all split: option.split)

definition waiting :: "('h, 'f) site \<Rightarrow> nat \<Rightarrow> 'f conn \<Rightarrow> bool" where
  "waiting S k c \<longleftrightarrow> length (items (sess c)) = k \<and> reads c = 1 \<and>
     writing c = (if k = 0 then 0 else 1) \<and> \<not> ended c \<and> client_keepalive (sess c) \<and> (\<forall>r \<in> set (items (sess c)). \<not> need_eof (web S) r)"

lemma waiting_read:
  fixes S :: "('h, 'f) site"
  assumes "waiting S 0 c" "\<not> is_upgrade req \<and> req_keep_alive req"
    and "handle_request (web S) (web_conf S) (handlers S) (is_loopback S) (doc_root S) req = Call h body params"
    and "\<And>s. call S h body params s = (s, [])"
  shows "\<exists>c'. conn_event S (now, Read_done Success req) c = Some c' \<and> waiting S 0 c'"
proof -
  let ?c = "c\<lparr>reads := reads c - 1\<rparr>"
  let ?s = "(sess c)\<lparr>client_version := req_version req, client_keepalive := req_keep_alive req\<rparr>"
  have "\<not> is_full (items (sess c))" using assms(1) by (simp add: waiting_def is_full_def limit_def)
  then have "on_read S now Success req (sess ?c) = read now ?s"
    using assms(2,4) by (simp add: on_read_def session_handle_request_def assms(3) read_def)
  then have "conn_event S (now, Read_done Success req) c
      = Some (apply_result (read now ?s :: ('h, 'f) effect) ?c)"
    using assms(1) by (simp add: conn_event_def waiting_def)
  also have "apply_result (read now ?s :: ('h, 'f) effect) ?c = reading now (?c\<lparr>sess := ?s\<rparr>)"
    by (rule apply_result_read) simp
  finally show ?thesis using assms(1,2) by (simp add: waiting_def reading_def)
qed

lemma waiting_late:
  fixes S :: "('h, 'f) site"
  assumes "waiting S k c" "\<And>s. client_keepalive s \<Longrightarrow> \<not> need_eof (web S) (json_response (web S) b s)"
  shows "\<exists>c'. conn_event S (now, Late_response b) c = Some c' \<and> waiting S (Suc k) c'"
proof -
  let ?m = "json_response (web S) b (sess c)"
  have "conn_event S (now, Late_response b) c
      = Some (apply_result (send ?m (sess c) :: ('h, 'f) effect) c)"
    by (simp add: conn_event_def write_json_response_def)
  also have "apply_result (send ?m (sess c) :: ('h, 'f) effect) c = pushed_msg ?m c"
    by (simp add: apply_send)
  finally show ?thesis using assms by (auto simp: waiting_def pushed_msg_def)
qed

lemma conn_run_replicate:
  assumes "\<And>k c. P k c \<Longrightarrow> \<exists>c'. conn_event S ev c = Some c' \<and> P (f k) c'" "P k c"
  shows "\<exists>c'. conn_run S (replicate n ev) c = Some c' \<and> P ((f ^^ n) k) c'"
  using assms(2)
proof (induction n arbitrary: k c)
  case (Suc n)
  obtain c1 where c1: "conn_event S ev c = Some c1" "P (f k) c1" using assms(1) [OF Suc.prems] by blast
  from Suc.IH [OF c1(2)] c1(1) show ?case by (simp add: funpow_swap1)
qed auto

text \<open>
  C24. Where flow control ends: with an endpoint whose handler answers later, as the program's
  work endpoint does, the limit of the pipeline is not enforced. Nine pipelined requests are
  read while none is answered; their nine answers all enter the pipeline, and when the first is
  written the session starts a second read beside the outstanding one, on the same socket,
  buffer and request object.
\<close>

theorem late_answers_overrun:
  fixes S :: "('h, 'f) site"
  assumes "\<not> is_upgrade req \<and> req_keep_alive req" "\<And>s. call S h body params s = (s, [])"
    and "handle_request (web S) (web_conf S) (handlers S) (is_loopback S) (doc_root S) req = Call h body params"
    and "\<And>s. client_keepalive s \<Longrightarrow> \<not> need_eof (web S) (json_response (web S) b s)"
  shows "\<exists>c c'. conn_run S (replicate 9 (0, Read_done Success req) @ replicate 9 (0, Late_response b)) (new_conn 0) = Some c \<and>
    length (items (sess c)) = 9 \<and> conn_event S (0, Write_done Success) c = Some c' \<and>
    reads c' = 2 \<and> \<not> ended c'"
proof -
  have "waiting S 0 (new_conn 0)" by (simp add: waiting_def new_conn_eq new_session_def)
  moreover have "\<exists>c'. conn_event S (0, Read_done Success req) c = Some c' \<and> (id k = 0 \<and> waiting S (id k) c')"
    if "k = 0 \<and> waiting S k c" for k c
    using waiting_read [of S c req h body params 0, OF _ assms(1,3,2)] that by auto
  ultimately obtain c1 where c1: "conn_run S (replicate 9 (0, Read_done Success req)) (new_conn 0) = Some c1"
    "waiting S 0 c1"
    using conn_run_replicate [of "\<lambda>k c. k = 0 \<and> waiting S k c" S "(0, Read_done Success req)" id 0 "new_conn 0" 9]
    by auto
  obtain c where c: "conn_run S (replicate 9 (0, Late_response b)) c1 = Some c" "waiting S ((Suc ^^ 9) 0) c"
    using conn_run_replicate [of "waiting S" S "(0, Late_response b)" Suc, OF waiting_late [OF _ assms(4)] c1(2)]
    by blast
  have w: "waiting S 9 c" using c(2) by (simp add: numeral_eq_Suc)
  let ?c = "c\<lparr>writing := writing c - 1\<rparr>"
  have ne: "items (sess ?c) \<noteq> []" "is_full (items (sess c))"
    using w by (auto simp: waiting_def is_full_def limit_def)
  let ?r = "on_write 0 Success (need_eof (web S) (hd (items (sess c)))) (sess ?c) :: ('h, 'f) effect"
  have close: "\<not> need_eof (web S) (hd (items (sess c)))" using w ne by (auto simp: waiting_def)
  have "conn_event S (0, Write_done Success) c = Some (apply_result ?r ?c)"
    using w by (simp add: conn_event_def waiting_def)
  moreover have full: "is_full (items (sess ?c)) = True" using ne(2) by simp
  have "apply_result ?r ?c = reading 0 (popped ?c)"
    unfolding on_write_success [OF refl ne(1) full close] by simp
  ultimately show ?thesis
    using c(1) c1(1) w by (intro exI [of _ c] exI [of _ "reading 0 (popped ?c)"])
      (simp add: conn_run_append waiting_def reading_def popped_def)
qed


text \<open>A site with one endpoint, for the witnesses: its handler answers at once, or never.\<close>

definition sample_site :: "bool \<Rightarrow> (nat, string) site" where
  "sample_site now = \<lparr>web = sample_web, web_conf = static_conf,
     handlers = add_post_endpoint ''/'' 0 [], websocket_handlers = [], doc_root = ''public'',
     is_loopback = True,
     call = (\<lambda>h body params s. if now then write_json_response sample_web ''done'' s else (s, []))\<rparr>"

definition sample_post :: request where
  "sample_post = (sample_get ''/'')\<lparr>req_method := Post\<rparr>"

lemma sample_site_sels [simp]:
  "web (sample_site now) = sample_web" "synchronous (sample_site True)" "calls_send (sample_site now)"
  "call (sample_site False) h body params s = (s, [])"
  by (auto simp: sample_site_def synchronous_def calls_send_def write_json_response_def)

lemma sample_post_route:
  "handle_request (web (sample_site now)) (web_conf (sample_site now)) (handlers (sample_site now))
     (is_loopback (sample_site now)) (doc_root (sample_site now)) sample_post = Call 0 [] []"
  by (simp add: sample_site_def handle_request_def sample_post_def sample_get_def add_post_endpoint_def
      add_endpoint_def path_regex_def)

definition sample_events :: "(int \<times> event) list" where
  "sample_events = [(1, Read_done Success sample_post), (2, Read_done Success sample_post), (3, Write_done Success)]"

lemma sample_conn_run:
  "\<exists>c. conn_run (sample_site True) sample_events (new_conn 0) = Some c \<and> length (sent c) = 2"
proof -
  have r: "session_handle_request (sample_site True) sample_post s =
      write_json_response sample_web ''done'' (s\<lparr>client_version := 11, client_keepalive := True\<rparr>)" for s
    unfolding session_handle_request_def sample_post_route
    by (simp add: sample_site_def sample_post_def sample_get_def Let_def)
  have u: "\<not> is_upgrade sample_post" by (simp add: sample_post_def sample_get_def)
  show ?thesis
    by (simp add: sample_events_def new_conn_eq new_session_def conn_event_def on_read_def u r
        write_json_response_def send_def queue_send_def is_full_def limit_def read_def apply_result_def
        on_write_def queue_on_write_def graceful_shutdown_def Let_def)
qed

theorem responses_in_order_witness:
  "\<exists>c. conn_run (sample_site True) sample_events (new_conn 0) = Some c \<and> length (sent c) = 2 \<and>
     wire c @ tl (items (sess c)) = sent c"
proof -
  obtain c where c: "conn_run (sample_site True) sample_events (new_conn 0) = Some c" "length (sent c) = 2"
    using sample_conn_run by blast
  with responses_in_order [OF _ c(1)] show ?thesis by simp
qed

theorem pipeline_flow_control_witness:
  "\<exists>c. conn_run (sample_site True) sample_events (new_conn 0) = Some c \<and> reads c \<le> 1"
proof -
  obtain c where c: "conn_run (sample_site True) sample_events (new_conn 0) = Some c"
    using sample_conn_run by blast
  have "\<forall>(t, ev) \<in> set sample_events. \<forall>b. ev \<noteq> Late_response b" by (simp add: sample_events_def)
  with pipeline_flow_control [OF _ c] c show ?thesis by simp
qed

lemma sample_json_keep_alive: "client_keepalive s \<Longrightarrow> \<not> need_eof (web (sample_site now)) (json_response (web (sample_site now)) b s)"
  by (simp add: json_response_def) (simp add: sample_web_def)

lemma sample_post_sels: "\<not> is_upgrade sample_post" "req_keep_alive sample_post"
  by (simp_all add: sample_post_def sample_get_def)

theorem late_answers_overrun_witness:
  "\<exists>c c'. conn_event (sample_site False) (0, Write_done Success) c = Some c' \<and>
     length (items (sess c)) = 9 \<and> reads c' = 2"
  using late_answers_overrun [of sample_post "sample_site False" 0 "[]" "[]" "''done''"] sample_post_route [of False]
    sample_json_keep_alive sample_post_sels
  by fastforce


end
