(* ===== verification/Websocket.thy ===== *)
theory Websocket
  imports Http_Session
begin

text \<open>
  \<^verbatim>\<open>webserver.hpp\<close>, \<^verbatim>\<open>websocket_session\<close>: the send queue and the keep-alive timer of one
  WebSocket connection. As for HTTP sessions, each completion handler is a function on the
  session that returns the actions it takes, and all of them run on the session's strand.
  Whether Beast considers the stream open is an input of the timer's handler.
\<close>

section \<open>The session\<close>

record ws_session =
  send_queue :: "string list"
  ping_state :: nat
  ws_expiry :: "int option"

datatype ws_action = Ws_accept | Ws_read | Ws_write string | Ws_ping | Ws_wait | Ws_close
  | Ws_report string | Ws_call string

definition new_ws_session :: ws_session where
  "new_ws_session = \<lparr>send_queue = [], ping_state = 0, ws_expiry = None\<rparr>"

text \<open>The send queue: the body of \<^verbatim>\<open>write_response\<close>'s lambda, and a write that completed well.\<close>

definition write_queued_messages :: "string list \<Rightarrow> string option" where
  "write_queued_messages q = (if q = [] then None else Some (hd q))"

definition queue_message :: "string \<Rightarrow> string list \<Rightarrow> string list \<times> string option" where
  "queue_message m q =
     (let write_in_progress = (q \<noteq> []); q' = q @ [m]
      in (q', if write_in_progress then None else write_queued_messages q'))"

definition message_written :: "error_code \<Rightarrow> string list \<Rightarrow> string list \<times> string option" where
  "message_written ec q =
     (let q' = tl q in (q', if ec = Success then (if q' \<noteq> [] then write_queued_messages q' else None) else None))"

interpretation ws_writer: serial_writer "\<lambda>q. q" queue_message "message_written Success"
  by unfold_locales (auto simp: queue_message_def message_written_def write_queued_messages_def Let_def)

definition write_response :: "string \<Rightarrow> ws_session \<Rightarrow> ws_session \<times> ws_action list" where
  "write_response m s =
     (case queue_message m (send_queue s) of
        (q, st) \<Rightarrow> (s\<lparr>send_queue := q\<rparr>, map Ws_write (opt_list st)))"

definition on_written :: "error_code \<Rightarrow> ws_session \<Rightarrow> ws_session \<times> ws_action list" where
  "on_written ec s =
     (case message_written ec (send_queue s) of
        (q, st) \<Rightarrow> (s\<lparr>send_queue := q\<rparr>, map Ws_write (opt_list st)))"

section \<open>Keep-alive\<close>

definition ws_on_timer :: "int \<Rightarrow> bool \<Rightarrow> error_code \<Rightarrow> ws_session \<Rightarrow> ws_session \<times> ws_action list" where
  "ws_on_timer now is_open ec s =
     (if ec \<noteq> Success \<and> ec \<noteq> Operation_aborted then (s, [Ws_report ''timer''])
      else if expired now (ws_expiry s) then
        (if is_open \<and> ping_state s = 0
         then (s\<lparr>ping_state := 1, ws_expiry := Some (now + 15)\<rparr>, [Ws_ping, Ws_wait])
         else (s, [Ws_close]))
      else (s, [Ws_wait]))"

definition activity :: "int \<Rightarrow> ws_session \<Rightarrow> ws_session" where
  "activity now s = s\<lparr>ping_state := 0, ws_expiry := Some (now + 15)\<rparr>"

definition on_ping :: "error_code \<Rightarrow> ws_session \<Rightarrow> ws_session \<times> ws_action list" where
  "on_ping ec s =
     (if ec = Operation_aborted then (s, [])
      else if ec \<noteq> Success then (s, [Ws_report ''ping''])
      else (if ping_state s = 1 then s\<lparr>ping_state := 2\<rparr> else s, []))"

definition on_control_callback :: "int \<Rightarrow> ws_session \<Rightarrow> ws_session \<times> ws_action list" where
  "on_control_callback now s = (activity now s, [])"

section \<open>Accepting and reading\<close>

definition do_accept :: "int \<Rightarrow> ws_session \<Rightarrow> ws_session \<times> ws_action list" where
  "do_accept now s =
     (case ws_on_timer now False Success s of
        (s1, a1) \<Rightarrow> (s1\<lparr>ws_expiry := Some (now + 15)\<rparr>, a1 @ [Ws_accept]))"

definition on_accept :: "error_code \<Rightarrow> ws_session \<Rightarrow> ws_session \<times> ws_action list" where
  "on_accept ec s =
     (s, if ec = Operation_aborted then []
         else if ec = Success then [Ws_read]
         else [Ws_report ''accept''])"

text \<open>The endpoint's handler is called with the message; it answers through \<open>write_response\<close>,
  which posts to the strand, so never before \<^verbatim>\<open>on_read\<close> has returned.\<close>

definition ws_on_read :: "int \<Rightarrow> error_code \<Rightarrow> string \<Rightarrow> ws_session \<Rightarrow> ws_session \<times> ws_action list" where
  "ws_on_read now ec incoming_message s =
     (if ec = Operation_aborted \<or> ec = Ws_closed then (s, [])
      else if ec = Success then (activity now s, [Ws_call incoming_message, Ws_read])
      else (s, [Ws_report ''read'']))"

section \<open>Connections\<close>

record ws_conn =
  ws :: ws_session
  ws_reads :: nat
  ws_writing :: nat
  ws_wire :: "string list"
  ws_calls :: "string list"
  ws_closed :: bool

fun apply_ws_action :: "ws_action \<Rightarrow> ws_conn \<Rightarrow> ws_conn" where
  "apply_ws_action Ws_read c = c\<lparr>ws_reads := Suc (ws_reads c)\<rparr>"
| "apply_ws_action (Ws_write m) c = c\<lparr>ws_writing := Suc (ws_writing c), ws_wire := ws_wire c @ [m]\<rparr>"
| "apply_ws_action (Ws_call m) c = c\<lparr>ws_calls := ws_calls c @ [m]\<rparr>"
| "apply_ws_action Ws_close c = c\<lparr>ws_closed := True\<rparr>"
| "apply_ws_action _ c = c"

definition apply_ws :: "ws_session \<times> ws_action list \<Rightarrow> ws_conn \<Rightarrow> ws_conn" where
  "apply_ws r c = fold apply_ws_action (snd r) (c\<lparr>ws := fst r\<rparr>)"

datatype ws_event =
    Accepted error_code
  | Ws_timer bool error_code
  | Pinged error_code
  | Control
  | Ws_read_done error_code string
  | Ws_written error_code
  | Response string

fun ws_handle :: "int \<Rightarrow> ws_event \<Rightarrow> ws_session \<Rightarrow> ws_session \<times> ws_action list" where
  "ws_handle now (Accepted ec) s = on_accept ec s"
| "ws_handle now (Ws_timer is_open ec) s = ws_on_timer now is_open ec s"
| "ws_handle now (Pinged ec) s = on_ping ec s"
| "ws_handle now Control s = on_control_callback now s"
| "ws_handle now (Ws_read_done ec m) s = ws_on_read now ec m s"
| "ws_handle now (Ws_written ec) s = on_written ec s"
| "ws_handle now (Response m) s = write_response m s"

text \<open>A write can complete only when one is in flight, a read likewise.\<close>

definition ws_step :: "int \<times> ws_event \<Rightarrow> ws_conn \<Rightarrow> ws_conn option" where
  "ws_step tev c =
     (case tev of (now, ev) \<Rightarrow>
      case ev of
        Ws_written ec \<Rightarrow>
          if ws_writing c = 0 then None
          else Some (apply_ws (ws_handle now ev (ws c)) (c\<lparr>ws_writing := ws_writing c - 1\<rparr>))
      | Ws_read_done ec m \<Rightarrow>
          if ws_reads c = 0 then None
          else Some (apply_ws (ws_handle now ev (ws c)) (c\<lparr>ws_reads := ws_reads c - 1\<rparr>))
      | _ \<Rightarrow> Some (apply_ws (ws_handle now ev (ws c)) c))"

fun ws_run :: "(int \<times> ws_event) list \<Rightarrow> ws_conn \<Rightarrow> ws_conn option" where
  "ws_run [] c = Some c"
| "ws_run (ev # evs) c = (case ws_step ev c of None \<Rightarrow> None | Some c' \<Rightarrow> ws_run evs c')"

definition new_ws_conn :: "int \<Rightarrow> ws_conn" where
  "new_ws_conn now = apply_ws (do_accept now new_ws_session)
     \<lparr>ws = new_ws_session, ws_reads = 0, ws_writing = 0, ws_wire = [], ws_calls = [], ws_closed = False\<rparr>"

section \<open>Lemmas\<close>

lemma ws_run_invariant:
  assumes "ws_run evs c = Some c'" "I c"
    and "\<And>c tev c'. I c \<Longrightarrow> tev \<in> set evs \<Longrightarrow> ws_step tev c = Some c' \<Longrightarrow> I c'"
  shows "I c'"
  using assms
proof (induction evs arbitrary: c)
  case (Cons tev evs)
  from Cons.prems(1) obtain c1 where c1: "ws_step tev c = Some c1" "ws_run evs c1 = Some c'"
    by (auto split: option.splits)
  have "I c1" by (rule Cons.prems(3) [OF Cons.prems(2) _ c1(1)]) simp
  with c1(2) show ?case
  proof (rule Cons.IH)
    fix c tev' c' assume "I c" "tev' \<in> set evs" "ws_step tev' c = Some c'"
    then show "I c'" by (intro Cons.prems(3) [of c tev' c']) simp_all
  qed
qed simp

text \<open>The messages passed to \<^verbatim>\<open>write_response\<close>, and those received.\<close>

fun responses :: "(int \<times> ws_event) list \<Rightarrow> string list" where
  "responses [] = []"
| "responses ((t, Response m) # evs) = m # responses evs"
| "responses (_ # evs) = responses evs"

fun received :: "(int \<times> ws_event) list \<Rightarrow> string list" where
  "received [] = []"
| "received ((t, Ws_read_done Success m) # evs) = m # received evs"
| "received (_ # evs) = received evs"

text \<open>What one event does to the parts of a connection.\<close>

lemma ws_step_response:
  "ws_step (t, Response m) c = Some (c\<lparr>ws := (ws c)\<lparr>send_queue := send_queue (ws c) @ [m]\<rparr>,
     ws_writing := (if send_queue (ws c) = [] then Suc (ws_writing c) else ws_writing c),
     ws_wire := (if send_queue (ws c) = [] then ws_wire c @ [m] else ws_wire c)\<rparr>)"
  by (simp add: ws_step_def write_response_def queue_message_def write_queued_messages_def apply_ws_def)

lemma ws_step_written:
  "ws_step (t, Ws_written ec) c = (if ws_writing c = 0 then None
     else let q = tl (send_queue (ws c)); more = (ec = Success \<and> q \<noteq> []) in
       Some (c\<lparr>ws := (ws c)\<lparr>send_queue := q\<rparr>,
         ws_writing := (if more then ws_writing c else ws_writing c - 1),
         ws_wire := (if more then ws_wire c @ [hd q] else ws_wire c)\<rparr>))"
  by (simp add: ws_step_def on_written_def message_written_def write_queued_messages_def apply_ws_def Let_def)

lemma ws_step_other:
  assumes "ws_step (t, ev) c = Some c'" "\<And>m. ev \<noteq> Response m" "\<And>ec. ev \<noteq> Ws_written ec"
  shows "send_queue (ws c') = send_queue (ws c) \<and> ws_writing c' = ws_writing c \<and> ws_wire c' = ws_wire c"
proof (cases ev)
  case (Response m)
  then show ?thesis using assms(2) by blast
next
  case (Ws_written ec)
  then show ?thesis using assms(3) by blast
qed (use assms(1) in \<open>auto simp: ws_step_def on_accept_def ws_on_timer_def on_ping_def
      on_control_callback_def activity_def ws_on_read_def apply_ws_def split: if_splits\<close>)

lemma responses_other:
  assumes "\<And>m. ev \<noteq> Response m"
  shows "responses ((t, ev) # evs) = responses evs"
proof (cases ev)
  case (Response m)
  then show ?thesis using assms by blast
qed simp_all

definition ws_order :: "string list \<Rightarrow> ws_conn \<Rightarrow> bool" where
  "ws_order ms c \<longleftrightarrow> (\<exists>n. ws_writer.in_order ms (ws_wire c) n (send_queue (ws c))) \<and>
     ws_writing c = (if send_queue (ws c) = [] then 0 else 1)"

lemma ws_order_intro:
  assumes "ws_writer.in_order ms (out @ opt_list st) n q"
    and "send_queue (ws c) = q" "ws_wire c = out @ opt_list st"
    and "ws_writing c = (if q = [] then 0 else 1)"
  shows "ws_order ms c"
  using assms by (auto simp: ws_order_def)

lemma ws_order_run:
  assumes "ws_run evs c = Some c'" "ws_order ms c" "\<forall>t ec. (t, Ws_written ec) \<in> set evs \<longrightarrow> ec = Success"
  shows "ws_order (ms @ responses evs) c'"
  using assms
proof (induction evs arbitrary: c ms)
  case (Cons tev evs)
  obtain t ev where tev: "tev = (t, ev)" by fastforce
  from Cons.prems(1) obtain c1 where c1: "ws_step (t, ev) c = Some c1" "ws_run evs c1 = Some c'"
    by (auto simp: tev split: option.splits)
  from Cons.prems(2) obtain n where n: "ws_writer.in_order ms (ws_wire c) n (send_queue (ws c))"
    and w: "ws_writing c = (if send_queue (ws c) = [] then 0 else 1)"
    by (auto simp: ws_order_def)
  have rest: "\<forall>t ec. (t, Ws_written ec) \<in> set evs \<longrightarrow> ec = Success" using Cons.prems(3) by simp
  consider (response) m where "ev = Response m" | (written) ec where "ev = Ws_written ec"
    | (other) "\<And>m. ev \<noteq> Response m" "\<And>ec. ev \<noteq> Ws_written ec" by blast
  then show ?case
  proof cases
    case response
    have "queue_message m (send_queue (ws c)) = (send_queue (ws c) @ [m],
        if send_queue (ws c) = [] then Some m else None)"
      by (simp add: queue_message_def write_queued_messages_def)
    from ws_order_intro [OF ws_writer.in_order_push [OF n this]]
    have "ws_order (ms @ [m]) c1"
      using c1(1) w unfolding response ws_step_response by (cases "send_queue (ws c) = []") auto
    from Cons.IH [OF c1(2) this rest] show ?thesis by (simp add: tev response)
  next
    case written
    have ok: "ec = Success" using Cons.prems(3) by (auto simp: tev written)
    have ne: "send_queue (ws c) \<noteq> []" using c1(1) w unfolding written ws_step_written by (auto split: if_splits)
    let ?q = "tl (send_queue (ws c))"
    have "message_written Success (send_queue (ws c)) = (?q, if ?q \<noteq> [] then Some (hd ?q) else None)"
      by (simp add: message_written_def write_queued_messages_def Let_def)
    from ws_order_intro [OF ws_writer.in_order_fin [OF n ne this]]
    have "ws_order ms c1"
      using c1(1) w ne unfolding written ws_step_written by (cases "?q = []") (auto simp: ok Let_def)
    from Cons.IH [OF c1(2) this rest] show ?thesis by (simp add: tev written)
  next
    case other
    have "ws_order ms c1" using ws_step_other [OF c1(1) other] Cons.prems(2) by (simp add: ws_order_def)
    from Cons.IH [OF c1(2) this rest] show ?thesis using responses_other [OF other(1)] by (simp add: tev)
  qed
qed simp

lemma new_ws_conn_eq: "new_ws_conn now = \<lparr>ws = \<lparr>send_queue = [], ping_state = 0, ws_expiry = Some (now + 15)\<rparr>,
    ws_reads = 0, ws_writing = 0, ws_wire = [], ws_calls = [], ws_closed = False\<rparr>"
  by (simp add: new_ws_conn_def do_accept_def ws_on_timer_def new_ws_session_def expired_def apply_ws_def)

lemma ws_order_new: "ws_order [] (new_ws_conn now)"
  using ws_writer.in_order_start [of "[]"] by (intro ws_order_intro [of _ "[]" None]) (auto simp: new_ws_conn_eq)

text \<open>A queue with messages but no write in flight never moves again.\<close>

definition stalled :: "ws_conn \<Rightarrow> bool" where
  "stalled c \<longleftrightarrow> send_queue (ws c) \<noteq> [] \<and> ws_writing c = 0"

lemma stalled_step:
  assumes "stalled c" "ws_step (t, ev) c = Some c'"
  shows "stalled c' \<and> ws_wire c' = ws_wire c"
proof -
  consider (response) m where "ev = Response m" | (written) ec where "ev = Ws_written ec"
    | (other) "\<And>m. ev \<noteq> Response m" "\<And>ec. ev \<noteq> Ws_written ec" by blast
  then show ?thesis
  proof cases
    case response
    then show ?thesis using assms by (auto simp: ws_step_response stalled_def)
  next
    case written
    then show ?thesis using assms by (auto simp: ws_step_written stalled_def)
  next
    case other
    from ws_step_other [OF assms(2) this] show ?thesis using assms(1) by (simp add: stalled_def)
  qed
qed

lemma stalled_run: "ws_run evs c = Some c' \<Longrightarrow> stalled c \<Longrightarrow> stalled c' \<and> ws_wire c' = ws_wire c"
proof (induction evs arbitrary: c)
  case (Cons tev evs)
  from Cons.prems(1) obtain c1 where c1: "ws_step (fst tev, snd tev) c = Some c1" "ws_run evs c1 = Some c'"
    by (auto split: option.splits)
  from stalled_step [OF Cons.prems(2) c1(1)] Cons.IH [OF c1(2)] show ?case by simp
qed simp

text \<open>Keep-alive: the time something was last received, and what it says of the deadline.\<close>

fun heard :: "ws_event \<Rightarrow> bool" where
  "heard Control = True"
| "heard (Ws_read_done Success m) = True"
| "heard _ = False"

fun last_heard :: "int \<Rightarrow> (int \<times> ws_event) list \<Rightarrow> int" where
  "last_heard t0 [] = t0"
| "last_heard t0 ((t, ev) # evs) = last_heard (if heard ev then t else t0) evs"

lemma last_heard_snoc: "last_heard t0 (evs @ [(t, ev)]) = (if heard ev then t else last_heard t0 evs)"
  by (induction evs arbitrary: t0) auto

lemma ws_run_append: "ws_run (xs @ ys) c = (case ws_run xs c of None \<Rightarrow> None | Some c' \<Rightarrow> ws_run ys c')"
  by (induction xs arbitrary: c) (auto split: option.splits)

lemma ws_step_heard:
  assumes "ws_step (t, ev) c = Some c'" "heard ev"
  shows "ping_state (ws c') = 0 \<and> ws_expiry (ws c') = Some (t + 15) \<and> ws_closed c' = ws_closed c"
proof (cases ev)
  case (Ws_read_done ec m)
  then show ?thesis using assms
    by (cases ec) (auto simp: ws_step_def ws_on_read_def activity_def apply_ws_def split: if_splits)
qed (use assms in \<open>auto simp: ws_step_def on_control_callback_def activity_def apply_ws_def\<close>)

lemma ws_step_timer:
  "ws_step (t, Ws_timer is_open ec) c = Some (apply_ws (ws_on_timer t is_open ec (ws c)) c)"
  by (simp add: ws_step_def)

lemma ws_step_quiet:
  assumes "ws_step (t, ev) c = Some c'" "\<not> heard ev" "\<And>is_open ec. ev \<noteq> Ws_timer is_open ec"
  shows "ws_expiry (ws c') = ws_expiry (ws c) \<and> ws_closed c' = ws_closed c \<and>
    (ping_state (ws c') = 0 \<longleftrightarrow> ping_state (ws c) = 0)"
proof (cases ev)
  case (Ws_timer is_open ec)
  then show ?thesis using assms(3) by blast
next
  case (Ws_read_done ec m)
  then show ?thesis using assms(1,2)
    by (cases ec) (auto simp: ws_step_def ws_on_read_def apply_ws_def split: if_splits)
next
  case (Response m)
  then show ?thesis using assms(1) by (auto simp: ws_step_response)
next
  case (Ws_written ec)
  then show ?thesis using assms(1) by (auto simp: ws_step_written Let_def split: if_splits)
qed (use assms(1,2) in \<open>auto simp: ws_step_def on_accept_def on_ping_def apply_ws_def split: if_splits\<close>)

text \<open>The deadline is fifteen seconds after the last event that set it; a pinged peer has been
  silent for fifteen seconds by then.\<close>

definition alive_inv :: "int \<Rightarrow> (int \<times> ws_event) list \<Rightarrow> ws_conn \<Rightarrow> bool" where
  "alive_inv t0 evs c \<longleftrightarrow>
     (\<exists>d. ws_expiry (ws c) = Some d \<and> (d = t0 + 15 \<or> (\<exists>e\<in>set evs. d = fst e + 15)) \<and>
        last_heard t0 evs + (if ping_state (ws c) = 0 then 15 else 30) \<le> d) \<and>
     (ws_closed c \<longrightarrow> (\<exists>pre t ec post. evs = pre @ (t, Ws_timer True ec) # post \<and> last_heard t0 pre + 30 \<le> t))"

lemma alive_inv_closed:
  assumes "alive_inv t0 evs c" "ws_closed c"
  shows "\<exists>pre t' ec' post. evs @ [e] = pre @ (t', Ws_timer True ec') # post \<and> last_heard t0 pre + 30 \<le> t'"
proof -
  from assms obtain pre t' ec' post where
    "evs = pre @ (t', Ws_timer True ec') # post" "last_heard t0 pre + 30 \<le> t'"
    by (auto simp: alive_inv_def)
  then show ?thesis by (intro exI [of _ pre] exI [of _ t'] exI [of _ ec'] exI [of _ "post @ [e]"]) simp
qed

lemma alive_inv_timer:
  assumes "alive_inv t0 evs c" "ws_step (t, Ws_timer True ec) c = Some c'"
  shows "alive_inv t0 (evs @ [(t, Ws_timer True ec)]) c'"
proof -
  from assms(1) obtain d where d: "ws_expiry (ws c) = Some d" "d = t0 + 15 \<or> (\<exists>e\<in>set evs. d = fst e + 15)"
    "last_heard t0 evs + (if ping_state (ws c) = 0 then 15 else 30) \<le> d"
    by (auto simp: alive_inv_def)
  note old = alive_inv_closed [OF assms(1), of "(t, Ws_timer True ec)"]
  have now: "\<exists>pre t' ec' post. evs @ [(t, Ws_timer True ec)] = pre @ (t', Ws_timer True ec') # post \<and>
      last_heard t0 pre + 30 \<le> t'" if "ping_state (ws c) \<noteq> 0" "d \<le> t"
    using d(3) that by (intro exI [of _ evs] exI [of _ t] exI [of _ ec] exI [of _ "[]"]) simp
  have c': "c' = apply_ws (ws_on_timer t True ec (ws c)) c" using assms(2) by (simp add: ws_step_timer)
  consider "ec \<noteq> Success" "ec \<noteq> Operation_aborted" | "ec = Success \<or> ec = Operation_aborted" "t < d"
    | "ec = Success \<or> ec = Operation_aborted" "d \<le> t" "ping_state (ws c) = 0"
    | "ec = Success \<or> ec = Operation_aborted" "d \<le> t" "ping_state (ws c) \<noteq> 0" by linarith
  then show ?thesis
  proof cases
    case 1
    then show ?thesis using d old by (auto simp: c' ws_on_timer_def apply_ws_def alive_inv_def last_heard_snoc)
  next
    case 2
    then show ?thesis using d old
      by (auto simp: c' ws_on_timer_def apply_ws_def expired_def alive_inv_def last_heard_snoc)
  next
    case 3
    then show ?thesis using d old
      by (auto simp: c' ws_on_timer_def apply_ws_def expired_def alive_inv_def last_heard_snoc)
  next
    case 4
    then show ?thesis using d now
      by (auto simp: c' ws_on_timer_def apply_ws_def expired_def alive_inv_def last_heard_snoc)
  qed
qed

lemma alive_inv_step:
  assumes "alive_inv t0 evs c" "ws_step (t, ev) c = Some c'" "\<And>is_open ec. ev = Ws_timer is_open ec \<Longrightarrow> is_open"
  shows "alive_inv t0 (evs @ [(t, ev)]) c'"
proof -
  consider (timer) ec where "ev = Ws_timer True ec" | (heard) "heard ev" "ws_closed c' = ws_closed c"
    | (quiet) "\<not> heard ev" "\<And>is_open ec. ev \<noteq> Ws_timer is_open ec" "ws_closed c' = ws_closed c"
    using assms(3) ws_step_heard [OF assms(2)] ws_step_quiet [OF assms(2)] by metis
  then show ?thesis
  proof cases
    case timer
    then show ?thesis using alive_inv_timer assms(1,2) by simp
  next
    case heard
    then show ?thesis using assms(1) ws_step_heard [OF assms(2)] alive_inv_closed [OF assms(1)]
      by (simp add: alive_inv_def last_heard_snoc)
  next
    case quiet
    then show ?thesis using assms(1) ws_step_quiet [OF assms(2) quiet(1,2)] alive_inv_closed [OF assms(1)]
      by (auto simp: alive_inv_def last_heard_snoc)
  qed
qed

lemma alive_inv_run:
  assumes "ws_run evs (new_ws_conn t0) = Some c" "\<forall>t is_open ec. (t, Ws_timer is_open ec) \<in> set evs \<longrightarrow> is_open"
  shows "alive_inv t0 evs c"
  using assms
proof (induction evs arbitrary: c rule: rev_induct)
  case Nil
  then show ?case by (auto simp: alive_inv_def new_ws_conn_eq)
next
  case (snoc tev evs)
  obtain t ev where tev: "tev = (t, ev)" by fastforce
  from snoc.prems(1) obtain c1 where c1: "ws_run evs (new_ws_conn t0) = Some c1" "ws_step (t, ev) c1 = Some c"
    by (auto simp: tev ws_run_append split: option.splits)
  have "alive_inv t0 evs c1" by (rule snoc.IH [OF c1(1)]) (use snoc.prems(2) in auto)
  from alive_inv_step [OF this c1(2)] snoc.prems(2) show ?case by (auto simp: tev)
qed

text \<open>Once the ping is out, only something received can save the session.\<close>

definition doomed :: "int \<Rightarrow> ws_conn \<Rightarrow> bool" where
  "doomed d c \<longleftrightarrow> ws_closed c \<or> (ping_state (ws c) \<noteq> 0 \<and> ws_expiry (ws c) = Some d)"

lemma ws_closed_step: "ws_step (t, ev) c = Some c' \<Longrightarrow> ws_closed c \<Longrightarrow> ws_closed c'"
  by (cases "heard ev"; cases "\<exists>is_open ec. ev = Ws_timer is_open ec")
    (auto simp: ws_step_timer ws_on_timer_def apply_ws_def dest: ws_step_heard ws_step_quiet split: if_splits)

lemma ws_closed_run: "ws_run evs c = Some c' \<Longrightarrow> ws_closed c \<Longrightarrow> ws_closed c'"
  by (erule ws_run_invariant) (auto intro: ws_closed_step)

lemma doomed_step:
  assumes "doomed d c" "ws_step (t, ev) c = Some c'" "\<not> heard ev"
  shows "doomed d c'"
proof (cases "\<exists>is_open ec. ev = Ws_timer is_open ec")
  case True
  then show ?thesis using assms
    by (auto simp: doomed_def ws_step_timer ws_on_timer_def apply_ws_def split: if_splits)
next
  case False
  with ws_step_quiet [OF assms(2,3)] assms(1) show ?thesis by (auto simp: doomed_def)
qed

lemma doomed_run:
  assumes "ws_run evs c = Some c'" "doomed d c" "\<forall>e\<in>set evs. \<not> heard (snd e)"
  shows "doomed d c'"
  using assms(1,2)
proof (rule ws_run_invariant)
  fix c tev c' assume "doomed d c" "tev \<in> set evs" "ws_step tev c = Some c'"
  then show "doomed d c'" using assms(3) doomed_step [of d c "fst tev" "snd tev"] by auto
qed

section \<open>Properties\<close>

text \<open>
  C14. WebSocket messages are sent in order, one at a time: as long as no write fails, the
  messages written and those waiting behind the one being written are the messages passed to
  \<^verbatim>\<open>write_response\<close>, in order, and a write is in flight exactly while a message is queued, so
  none waits on an idle socket.
\<close>

theorem websocket_messages_in_order:
  assumes "ws_run evs (new_ws_conn t0) = Some c" "\<forall>t ec. (t, Ws_written ec) \<in> set evs \<longrightarrow> ec = Success"
  shows "ws_wire c @ tl (send_queue (ws c)) = responses evs \<and>
    ws_writing c = (if send_queue (ws c) = [] then 0 else 1)"
proof -
  have o: "ws_order (responses evs) c" using ws_order_run [OF assms(1) ws_order_new assms(2)] by simp
  then obtain n where "ws_writer.in_order (responses evs) (ws_wire c) n (send_queue (ws c))"
    by (auto simp: ws_order_def)
  then have "ws_wire c @ tl (send_queue (ws c)) = responses evs" by (rule ws_writer.in_order_wire)
  with o show ?thesis by (simp add: ws_order_def)
qed

theorem websocket_messages_in_order_witness:
  "\<exists>c. ws_run [(0, Response ''a''), (0, Response ''b''), (1, Ws_written Success)] (new_ws_conn 0) = Some c \<and>
     ws_wire c = [''a'', ''b'']"
proof -
  obtain c where c: "ws_run [(0, Response ''a''), (0, Response ''b''), (1, Ws_written Success)] (new_ws_conn 0) = Some c"
    "tl (send_queue (ws c)) = []"
    by (simp add: ws_step_response ws_step_written new_ws_conn_eq Let_def)
  from websocket_messages_in_order [OF c(1)] c show ?thesis by simp
qed

text \<open>
  C25. A failed write stalls the session: when a write fails while another message is queued, the
  queue stays non-empty with no write in flight, so no message is ever written again, whatever
  happens later, although the session keeps accepting messages.
\<close>

theorem failed_write_stalls:
  assumes "ws_writing c = 1" "2 \<le> length (send_queue (ws c))" "ec \<noteq> Success"
    and "ws_run ((t, Ws_written ec) # evs) c = Some c'"
  shows "send_queue (ws c') \<noteq> [] \<and> ws_writing c' = 0 \<and> ws_wire c' = ws_wire c"
proof -
  from assms(4) obtain c1 where c1: "ws_step (t, Ws_written ec) c = Some c1" "ws_run evs c1 = Some c'"
    by (auto split: option.splits)
  have "tl (send_queue (ws c)) \<noteq> []" using assms(2) by (cases "send_queue (ws c)") auto
  then have "stalled c1" "ws_wire c1 = ws_wire c"
    using c1(1) assms(1,3) by (auto simp: ws_step_written stalled_def)
  with stalled_run [OF c1(2)] show ?thesis by (simp add: stalled_def)
qed

theorem failed_write_stalls_witness:
  "\<exists>c c'. ws_run [(0, Response ''a''), (0, Response ''b'')] (new_ws_conn 0) = Some c \<and>
     ws_run [(1, Ws_written (Failure ''broken pipe'')), (2, Response ''c'')] c = Some c' \<and>
     ws_wire c' = [''a'']"
proof -
  obtain c where c: "ws_run [(0, Response ''a''), (0, Response ''b'')] (new_ws_conn 0) = Some c"
    "ws_writing c = 1" "length (send_queue (ws c)) = 2" "ws_wire c = [''a'']"
    by (simp add: ws_step_response new_ws_conn_eq)
  then obtain c' where c': "ws_run [(1, Ws_written (Failure ''broken pipe'')), (2, Response ''c'')] c = Some c'"
    by (simp add: ws_step_written ws_step_response Let_def)
  from failed_write_stalls [OF c(2) _ _ c'] c c' show ?thesis by auto
qed

text \<open>
  C15. Keep-alive: while the stream is open, a session is closed by its timer only after the peer
  was silent for at least thirty seconds, and a silent peer is closed: if the timer fires fifteen
  seconds or more after everything that went before and again at least fifteen seconds later, and
  nothing was received in between, the connection is closed.
\<close>

theorem keep_alive:
  assumes "ws_run evs (new_ws_conn t0) = Some c" "\<forall>t is_open ec. (t, Ws_timer is_open ec) \<in> set evs \<longrightarrow> is_open"
  shows "(ws_closed c \<longrightarrow>
      (\<exists>pre t ec post. evs = pre @ (t, Ws_timer True ec) # post \<and> last_heard t0 pre + 30 \<le> t)) \<and>
    (\<forall>pre t1 ec1 mid t2 ec2 post.
      evs = pre @ (t1, Ws_timer True ec1) # mid @ (t2, Ws_timer True ec2) # post \<longrightarrow>
      ec1 \<in> {Success, Operation_aborted} \<longrightarrow> ec2 \<in> {Success, Operation_aborted} \<longrightarrow>
      t0 + 15 \<le> t1 \<longrightarrow> (\<forall>e\<in>set pre. fst e + 15 \<le> t1) \<longrightarrow>
      (\<forall>e\<in>set mid. \<not> heard (snd e)) \<longrightarrow> t1 + 15 \<le> t2 \<longrightarrow> ws_closed c)"
proof (intro conjI impI allI)
  assume "ws_closed c"
  with alive_inv_run [OF assms] show "\<exists>pre t ec post. evs = pre @ (t, Ws_timer True ec) # post \<and>
      last_heard t0 pre + 30 \<le> t"
    by (simp add: alive_inv_def)
next
  fix pre t1 ec1 mid t2 ec2 post
  assume evs: "evs = pre @ (t1, Ws_timer True ec1) # mid @ (t2, Ws_timer True ec2) # post"
    and h: "ec1 \<in> {Success, Operation_aborted}" "ec2 \<in> {Success, Operation_aborted}" "t0 + 15 \<le> t1"
      "\<forall>e\<in>set pre. fst e + 15 \<le> t1" "\<forall>e\<in>set mid. \<not> heard (snd e)" "t1 + 15 \<le> t2"
  from assms(1) obtain c0 c1 c2 c3 where r: "ws_run pre (new_ws_conn t0) = Some c0"
    "ws_step (t1, Ws_timer True ec1) c0 = Some c1" "ws_run mid c1 = Some c2"
    "ws_step (t2, Ws_timer True ec2) c2 = Some c3" "ws_run post c3 = Some c"
    by (auto simp: evs ws_run_append split: option.splits)
  have "alive_inv t0 pre c0" by (rule alive_inv_run [OF r(1)]) (use assms(2) evs in auto)
  then obtain d where "ws_expiry (ws c0) = Some d" "d \<le> t1" using h(3,4) by (auto simp: alive_inv_def)
  then have "doomed (t1 + 15) c1"
    using r(2) h(1) by (auto simp: ws_step_timer ws_on_timer_def expired_def apply_ws_def doomed_def split: if_splits)
  from doomed_run [OF r(3) this] h(5) have "doomed (t1 + 15) c2" using evs assms(2) by simp
  then have "ws_closed c3"
    using r(4) h(2,6) by (auto simp: ws_step_timer ws_on_timer_def expired_def apply_ws_def doomed_def split: if_splits)
  with ws_closed_run [OF r(5)] show "ws_closed c" .
qed

theorem keep_alive_witness:
  "\<exists>c. ws_run [(15, Ws_timer True Success), (15, Pinged Success), (30, Ws_timer True Success)] (new_ws_conn 0) = Some c \<and>
     ws_closed c"
proof -
  let ?evs = "[(15, Ws_timer True Success), (15, Pinged Success), (30, Ws_timer True Success)]"
  obtain c where c: "ws_run ?evs (new_ws_conn 0) = Some c"
    by (simp add: ws_step_def)
  have "\<forall>t is_open ec. (t, Ws_timer is_open ec) \<in> set ?evs \<longrightarrow> is_open" by auto
  from keep_alive [OF c this] have "ws_closed c"
    by (elim conjE allE [of _ "[]"] allE [of _ 15] allE [of _ Success] allE [of _ "[(15, Pinged Success)]"]
        allE [of _ 30] allE [of _ "[]"]) simp
  with c show ?thesis by blast
qed

end
