(* ===== verification/Web_Server.thy ===== *)
theory Web_Server
  imports Websocket
begin

text \<open>
  \<^verbatim>\<open>webserver.hpp\<close>, \<^verbatim>\<open>listener\<close> and \<^verbatim>\<open>webserver\<close>: opening the acceptor and its error branches,
  the accept loop, registration of endpoints, and the number of I/O threads, computed on machine
  integers as in the code. The outcomes of the socket calls are inputs.
\<close>

section \<open>The listener\<close>

text \<open>What the four socket calls of the constructor return; \<^verbatim>\<open>set_option\<close> is called in its throwing form.\<close>

record socket_calls =
  open_ec :: error_code
  set_option :: "unit throws"
  bind_ec :: error_code
  listen_ec :: error_code

datatype 'a listener_action =
    Report_failure string
  | Accept
  | Sleep nat
  | New_session 'a

record acceptor =
  is_open :: bool
  listening :: bool

text \<open>
  The constructor. \<^verbatim>\<open>ec\<close> is still that of \<^verbatim>\<open>open\<close> when it is tested after \<^verbatim>\<open>set_option\<close>.
\<close>

definition new_listener :: "socket_calls \<Rightarrow> (acceptor \<times> 'a listener_action list) throws" where
  "new_listener sc =
     (let ec = open_ec sc in
      if ec \<noteq> Success then Inr (\<lparr>is_open = False, listening = False\<rparr>, [Report_failure ''open''])
      else let a = \<lparr>is_open = True, listening = False\<rparr> in
        bind_throws (set_option sc) (\<lambda>_.
          if ec \<noteq> Success then Inr (a, [Report_failure ''set_option''])
          else let ec = bind_ec sc in
            if ec \<noteq> Success then Inr (a, [Report_failure ''bind''])
            else let ec = listen_ec sc in
              if ec \<noteq> Success then Inr (a, [Report_failure ''listen''])
              else Inr (a\<lparr>listening := True\<rparr>, [])))"

definition listener_do_accept :: "'a listener_action list" where
  "listener_do_accept = [Accept]"

definition listener_run :: "acceptor \<Rightarrow> 'a listener_action list" where
  "listener_run a = (if is_open a then listener_do_accept else [])"

text \<open>
  \<^verbatim>\<open>on_accept\<close>: \<open>remote\<close> is the outcome of \<^verbatim>\<open>socket_.remote_endpoint ()\<close>, which throws when the
  peer has already gone.
\<close>

definition listener_on_accept :: "error_code \<Rightarrow> 'a throws \<Rightarrow> 'a listener_action list throws" where
  "listener_on_accept ec remote =
     (if ec \<noteq> Success then Inr ([Report_failure ''accept'', Sleep 1] @ listener_do_accept)
      else bind_throws remote (\<lambda>peer. Inr ([New_session peer] @ listener_do_accept)))"

text \<open>A listener at work: accepts in flight, sessions started, and the failures reported.\<close>

record 'a listening_state =
  accepts :: nat
  sessions :: "'a list"
  failures :: "string list"
  slept :: nat

fun apply_listener :: "'a listener_action \<Rightarrow> 'a listening_state \<Rightarrow> 'a listening_state" where
  "apply_listener (Report_failure w) l = l\<lparr>failures := failures l @ [w]\<rparr>"
| "apply_listener Accept l = l\<lparr>accepts := Suc (accepts l)\<rparr>"
| "apply_listener (Sleep n) l = l\<lparr>slept := slept l + n\<rparr>"
| "apply_listener (New_session p) l = l\<lparr>sessions := sessions l @ [p]\<rparr>"

text \<open>The listener created, run, and given a sequence of completed accepts.\<close>

definition listener_start :: "socket_calls \<Rightarrow> 'a listening_state throws" where
  "listener_start sc = bind_throws (new_listener sc) (\<lambda>r.
     case r of (a, acts) \<Rightarrow>
       Inr (fold apply_listener (acts @ listener_run a) \<lparr>accepts = 0, sessions = [], failures = [], slept = 0\<rparr>))"

fun listener_accepts :: "(error_code \<times> 'a throws) list \<Rightarrow> 'a listening_state \<Rightarrow> 'a listening_state throws" where
  "listener_accepts [] l = Inr l"
| "listener_accepts ((ec, remote) # evs) l =
     bind_throws (listener_on_accept ec remote) (\<lambda>acts.
       listener_accepts evs (fold apply_listener acts (l\<lparr>accepts := accepts l - 1\<rparr>)))"

section \<open>The web server\<close>

record 'h webserver =
  config_ :: web_config
  capacity :: "64 word"
  rest :: "'h rest_endpoint list"
  websocket :: "'h websocket_endpoint list"
  stopped :: bool

text \<open>
  \<^verbatim>\<open>threads.reserve (n)\<close> on an empty vector gives it room for exactly \<^verbatim>\<open>n\<close> threads; the argument
  \<^verbatim>\<open>thread_count - 1\<close> is computed in \<^verbatim>\<open>unsigned\<close> and then widened.
\<close>

definition new_webserver :: "web_config \<Rightarrow> 32 word \<Rightarrow> 'h webserver" where
  "new_webserver c thread_count = \<lparr>config_ = c, capacity = ucast (thread_count - 1), rest = [],
     websocket = [], stopped = False\<rparr>"

text \<open>
  The loop of \<^verbatim>\<open>start\<close>: the threads it asks for, counting down from \<^verbatim>\<open>capacity () - 1\<close>. That
  \<^verbatim>\<open>reserve\<close> finds the memory and the system grants every thread is assumed; for the wrapped counts of
  \<open>io_thread_count\<close> a real system would refuse at some point and the server would end there.
\<close>

function start_threads :: "64 word \<Rightarrow> nat" where
  "start_threads i = (if i > 0 then Suc (start_threads (i - 1)) else 0)"
  by pat_completeness auto
termination
  by (relation "measure unat") (auto simp: word_gt_0 unat_minus_one unat_gt_0)

declare start_threads.simps [simp del]

text \<open>
  \<^verbatim>\<open>start\<close>: the listener, then the number of threads that run the I/O context, the calling one
  included. \<open>make_address\<close> parses the address and may throw.
\<close>

definition start_webserver :: "(string \<Rightarrow> 'b throws) \<Rightarrow> socket_calls \<Rightarrow> string \<Rightarrow> 'h webserver \<Rightarrow>
    ('a listening_state \<times> nat) throws" where
  "start_webserver make_address sc address_a w =
     bind_throws (make_address address_a) (\<lambda>_.
     bind_throws (listener_start sc) (\<lambda>l.
       Inr (l, Suc (start_threads (capacity w - 1)))))"

definition stop_webserver :: "'h webserver \<Rightarrow> 'h webserver" where
  "stop_webserver w = w\<lparr>stopped := True\<rparr>"

section \<open>Lemmas\<close>

lemma start_threads_unat: "start_threads i = unat i"
proof (induction i rule: start_threads.induct)
  case (1 i)
  show ?case
  proof (cases "i = 0")
    case False
    then have "unat i = Suc (unat (i - 1))" by (simp add: unat_minus_one word_gt_0 unat_gt_0)
    with 1 False show ?thesis by (subst start_threads.simps) (simp add: word_gt_0)
  qed (simp add: start_threads.simps)
qed

text \<open>A peer that is gone before \<^verbatim>\<open>remote_endpoint\<close> is asked for.\<close>

definition peer_gone :: "error_code \<times> 'a throws \<Rightarrow> bool" where
  "peer_gone ev \<longleftrightarrow> fst ev = Success \<and> isl (snd ev)"

lemma listener_accepts_eq:
  "listener_accepts evs \<lparr>accepts = 1, sessions = ss, failures = fs, slept = n\<rparr> =
     (case find peer_gone evs of
        Some ev \<Rightarrow> Inl (projl (snd ev))
      | None \<Rightarrow> Inr \<lparr>accepts = 1,
          sessions = ss @ map (projr \<circ> snd) (filter (\<lambda>ev. fst ev = Success) evs),
          failures = fs @ map (\<lambda>_. ''accept'') (filter (\<lambda>ev. fst ev \<noteq> Success) evs),
          slept = n + length (filter (\<lambda>ev. fst ev \<noteq> Success) evs)\<rparr>)"
proof (induction evs arbitrary: ss fs n)
  case (Cons ev evs)
  obtain ec remote where ev: "ev = (ec, remote)" by fastforce
  show ?case
    using Cons by (cases "ec = Success"; cases remote)
      (simp_all add: ev peer_gone_def listener_on_accept_def listener_do_accept_def split: option.split)
qed simp

section \<open>Properties\<close>

text \<open>
  C39. The accept loop, whatever its socket calls return. When the acceptor does not open, this is
  reported and nothing is accepted. Otherwise two things end it, and both are exceptions that
  leave it: \<^verbatim>\<open>set_option\<close> throws, or the first peer is gone before \<^verbatim>\<open>remote_endpoint\<close> is
  asked for. Without them exactly one accept is outstanding after any sequence of completed accepts,
  one session is started per peer that connected, in order, and each failed accept is reported
  and retried after a second. In particular the loop starts when \<^verbatim>\<open>bind\<close> or \<^verbatim>\<open>listen\<close> failed, for
  instance because the port is in use: the server does not stop but retries a hopeless accept.
\<close>

theorem accept_loop:
  fixes evs :: "(error_code \<times> 'a throws) list"
  shows "if open_ec sc \<noteq> Success
   then listener_start sc = Inr (\<lparr>accepts = 0, sessions = [], failures = [''open''], slept = 0\<rparr> :: 'a listening_state)
   else bind_throws (listener_start sc) (listener_accepts evs) =
     (case set_option sc of
        Inl ex \<Rightarrow> Inl ex
      | Inr _ \<Rightarrow>
          (case find (\<lambda>(ec, remote). ec = Success \<and> isl remote) evs of
             Some (_, remote) \<Rightarrow> Inl (projl remote)
           | None \<Rightarrow> Inr \<lparr>accepts = 1,
               sessions = map (projr \<circ> snd) (filter (\<lambda>(ec, remote). ec = Success) evs),
               failures = (if bind_ec sc \<noteq> Success then [''bind'']
                   else if listen_ec sc \<noteq> Success then [''listen''] else [])
                 @ map (\<lambda>_. ''accept'') (filter (\<lambda>(ec, remote). ec \<noteq> Success) evs),
               slept = length (filter (\<lambda>(ec, remote). ec \<noteq> Success) evs)\<rparr>))"
proof (cases "open_ec sc = Success")
  case True
  let ?l = "\<lparr>accepts = 1, sessions = [], failures = (if bind_ec sc \<noteq> Success then [''bind'']
      else if listen_ec sc \<noteq> Success then [''listen''] else []), slept = 0\<rparr> :: 'a listening_state"
  have pairs: "(\<lambda>(ec, remote). ec = Success \<and> isl remote) = peer_gone"
    "(\<lambda>(ec, remote). ec = Success) = (\<lambda>ev. fst ev = Success)"
    "(\<lambda>(ec, remote). ec \<noteq> Success) = (\<lambda>ev. fst ev \<noteq> Success)"
    by (auto simp: peer_gone_def)
  have "listener_start sc = (case set_option sc of Inl ex \<Rightarrow> Inl ex | Inr _ \<Rightarrow> Inr ?l)"
    using True by (simp add: listener_start_def new_listener_def listener_run_def listener_do_accept_def
        split: sum.split)
  then show ?thesis
    using True listener_accepts_eq [of evs "[]" "failures ?l" 0] unfolding pairs
    by (cases "set_option sc") (auto split: option.split)
qed (simp add: listener_start_def new_listener_def listener_run_def)

theorem accept_loop_witness:
  "bind_throws (listener_start \<lparr>open_ec = Success, set_option = Inr (), bind_ec = Failure ''in use'', listen_ec = Success\<rparr>)
       (listener_accepts [(Failure ''invalid'', throw ''''), (Failure ''invalid'', Inr (7 :: nat))])
     = Inr \<lparr>accepts = 1, sessions = [], failures = [''bind'', ''accept'', ''accept''], slept = 2\<rparr>"
  using accept_loop [of "\<lparr>open_ec = Success, set_option = Inr (), bind_ec = Failure ''in use'', listen_ec = Success\<rparr>"
      "[(Failure ''invalid'', throw ''''), (Failure ''invalid'', Inr (7 :: nat))]"]
  by simp

text \<open>
  C40. The number of I/O threads: with \<open>n > 1\<close> threads configured the server runs on \<open>n - 1\<close>,
  one fewer than requested. With one thread configured the subtraction wraps and the loop asks for
  \<open>2^64 - 1\<close> more threads, with none configured it asks for \<open>2^32 - 2\<close>.
\<close>

theorem io_thread_count:
  assumes "start_webserver make_address sc a (new_webserver c n :: 'h webserver) = Inr (l, k)"
  shows "k = (if n = 0 then 2 ^ 32 - 1 else if n = 1 then 2 ^ 64 else unat n - 1)"
proof -
  have k: "k = Suc (unat (ucast (n - 1) - 1 :: 64 word))"
    using assms by (auto simp: start_webserver_def new_webserver_def start_threads_unat bind_throws_Inr_iff)
  have k_eq: "k = unat (n - 1)" if "n \<noteq> 1"
  proof -
    have u: "unat (ucast (n - 1) :: 64 word) = unat (n - 1)"
      using unsigned_less [of "n - 1", where ?'a = nat] by (simp add: unsigned_ucast_eq take_bit_nat_eq_self)
    have "unat (n - 1) \<noteq> 0" using that by (simp add: unat_eq_zero)
    then have "(ucast (n - 1) :: 64 word) \<noteq> 0" using u by (metis unat_0)
    then show ?thesis using k u \<open>unat (n - 1) \<noteq> 0\<close> by (simp add: unat_minus_one)
  qed
  consider "n = 0" | "n = 1" | "n \<noteq> 0" "n \<noteq> 1" by blast
  then show ?thesis
  proof cases
    case 1
    then show ?thesis using k_eq by (simp add: unsigned_minus_1_eq_mask mask_eq_exp_minus_1)
  next
    case 2
    then show ?thesis using k by (simp add: unsigned_minus_1_eq_mask mask_eq_exp_minus_1)
  next
    case 3
    then show ?thesis using k_eq by (simp add: unat_minus_one)
  qed
qed

theorem io_thread_count_witness:
  "\<exists>l k. start_webserver (\<lambda>a. Inr ()) \<lparr>open_ec = Success, set_option = Inr (), bind_ec = Success, listen_ec = Success\<rparr>
      ''::1'' (new_webserver static_conf 4 :: nat webserver) = Inr (l :: nat listening_state, k) \<and> k = 3"
proof -
  let ?r = "start_webserver (\<lambda>a. Inr ()) \<lparr>open_ec = Success, set_option = Inr (), bind_ec = Success, listen_ec = Success\<rparr>
      ''::1'' (new_webserver static_conf 4 :: nat webserver) :: (nat listening_state \<times> nat) throws"
  obtain l k where r: "?r = Inr (l, k)"
    by (simp add: start_webserver_def listener_start_def new_listener_def)
  from io_thread_count [OF r] have "k = 3" by simp
  with r show ?thesis by blast
qed

end
