(* ===== verification/Nano_Pow_Server.thy ===== *)
theory Nano_Pow_Server
  imports Service Web_Server
begin

text \<open>
  \<^verbatim>\<open>nano_pow_server.cpp\<close>: the options, the endpoints, their handlers, and the program as a whole:
  connections, the work handler with its pool, and the response handlers that tie them together.
\<close>

section \<open>Options\<close>

text \<open>
  The parsed command line: \<open>config_values\<close> is \<^verbatim>\<open>vm["config"]\<close> when given, and \<open>config_path\<close> the
  value of \<^verbatim>\<open>config_path\<close> or its default.
\<close>

record options =
  help_given :: bool
  generate_config_given :: bool
  config_values :: "string list option"
  config_path :: "string option"

definition default_config_path :: string where
  "default_config_path = ''./config-nano-pow-server.toml''"

datatype run_mode =
    Print_options
  | Print_config string
  | Serve config
  | Fail string

text \<open>Lines 35 to 54; an exception ends the program with its message on stderr.\<close>

definition run_mode_of :: "libs \<Rightarrow> platform \<Rightarrow> ((string \<times> toml_entries) list \<Rightarrow> string) \<Rightarrow>
    (string \<Rightarrow> string \<Rightarrow> toml_tree throws) \<Rightarrow> (string \<Rightarrow> string option) \<Rightarrow> options \<Rightarrow> run_mode" where
  "run_mode_of L P write_toml parse file vm =
     (if help_given vm then Print_options
      else if generate_config_given vm then
        (case new_config L P parse file [] [] of
           Inl ex \<Rightarrow> Fail (what ex)
         | Inr c \<Rightarrow> Print_config (export_documented L write_toml c))
      else
        (let config_overrides = (case config_values vm of None \<Rightarrow> [] | Some v \<Rightarrow> v);
             config_path_parsed = (case config_path vm of None \<Rightarrow> default_config_path | Some p \<Rightarrow> p)
         in case new_config L P parse file config_path_parsed config_overrides of
              Inl ex \<Rightarrow> Fail (what ex)
            | Inr c \<Rightarrow> Serve c))"

section \<open>Endpoints\<close>

datatype endpoint = Work | Work_queue | Work_queue_delete | Ping | Stop | Version

definition rest_endpoints :: "endpoint rest_endpoint list" where
  "rest_endpoints =
     add_get_endpoint ''/api/v1/version'' Version
    (add_get_endpoint ''/api/v1/stop'' Stop
    (add_get_endpoint ''/api/v1/ping'' Ping
    (add_delete_endpoint ''/api/v1/work/queue'' Work_queue_delete
    (add_get_endpoint ''/api/v1/work/queue'' Work_queue
    (add_post_endpoint ''/api/v1/work'' Work
    (add_post_endpoint ''/'' Work []))))))"

definition websocket_endpoints :: "endpoint websocket_endpoint list" where
  "websocket_endpoints = add_websocket_endpoint ''/websocket'' Work []"

definition web_config_of :: "config \<Rightarrow> web_config" where
  "web_config_of c = \<lparr>static_pages_allow_remote = allow_remote (admin c), static_pages_allow = enable (admin c)\<rparr>"

text \<open>The web server of a configuration, and its start.\<close>

definition webserver_of :: "config \<Rightarrow> endpoint webserver" where
  "webserver_of c = (new_webserver (web_config_of c) (ucast (server_threads (server c))))
     \<lparr>rest := rest_endpoints, websocket := websocket_endpoints\<rparr>"

definition serve :: "(string \<Rightarrow> 'b throws) \<Rightarrow> socket_calls \<Rightarrow> config \<Rightarrow> ('a listening_state \<times> nat) throws" where
  "serve make_address sc c = start_webserver make_address sc (bind_address (server c)) (webserver_of c)"

text \<open>The exit code: an exception from starting the server is reported like one from the configuration.\<close>

definition exit_code :: "(string \<Rightarrow> 'b throws) \<Rightarrow> socket_calls \<Rightarrow> run_mode \<Rightarrow> nat" where
  "exit_code make_address sc m =
     (case m of
        Fail text \<Rightarrow> 1
      | Serve c \<Rightarrow>
          (case serve make_address sc c :: (unit listening_state \<times> nat) throws of Inl ex \<Rightarrow> 1 | Inr r \<Rightarrow> 0)
      | _ \<Rightarrow> 0)"

text \<open>
  The libraries and the configuration of a running program; \<open>write_json\<close> prints a property tree,
  and \<open>peer_loopback i\<close> tells whether the peer of connection \<open>i\<close> is the local host.
\<close>

record ('p, 'f) program =
  work_env :: "'p env"
  web_lib :: "'f web_env"
  write_json :: "response \<Rightarrow> string"
  peer_loopback :: "nat \<Rightarrow> bool"

abbreviation settings :: "('p, 'f) program \<Rightarrow> config" where
  "settings P \<equiv> conf (work_env P)"

text \<open>The texts the work handler passed to response handlers between two of its states.\<close>

definition new_answers :: "handler \<Rightarrow> handler \<Rightarrow> (nat \<times> response) list" where
  "new_answers s s' = drop (length (outbox s)) (outbox s')"

definition success_text :: string where
  "success_text = ''{\"success\": \"true\"}''"

definition control_error_text :: string where
  "control_error_text = ''{\"error\": \"Control requests are not allowed\"}''"

definition version_text :: string where
  "version_text = ''{\"version\": \"1.0.0\"}''"

text \<open>
  The handler of an endpoint: what it does to the work handler, and the texts it writes before it
  returns. \<open>h\<close> is the number of the closure it passes as response handler.
\<close>

definition call_endpoint :: "('p, 'f) program \<Rightarrow> endpoint \<Rightarrow> string \<Rightarrow> nat \<Rightarrow> pool \<Rightarrow> pool \<times> string list" where
  "call_endpoint P ep body h p =
     (case ep of
        Work \<Rightarrow>
          (case accept_request (work_env P) body h (hs p) of
             (t, s') \<Rightarrow> (p\<lparr>hs := s', posting := posting p @ (case t of None \<Rightarrow> [] | Some tk \<Rightarrow> [tk]),
                requests := requests p @ [h]\<rparr>, map (write_json P \<circ> snd) (new_answers (hs p) s')))
      | Work_queue \<Rightarrow>
          (let s' = handle_queue_request (work_env P) h (hs p)
           in (p\<lparr>hs := s', requests := requests p @ [h]\<rparr>, map (write_json P \<circ> snd) (new_answers (hs p) s')))
      | Work_queue_delete \<Rightarrow>
          (let s' = handle_queue_delete_request (work_env P) h (hs p)
           in (p\<lparr>hs := s', requests := requests p @ [h]\<rparr>, map (write_json P \<circ> snd) (new_answers (hs p) s')))
      | Ping \<Rightarrow> (p, [success_text])
      | Stop \<Rightarrow> (p, [if allow_control (server (settings P)) then success_text else control_error_text])
      | Version \<Rightarrow> (p, [version_text]))"

text \<open>The endpoints that pass the work handler a closure over the session.\<close>

fun captures :: "endpoint \<Rightarrow> bool" where
  "captures Work = True"
| "captures Work_queue = True"
| "captures Work_queue_delete = True"
| "captures _ = False"

section \<open>The running program\<close>

text \<open>
  \<open>captured\<close> is the session each closure was made for, \<open>posted\<close> holds the lambdas
  \<^verbatim>\<open>write_response\<close> posted to the strands of WebSocket sessions, and \<open>asked\<close> is the history of
  requests: the session of each request or message that was read.
\<close>

datatype session = Http nat | Ws nat

record 'f system =
  sys_pool :: pool
  http_conns :: "'f conn list"
  websockets :: "ws_conn list"
  captured :: "session list"
  posted :: "(nat \<times> string) list"
  asked :: "session list"
  exited :: bool

definition new_system :: "('p, 'f) program \<Rightarrow> 32 word \<Rightarrow> 'f system" where
  "new_system P d = \<lparr>sys_pool = new_pool (settings P) d, http_conns = [], websockets = [],
     captured = [], posted = [], asked = [], exited = False\<rparr>"

fun write_all :: "'f web_env \<Rightarrow> string list \<Rightarrow> 'f http_session \<Rightarrow>
    (endpoint, 'f) effect" where
  "write_all W [] s = (s, [])"
| "write_all W (t # ts) s =
     (case write_json_response W t s of
        (s1, a1) \<Rightarrow> (case write_all W ts s1 of (s2, a2) \<Rightarrow> (s2, a1 @ a2)))"

text \<open>What the sessions of the program refer to, in a given state of the work handler.\<close>

definition site_of :: "('p, 'f) program \<Rightarrow> bool \<Rightarrow> 'f system \<Rightarrow> (endpoint, 'f) site" where
  "site_of P loopback_peer st =
     \<lparr>web = web_lib P, web_conf = web_config_of (settings P), handlers = rest_endpoints,
      websocket_handlers = websocket_endpoints, doc_root = admin_config.doc_root (admin (settings P)),
      is_loopback = loopback_peer,
      call = (\<lambda>ep body params s.
        write_all (web_lib P) (snd (call_endpoint P ep body (length (captured st)) (sys_pool st))) s)\<rparr>"

text \<open>The endpoint a completed read calls, if any, and what the call does to the program.\<close>

fun routed :: "(endpoint, 'f) site \<Rightarrow> event \<Rightarrow> (endpoint \<times> string) option" where
  "routed S (Read_done ec req) =
     (if ec = Success \<and> \<not> is_upgrade req
      then case handle_request (web S) (web_conf S) (handlers S) (is_loopback S) (site.doc_root S) req of
             Send r \<Rightarrow> None
           | Call ep body params \<Rightarrow> Some (ep, body)
      else None)"
| "routed S _ = None"

definition after_call :: "('p, 'f) program \<Rightarrow> session \<Rightarrow> (endpoint \<times> string) option \<Rightarrow> 'f system \<Rightarrow> 'f system" where
  "after_call P who r st =
     (case r of
        None \<Rightarrow> st
      | Some (ep, body) \<Rightarrow>
          st\<lparr>sys_pool := fst (call_endpoint P ep body (length (captured st)) (sys_pool st)),
             captured := captured st @ (if captures ep then [who] else []),
             exited := exited st \<or> (ep = Stop \<and> allow_control (server (settings P)))\<rparr>)"

fun asks :: "event \<Rightarrow> bool" where
  "asks (Read_done ec req) = (ec = Success \<and> \<not> is_upgrade req)"
| "asks _ = False"

fun upgrades :: "int \<Rightarrow> event \<Rightarrow> ws_conn list" where
  "upgrades now (Read_done ec req) =
     (if ec = Success \<and> is_upgrade req \<and>
         find_websocket_endpoint websocket_endpoints (path (parse_url (target req))) \<noteq> None
      then [new_ws_conn now] else [])"
| "upgrades now _ = []"

text \<open>
  A response handler called by a pool thread: \<^verbatim>\<open>write_json_response\<close> on an HTTP session,
  \<^verbatim>\<open>write_response\<close> on a WebSocket session.
\<close>

definition deliver :: "('p, 'f) program \<Rightarrow> nat \<times> response \<Rightarrow> 'f system \<Rightarrow> 'f system" where
  "deliver P a st =
     (case captured st ! fst a of
        Http i \<Rightarrow> st\<lparr>http_conns := (http_conns st)[i := apply_result
          (write_json_response (web_lib P) (write_json P (snd a)) (sess (http_conns st ! i)) ::
            (endpoint, 'f) effect) (http_conns st ! i)]\<rparr>
      | Ws i \<Rightarrow> st\<lparr>posted := posted st @ [(i, write_json P (snd a))]\<rparr>)"

text \<open>
  The steps that finish what was started, without anything coming in: a posted lambda runs, in the
  order of its strand; the pool makes a step, whose answers are delivered. After an exit nothing
  happens any more.
\<close>

inductive settling :: "('p, 'f) program \<Rightarrow> 'f system \<Rightarrow> 'f system \<Rightarrow> bool" for P where
  ws_response: "\<not> exited st \<Longrightarrow> posted st = xs @ (i, t) # ys \<Longrightarrow> i \<notin> fst ` set xs \<Longrightarrow>
     ws_step (now, Response t) (websockets st ! i) = Some c' \<Longrightarrow>
     settling P st (st\<lparr>websockets := (websockets st)[i := c'], posted := xs @ ys\<rparr>)"
| pool: "\<not> exited st \<Longrightarrow> internal (work_env P) (sys_pool st) p' \<Longrightarrow>
     settling P st (fold (deliver P) (new_answers (hs (sys_pool st)) (hs p')) (st\<lparr>sys_pool := p'\<rparr>))"

text \<open>
  All steps: a connection is accepted; an operation of an HTTP or a WebSocket session completes; a
  message of a WebSocket peer calls its endpoint; or the program settles.
\<close>

inductive system_step :: "('p, 'f) program \<Rightarrow> 'f system \<Rightarrow> 'f system \<Rightarrow> bool" for P where
  connect: "\<not> exited st \<Longrightarrow> system_step P st (st\<lparr>http_conns := http_conns st @ [new_conn now]\<rparr>)"
| http_event: "\<not> exited st \<Longrightarrow> i < length (http_conns st) \<Longrightarrow> (\<And>b. ev \<noteq> Late_response b) \<Longrightarrow>
     conn_event (site_of P (peer_loopback P i) st) (now, ev) (http_conns st ! i) = Some c' \<Longrightarrow>
     system_step P st ((after_call P (Http i) (routed (site_of P (peer_loopback P i) st) ev) st)
       \<lparr>http_conns := (http_conns st)[i := c'], websockets := websockets st @ upgrades now ev,
        asked := asked st @ (if asks ev then [Http i] else [])\<rparr>)"
| ws_event: "\<not> exited st \<Longrightarrow> i < length (websockets st) \<Longrightarrow> (\<And>m. ev \<noteq> Response m) \<Longrightarrow>
     (\<And>m. ev \<noteq> Ws_read_done Success m) \<Longrightarrow> ws_step (now, ev) (websockets st ! i) = Some c' \<Longrightarrow>
     system_step P st (st\<lparr>websockets := (websockets st)[i := c']\<rparr>)"
| ws_message: "\<not> exited st \<Longrightarrow> i < length (websockets st) \<Longrightarrow>
     ws_step (now, Ws_read_done Success m) (websockets st ! i) = Some c' \<Longrightarrow>
     call_endpoint P Work m (length (captured st)) (sys_pool st) = (p', ts) \<Longrightarrow>
     system_step P st (st\<lparr>websockets := (websockets st)[i := c'], sys_pool := p',
       captured := captured st @ [Ws i], posted := posted st @ map (Pair i) ts, asked := asked st @ [Ws i]\<rparr>)"
| settle: "settling P st st' \<Longrightarrow> system_step P st st'"

declare settling.intros [step_intros] system_step.intros [step_intros]

inductive system_reachable :: "('p, 'f) program \<Rightarrow> 32 word \<Rightarrow> 'f system \<Rightarrow> bool" for P d where
  start: "system_reachable P d (new_system P d)"
| step: "system_reachable P d st \<Longrightarrow> system_step P st st' \<Longrightarrow> system_reachable P d st'"

section \<open>Lemmas\<close>

subsection \<open>Calls of endpoints\<close>

lemma call_endpoint_client:
  assumes "call_endpoint P ep body h p = (p', ts)" "captures ep"
  shows "client (work_env P) p p'" "requests p' = requests p @ [h]"
proof -
  obtain t s' where a: "accept_request (work_env P) body h (hs p) = (t, s')" by fastforce
  note defs = call_endpoint_def Let_def
  have "client (work_env P) p p' \<and> requests p' = requests p @ [h]"
  proof (cases ep)
    case Work
    then have "p' = p\<lparr>hs := s', posting := posting p @ (case t of None \<Rightarrow> [] | Some tk \<Rightarrow> [tk]),
        requests := requests p @ [h]\<rparr>"
      using assms(1) by (auto simp: defs a)
    with client.request [OF a] show ?thesis by simp
  next
    case Work_queue
    then have "p' = p\<lparr>hs := handle_queue_request (work_env P) h (hs p), requests := requests p @ [h]\<rparr>"
      using assms(1) by (auto simp: defs)
    with client.list show ?thesis by simp
  next
    case Work_queue_delete
    then have "p' = p\<lparr>hs := handle_queue_delete_request (work_env P) h (hs p), requests := requests p @ [h]\<rparr>"
      using assms(1) by (auto simp: defs)
    with client.delete show ?thesis by simp
  qed (use assms(2) in simp_all)
  then show "client (work_env P) p p'" "requests p' = requests p @ [h]" by simp_all
qed

text \<open>The texts a call writes at once are the answers the work handler gave during the call.\<close>

lemma call_endpoint_texts:
  assumes "call_endpoint P ep body h p = (p', ts)" "captures ep"
  shows "(\<exists>r. outbox (hs p') = outbox (hs p) @ [(h, r)] \<and> ts = [write_json P r]) \<or>
    (outbox (hs p') = outbox (hs p) \<and> ts = [])"
proof (cases ep)
  case Work
  obtain t s' where a: "accept_request (work_env P) body h (hs p) = (t, s')" by fastforce
  then have "hs p' = s'" "ts = map (write_json P \<circ> snd) (new_answers (hs p) s')"
    using assms(1) Work by (auto simp: call_endpoint_def)
  then show ?thesis
    using accept_request_cases [OF a] by (auto simp: answered_def queued_def new_answers_def)
next
  case Work_queue
  obtain r where "outbox (handle_queue_request (work_env P) h (hs p)) = outbox (hs p) @ [(h, r)]"
    by (simp add: handle_queue_request_def)
  then show ?thesis
    using assms(1) Work_queue by (auto simp: call_endpoint_def Let_def new_answers_def)
next
  case Work_queue_delete
  obtain r where "outbox (handle_queue_delete_request (work_env P) h (hs p)) = outbox (hs p) @ [(h, r)]"
    by (cases "allow_control (server (settings P))") (simp_all add: handle_queue_delete_request_def)
  then show ?thesis
    using assms(1) Work_queue_delete by (auto simp: call_endpoint_def Let_def new_answers_def)
qed (use assms(2) in simp_all)

lemma call_endpoint_plain:
  "\<not> captures ep \<Longrightarrow> fst (call_endpoint P ep body h p) = p \<and> length (snd (call_endpoint P ep body h p)) = 1"
  by (cases ep) (simp_all add: call_endpoint_def)

lemma length_texts: "length (snd (call_endpoint P ep body h p)) \<le> 1"
proof (cases "captures ep")
  case True
  obtain p' ts where c: "call_endpoint P ep body h p = (p', ts)" by fastforce
  from call_endpoint_texts [OF c True] c show ?thesis by auto
qed (simp add: call_endpoint_plain)

subsection \<open>What is owed\<close>

text \<open>The closures the work handler was given are those made so far.\<close>

definition pool_ok :: "('p, 'f) program \<Rightarrow> 32 word \<Rightarrow> pool \<Rightarrow> session list \<Rightarrow> bool" where
  "pool_ok P d p cs \<longleftrightarrow> reachable (work_env P) d p \<and> requests p = [0..<length cs]"

lemma pool_ok_served: "pool_ok P d p cs \<Longrightarrow> work_service.served p (length cs)"
  using reachable_served by (auto simp: pool_ok_def)

lemma new_answers_fresh: "new_answers (hs p) (hs p') = work_service.fresh p p'"
  by (simp add: new_answers_def work_service.fresh_def)

lemma call_owed:
  assumes "pool_ok P d p cs" "captures ep" "call_endpoint P ep body (length cs) p = (p', ts)"
  shows "pool_ok P d p' (cs @ [who])"
    and "owed (pending p') (cs @ [who]) w + (if w = who then length ts else 0)
      = owed (pending p) cs w + (if w = who then 1 else 0)"
proof -
  note c = call_endpoint_client [OF assms(3,2)]
  show "pool_ok P d p' (cs @ [who])"
    using assms(1) c by (auto simp: pool_ok_def intro: reachable.client)
  have "length ts = length (work_service.fresh p p')"
    using call_endpoint_texts [OF assms(3,2)] by (auto simp: work_service.fresh_def)
  then show "owed (pending p') (cs @ [who]) w + (if w = who then length ts else 0)
      = owed (pending p) cs w + (if w = who then 1 else 0)"
    using work_service.owed_request [OF pool_ok_served [OF assms(1)], of "work_env P" p' who w] c
    by (cases "w = who") simp_all
qed

lemma internal_owed:
  assumes "pool_ok P d p cs" "internal (work_env P) p p'"
  shows "pool_ok P d p' cs" "set (map fst (new_answers (hs p) (hs p'))) \<subseteq> {..<length cs}"
    and "owed (pending p') cs w + length (filter (\<lambda>a. cs ! fst a = w) (new_answers (hs p) (hs p')))
      = owed (pending p) cs w"
    and "length (new_answers (hs p) (hs p')) \<le> 1"
proof -
  have "requests p' = requests p" using assms(2) by cases simp_all
  then show "pool_ok P d p' cs" using assms by (auto simp: pool_ok_def intro: reachable.internal)
  show "set (map fst (new_answers (hs p) (hs p'))) \<subseteq> {..<length cs}"
    using work_service.fresh_less [OF pool_ok_served [OF assms(1)] assms(2)] by (auto simp: new_answers_fresh)
  show "owed (pending p') cs w + length (filter (\<lambda>a. cs ! fst a = w) (new_answers (hs p) (hs p')))
      = owed (pending p) cs w"
    using work_service.owed_step [OF assms(2)] by (simp add: new_answers_fresh)
  show "length (new_answers (hs p) (hs p')) \<le> 1"
    using work_service.step_fresh [OF assms(2)] by (simp add: new_answers_fresh)
qed

subsection \<open>Responses and sessions\<close>

lemma write_all_one:
  assumes "length ts \<le> 1"
  shows "write_all W ts s = (s, []) \<or> (\<exists>r. write_all W ts s = send r s)"
proof (cases ts)
  case (Cons t ts')
  then have "ts = [t]" using assms by simp
  moreover have "write_all W [t] s = send (json_response W t s) s"
    by (simp add: write_json_response_def case_prod_unfold)
  ultimately show ?thesis by blast
qed simp

lemma site_of_calls: "calls_send (site_of P b st)"
  unfolding calls_send_def site_of_def site.simps by (intro allI write_all_one length_texts)

lemma length_send: "length (items (fst (send r s))) = Suc (length (items s))"
  by (simp add: send_def queue_send_def Let_def)

lemma length_write_all: "length (items (fst (write_all W ts s))) = length (items s) + length ts"
proof (induction ts arbitrary: s)
  case (Cons t ts)
  have "length (items (fst (write_json_response W t s :: (endpoint, 'a) effect))) = Suc (length (items s))"
    unfolding write_json_response_def by (rule length_send)
  then show ?case using Cons by (simp add: case_prod_unfold)
qed simp

text \<open>The texts an event writes at once.\<close>

definition texts_of :: "('p, 'f) program \<Rightarrow> 'f system \<Rightarrow> (endpoint \<times> string) option \<Rightarrow> nat" where
  "texts_of P st r = (case r of None \<Rightarrow> 1
     | Some (ep, body) \<Rightarrow> length (snd (call_endpoint P ep body (length (captured st)) (sys_pool st))))"

lemma length_handle_request:
  fixes st :: "'f system" and P :: "('p, 'f) program" and b :: bool
  assumes "ec = Success" "\<not> is_upgrade req"
  defines "S \<equiv> site_of P b st"
  shows "length (items (fst (session_handle_request S req s)))
    = length (items s) + texts_of P st (routed S (Read_done ec req))"
proof (cases "handle_request (web S) (web_conf S) (handlers S) (is_loopback S) (site.doc_root S) req")
  case (Send r)
  then show ?thesis
    using assms(1,2) by (simp add: session_handle_request_def texts_of_def length_send)
next
  case (Call ep body params)
  then show ?thesis
    using assms(1,2)
    by (simp add: session_handle_request_def texts_of_def Let_def) (simp add: S_def site_of_def length_write_all)
qed

lemma http_event_sent:
  fixes st :: "'f system"
  assumes "conn_event (site_of P b st) (now, ev) c = Some c'" "\<And>t. ev \<noteq> Late_response t"
  shows "length (sent c') = length (sent c) + (if asks ev then texts_of P st (routed (site_of P b st) ev) else 0)"
proof (cases ev)
  case (Read_done ec req)
  let ?S = "site_of P b st"
  have c': "c' = apply_result (on_read ?S now ec req (sess c)) (c\<lparr>reads := reads c - 1\<rparr>)"
    using assms(1) Read_done by (simp add: conn_event_def split: if_splits)
  show ?thesis
  proof (cases "asks ev")
    case True
    then have r: "ec = Success" "\<not> is_upgrade req" by (simp_all add: Read_done)
    then have "items (fst (on_read ?S now ec req (sess c))) = items (fst (session_handle_request ?S req (sess c)))"
      by (simp add: on_read_def case_prod_unfold)
    then show ?thesis
      using length_handle_request [OF r, of P b st "sess c"] True by (simp add: c' apply_result_def Read_done)
  next
    case False
    then have "items (fst (on_read ?S now ec req (sess c))) = items (sess c)"
      by (auto simp: Read_done on_read_def graceful_shutdown_def split: option.split)
    then have "sent c' = sent c" by (simp add: c' apply_result_def)
    with False show ?thesis by simp
  qed
next
  case (Write_done ec)
  let ?w = "on_write now ec (need_eof (web (site_of P b st)) (hd (items (sess c)))) (sess c)
    :: (endpoint, 'f) effect"
  have c': "c' = apply_result ?w (c\<lparr>writing := writing c - 1\<rparr>)"
    using assms(1) Write_done by (simp add: conn_event_def split: if_splits)
  have "length (items (fst ?w)) \<le> length (items (sess c))"
    by (simp add: on_write_def graceful_shutdown_def queue_on_write_def case_prod_unfold Let_def)
  then show ?thesis by (simp add: c' apply_result_def Write_done)
next
  case (Timer_done ec)
  then have "c' = apply_result (on_timer now ec (sess c) :: (endpoint, 'f) effect) c"
    using assms(1) by (simp add: conn_event_def)
  then show ?thesis by (simp add: apply_result_def on_timer_def Timer_done)
next
  case (Late_response t)
  with assms(2) show ?thesis by blast
qed

lemma late_sent:
  "apply_result (write_json_response W t (sess c) :: (endpoint, 'f) effect) c
     = pushed_msg (json_response W t (sess c)) c"
  by (simp add: write_json_response_def apply_send)

text \<open>The responses handed to a WebSocket session: those on the wire and those still queued.\<close>

definition handed :: "ws_conn \<Rightarrow> nat" where
  "handed c = length (ws_wire c) + length (send_queue (ws c)) - ws_writing c"

definition ws_ok :: "ws_conn \<Rightarrow> bool" where
  "ws_ok c \<longleftrightarrow> ws_writing c \<le> 1 \<and> (ws_writing c = 1 \<longrightarrow> send_queue (ws c) \<noteq> [])"

lemma ws_ok_new: "ws_ok (new_ws_conn now)" "handed (new_ws_conn now) = 0"
  by (simp_all add: ws_ok_def handed_def new_ws_conn_eq)

lemma ws_response_handed:
  assumes "ws_step (now, Response m) c = Some c'" "ws_ok c"
  shows "ws_ok c' \<and> handed c' = Suc (handed c)"
  using assms by (cases "send_queue (ws c)") (auto simp: ws_step_response ws_ok_def handed_def)

lemma ws_event_handed:
  assumes "ws_step (now, ev) c = Some c'" "ws_ok c" "\<And>m. ev \<noteq> Response m"
  shows "ws_ok c' \<and> handed c' = handed c"
proof (cases "\<exists>ec. ev = Ws_written ec")
  case True
  then obtain ec where "ws_step (now, Ws_written ec) c = Some c'" using assms(1) by blast
  moreover from this have "ws_writing c = 1" "send_queue (ws c) \<noteq> []"
    using assms(2) by (auto simp: ws_step_written ws_ok_def split: if_splits)
  ultimately show ?thesis
    by (cases "send_queue (ws c)"; cases "tl (send_queue (ws c))") (auto simp: ws_step_written ws_ok_def handed_def Let_def)
next
  case False
  then have "send_queue (ws c') = send_queue (ws c) \<and> ws_writing c' = ws_writing c \<and> ws_wire c' = ws_wire c"
    using ws_step_other [OF assms(1,3)] by blast
  then show ?thesis using assms(2) by (simp add: ws_ok_def handed_def)
qed


subsection \<open>The invariant\<close>

text \<open>The responses handed over to a session so far.\<close>

fun handed_to :: "'f system \<Rightarrow> session \<Rightarrow> nat" where
  "handed_to st (Http i) = length (sent (http_conns st ! i))"
| "handed_to st (Ws i) = handed (websockets st ! i) + length (filter (\<lambda>x. fst x = i) (posted st))"

fun valid :: "'f system \<Rightarrow> session \<Rightarrow> bool" where
  "valid st (Http i) = (i < length (http_conns st))"
| "valid st (Ws i) = (i < length (websockets st))"

definition sessions_ok :: "'f system \<Rightarrow> bool" where
  "sessions_ok st \<longleftrightarrow> (\<forall>c \<in> set (http_conns st). wire_inv c) \<and> (\<forall>c \<in> set (websockets st). ws_ok c) \<and>
     (\<forall>x \<in> set (posted st). fst x < length (websockets st)) \<and>
     (\<forall>s \<in> set (captured st) \<union> set (asked st). valid st s)"

definition balanced :: "'f system \<Rightarrow> bool" where
  "balanced st \<longleftrightarrow> (\<forall>s. valid st s \<longrightarrow>
     count_list (asked st) s = handed_to st s + owed (pending (sys_pool st)) (captured st) s)"

definition system_inv :: "('p, 'f) program \<Rightarrow> 32 word \<Rightarrow> 'f system \<Rightarrow> bool" where
  "system_inv P d st \<longleftrightarrow> pool_ok P d (sys_pool st) (captured st) \<and> sessions_ok st \<and> balanced st"

lemma balanced_new:
  assumes "pool_ok P d (sys_pool st) (captured st)" "sessions_ok st" "\<not> valid st s"
  shows "count_list (asked st) s = 0 \<and> owed (pending (sys_pool st)) (captured st) s = 0"
  using assms work_service.owed_nobody [OF pool_ok_served [OF assms(1)], of s]
  by (auto simp: sessions_ok_def count_list_0_iff)

text \<open>The delivery of the answers of one step of the pool.\<close>

definition same_frame :: "'f system \<Rightarrow> 'f system \<Rightarrow> bool" where
  "same_frame st st' \<longleftrightarrow> sys_pool st' = sys_pool st \<and> captured st' = captured st \<and> asked st' = asked st \<and>
     websockets st' = websockets st \<and> length (http_conns st') = length (http_conns st)"

lemma same_frame_valid: "same_frame st st' \<Longrightarrow> valid st' s = valid st s"
  by (cases s) (auto simp: same_frame_def)

lemma deliver_one:
  assumes "sessions_ok st" "fst a < length (captured st)"
  shows "same_frame st (deliver P a st)" "sessions_ok (deliver P a st)"
    and "valid st s \<Longrightarrow> handed_to (deliver P a st) s = handed_to st s + (if captured st ! fst a = s then 1 else 0)"
proof -
  let ?st = "deliver P a st"
  have v: "valid st (captured st ! fst a)" using assms by (simp add: sessions_ok_def)
  show f: "same_frame st ?st"
    by (simp add: same_frame_def deliver_def split: session.split)
  show "sessions_ok ?st"
  proof (cases "captured st ! fst a")
    case (Http i)
    then have i: "i < length (http_conns st)" using v by simp
    then have "wire_inv (http_conns st ! i)" using assms(1) by (simp add: sessions_ok_def)
    then have "\<forall>c \<in> set (http_conns ?st). wire_inv c"
      using assms(1) by (auto simp: deliver_def Http late_sent wire_inv_pushed sessions_ok_def
        dest!: set_update_subset_insert [THEN subsetD])
    then show ?thesis
      using assms(1) f same_frame_valid [OF f] by (simp add: sessions_ok_def same_frame_def) (simp add: deliver_def Http)
  next
    case (Ws i)
    then show ?thesis
      using assms(1) v f same_frame_valid [OF f] by (auto simp: sessions_ok_def deliver_def same_frame_def)
  qed
  assume "valid st s"
  then show "handed_to ?st s = handed_to st s + (if captured st ! fst a = s then 1 else 0)"
    using v by (cases s; cases "captured st ! fst a")
      (auto simp: deliver_def late_sent pushed_msg_def nth_list_update)
qed

lemma deliver_all:
  assumes "sessions_ok st" "set (map fst as) \<subseteq> {..<length (captured st)}"
  shows "same_frame st (fold (deliver P) as st) \<and> sessions_ok (fold (deliver P) as st) \<and>
    (\<forall>s. valid st s \<longrightarrow> handed_to (fold (deliver P) as st) s
       = handed_to st s + length (filter (\<lambda>a. captured st ! fst a = s) as))"
  using assms
proof (induction as arbitrary: st)
  case (Cons a as)
  let ?st = "deliver P a st"
  have a: "fst a < length (captured st)" using Cons.prems(2) by simp
  note one = deliver_one [OF Cons.prems(1) a, where P = P]
  from one(1) have c: "captured ?st = captured st" by (simp add: same_frame_def)
  have IH: "same_frame ?st (fold (deliver P) as ?st) \<and> sessions_ok (fold (deliver P) as ?st) \<and>
    (\<forall>s. valid ?st s \<longrightarrow> handed_to (fold (deliver P) as ?st) s
       = handed_to ?st s + length (filter (\<lambda>a. captured ?st ! fst a = s) as))"
    by (rule Cons.IH) (use one(2) Cons.prems(2) c in auto)
  then have "same_frame st (fold (deliver P) as ?st)" using one(1) by (simp add: same_frame_def)
  then show ?case using IH one(3) same_frame_valid [OF one(1)] by (simp add: c)
qed (simp add: same_frame_def)


lemma after_call_effect:
  fixes st :: "'f system" and P :: "('p, 'f) program" and r and who :: session
  assumes "pool_ok P d (sys_pool st) (captured st)"
  defines "st1 \<equiv> after_call P who r st"
  shows "pool_ok P d (sys_pool st1) (captured st1)" "set (captured st1) \<subseteq> insert who (set (captured st))"
    and "owed (pending (sys_pool st1)) (captured st1) w + (if w = who then texts_of P st r else 0)
      = owed (pending (sys_pool st)) (captured st) w + (if w = who then 1 else 0)"
proof -
  have "pool_ok P d (sys_pool st1) (captured st1) \<and> set (captured st1) \<subseteq> insert who (set (captured st)) \<and>
    owed (pending (sys_pool st1)) (captured st1) w + (if w = who then texts_of P st r else 0)
      = owed (pending (sys_pool st)) (captured st) w + (if w = who then 1 else 0)"
  proof (cases r)
    case None
    then show ?thesis using assms(1) by (auto simp: st1_def after_call_def texts_of_def)
  next
    case (Some x)
    obtain ep body where x: "x = (ep, body)" by fastforce
    obtain p' ts where c: "call_endpoint P ep body (length (captured st)) (sys_pool st) = (p', ts)" by fastforce
    show ?thesis
    proof (cases "captures ep")
      case True
      then show ?thesis
        using call_owed(1) [OF assms(1) True c, of who] call_owed(2) [OF assms(1) True c, of who w] c
        by (auto simp: st1_def after_call_def texts_of_def Some x)
    next
      case False
      then show ?thesis
        using assms(1) call_endpoint_plain [OF False, of P body "length (captured st)" "sys_pool st"] c
        by (auto simp: st1_def after_call_def texts_of_def Some x)
    qed
  qed
  then show "pool_ok P d (sys_pool st1) (captured st1)" "set (captured st1) \<subseteq> insert who (set (captured st))"
    "owed (pending (sys_pool st1)) (captured st1) w + (if w = who then texts_of P st r else 0)
      = owed (pending (sys_pool st)) (captured st) w + (if w = who then 1 else 0)"
    by simp_all
qed

lemma after_call_frame [simp]:
  "http_conns (after_call P who r st) = http_conns st" "websockets (after_call P who r st) = websockets st"
  "posted (after_call P who r st) = posted st" "asked (after_call P who r st) = asked st"
  by (simp_all add: after_call_def split: option.split prod.split)

lemma routed_asks: "\<not> asks ev \<Longrightarrow> routed S ev = None"
  by (cases ev) auto

lemma upgrades_new: "c \<in> set (upgrades now ev) \<Longrightarrow> c = new_ws_conn now"
  by (cases ev) (auto split: if_splits)

lemma valid_mono:
  "length (http_conns st) \<le> length (http_conns st') \<Longrightarrow> length (websockets st) \<le> length (websockets st') \<Longrightarrow>
     valid st s \<Longrightarrow> valid st' s"
  by (cases s) auto

lemma sessions_okI:
  assumes "sessions_ok st" "length (http_conns st) \<le> length (http_conns st')"
    "length (websockets st) \<le> length (websockets st')"
    and "\<And>c. c \<in> set (http_conns st') \<Longrightarrow> c \<in> set (http_conns st) \<or> wire_inv c"
    and "\<And>c. c \<in> set (websockets st') \<Longrightarrow> c \<in> set (websockets st) \<or> ws_ok c"
    and "\<And>x. x \<in> set (posted st') \<Longrightarrow> x \<in> set (posted st) \<or> fst x < length (websockets st)"
    and "\<And>s. s \<in> set (captured st') \<union> set (asked st') \<Longrightarrow> s \<in> set (captured st) \<union> set (asked st) \<or> valid st s"
  shows "sessions_ok st'"
proof -
  have "valid st' s" if "s \<in> set (captured st') \<union> set (asked st')" for s
    using assms(1) assms(7) [OF that] valid_mono [OF assms(2,3), of s] by (auto simp: sessions_ok_def)
  moreover have "fst x < length (websockets st')" if "x \<in> set (posted st')" for x
    using assms(1,3) assms(6) [OF that] by (auto simp: sessions_ok_def)
  moreover have "wire_inv c" if "c \<in> set (http_conns st')" for c
    using assms(1) assms(4) [OF that] by (auto simp: sessions_ok_def)
  moreover have "ws_ok c" if "c \<in> set (websockets st')" for c
    using assms(1) assms(5) [OF that] by (auto simp: sessions_ok_def)
  ultimately show ?thesis by (simp add: sessions_ok_def)
qed

text \<open>It suffices to balance the sessions there were, and to find nothing handed to new ones.\<close>

lemma balancedI:
  assumes "pool_ok P d (sys_pool st) (captured st)" "sessions_ok st" "balanced st"
    and "\<And>s. valid st s \<Longrightarrow> count_list (asked st') s + handed_to st s + owed (pending (sys_pool st)) (captured st) s
      = count_list (asked st) s + handed_to st' s + owed (pending (sys_pool st')) (captured st') s"
    and "\<And>s. \<not> valid st s \<Longrightarrow> valid st' s \<Longrightarrow> count_list (asked st') s = count_list (asked st) s \<and>
      handed_to st' s = 0 \<and> owed (pending (sys_pool st')) (captured st') s = owed (pending (sys_pool st)) (captured st) s"
  shows "balanced st'"
  unfolding balanced_def
proof (intro allI impI)
  fix s assume v: "valid st' s"
  show "count_list (asked st') s = handed_to st' s + owed (pending (sys_pool st')) (captured st') s"
  proof (cases "valid st s")
    case True
    with assms(3) have "count_list (asked st) s = handed_to st s + owed (pending (sys_pool st)) (captured st) s"
      by (simp add: balanced_def)
    with assms(4) [OF True] show ?thesis by simp
  next
    case False
    with assms(5) [OF False v] balanced_new [OF assms(1,2) False] show ?thesis by simp
  qed
qed


lemma step_connect:
  assumes "system_inv P d st"
  shows "system_inv P d (st\<lparr>http_conns := http_conns st @ [new_conn now]\<rparr>)"
proof -
  let ?st = "st\<lparr>http_conns := http_conns st @ [new_conn now]\<rparr>"
  from assms have I: "pool_ok P d (sys_pool st) (captured st)" "sessions_ok st" "balanced st"
    by (simp_all add: system_inv_def)
  have "sessions_ok ?st" by (rule sessions_okI [OF I(2)]) (use wire_inv_new in auto)
  moreover have "balanced ?st"
  proof (rule balancedI [OF I])
    fix s assume "valid st s"
    then show "count_list (asked ?st) s + handed_to st s + owed (pending (sys_pool st)) (captured st) s
      = count_list (asked st) s + handed_to ?st s + owed (pending (sys_pool ?st)) (captured ?st) s"
      by (cases s) (simp_all add: nth_append)
  next
    fix s assume "\<not> valid st s" "valid ?st s"
    then show "count_list (asked ?st) s = count_list (asked st) s \<and> handed_to ?st s = 0 \<and>
      owed (pending (sys_pool ?st)) (captured ?st) s = owed (pending (sys_pool st)) (captured st) s"
      by (cases s) (auto simp: nth_append new_conn_eq less_Suc_eq)
  qed
  ultimately show ?thesis using I(1) by (simp add: system_inv_def)
qed

lemma step_http:
  assumes "system_inv P d st" "i < length (http_conns st)" "\<And>b. ev \<noteq> Late_response b"
    and "conn_event (site_of P peer st) (now, ev) (http_conns st ! i) = Some c'"
  shows "system_inv P d ((after_call P (Http i) (routed (site_of P peer st) ev) st)
    \<lparr>http_conns := (http_conns st)[i := c'], websockets := websockets st @ upgrades now ev,
     asked := asked st @ (if asks ev then [Http i] else [])\<rparr>)" (is "system_inv P d ?st")
proof -
  from assms(1) have I: "pool_ok P d (sys_pool st) (captured st)" "sessions_ok st" "balanced st"
    by (simp_all add: system_inv_def)
  let ?r = "routed (site_of P peer st) ev"
  let ?st1 = "after_call P (Http i) ?r st"
  note call = after_call_effect [OF I(1), of "Http i" ?r]
  have same: "?st1 = st" if "\<not> asks ev" unfolding after_call_def routed_asks [OF that] by simp
  have "wire_inv (http_conns st ! i)" using I(2) assms(2) by (simp add: sessions_ok_def)
  then have w: "wire_inv c'" by (rule wire_inv_event [OF site_of_calls _ assms(4)])
  note sent = http_event_sent [OF assms(4,3)]
  have new: "ws_ok c \<and> handed c = 0" if "c \<in> set (upgrades now ev)" for c
    using upgrades_new [OF that] ws_ok_new by simp
  have "sessions_ok ?st"
    by (rule sessions_okI [OF I(2)])
      (use w new call(2) assms(2) in \<open>auto dest: set_update_subset_insert [THEN subsetD] split: if_splits\<close>)
  moreover have "balanced ?st"
  proof (rule balancedI [OF I])
    fix s assume v: "valid st s"
    show "count_list (asked ?st) s + handed_to st s + owed (pending (sys_pool st)) (captured st) s
      = count_list (asked st) s + handed_to ?st s + owed (pending (sys_pool ?st)) (captured ?st) s"
    proof (cases "asks ev")
      case True
      then show ?thesis using v sent call(3) [of s] assms(2) by (cases s) (auto simp: nth_append)
    next
      case False
      then show ?thesis using v sent same assms(2) by (cases s) (auto simp: nth_append nth_list_update)
    qed
  next
    fix s assume v: "\<not> valid st s" "valid ?st s"
    then obtain j where j: "s = Ws j" "\<not> j < length (websockets st)" "j < length (websockets st @ upgrades now ev)"
      by (cases s) auto
    have "\<forall>x \<in> set (posted st). fst x \<noteq> j" using I(2) j(2) by (auto simp: sessions_ok_def)
    then have "filter (\<lambda>x. fst x = j) (posted st) = []" by (simp add: filter_empty_conv)
    moreover have "handed ((websockets st @ upgrades now ev) ! j) = 0"
      using new j(2,3) by (simp add: nth_append)
    ultimately show "count_list (asked ?st) s = count_list (asked st) s \<and> handed_to ?st s = 0 \<and>
      owed (pending (sys_pool ?st)) (captured ?st) s = owed (pending (sys_pool st)) (captured st) s"
      using call(3) [of s] by (simp add: j(1))
  qed
  ultimately show ?thesis using call(1) by (simp add: system_inv_def)
qed

lemma step_ws:
  assumes "system_inv P d st" "i < length (websockets st)" "\<And>m. ev \<noteq> Response m"
    and "ws_step (now, ev) (websockets st ! i) = Some c'"
  shows "system_inv P d (st\<lparr>websockets := (websockets st)[i := c']\<rparr>)" (is "system_inv P d ?st")
proof -
  from assms(1) have I: "pool_ok P d (sys_pool st) (captured st)" "sessions_ok st" "balanced st"
    by (simp_all add: system_inv_def)
  have "ws_ok (websockets st ! i)" using I(2) assms(2) by (simp add: sessions_ok_def)
  then have c': "ws_ok c' \<and> handed c' = handed (websockets st ! i)"
    using ws_event_handed [OF assms(4)] assms(3) by blast
  have "sessions_ok ?st"
    by (rule sessions_okI [OF I(2)]) (use c' in \<open>auto dest: set_update_subset_insert [THEN subsetD]\<close>)
  moreover have "balanced ?st"
  proof (rule balancedI [OF I])
    fix s assume "valid st s"
    then show "count_list (asked ?st) s + handed_to st s + owed (pending (sys_pool st)) (captured st) s
      = count_list (asked st) s + handed_to ?st s + owed (pending (sys_pool ?st)) (captured ?st) s"
      using c' assms(2) by (cases s) (auto simp: nth_list_update)
  next
    fix s assume "\<not> valid st s" "valid ?st s"
    then show "count_list (asked ?st) s = count_list (asked st) s \<and> handed_to ?st s = 0 \<and>
      owed (pending (sys_pool ?st)) (captured ?st) s = owed (pending (sys_pool st)) (captured st) s" by (cases s) auto
  qed
  ultimately show ?thesis using I(1) by (simp add: system_inv_def)
qed

lemma step_ws_message:
  assumes "system_inv P d st" "i < length (websockets st)"
    and "ws_step (now, Ws_read_done Success m) (websockets st ! i) = Some c'"
    and "call_endpoint P Work m (length (captured st)) (sys_pool st) = (p', ts)"
  shows "system_inv P d (st\<lparr>websockets := (websockets st)[i := c'], sys_pool := p',
       captured := captured st @ [Ws i], posted := posted st @ map (Pair i) ts, asked := asked st @ [Ws i]\<rparr>)"
    (is "system_inv P d ?st")
proof -
  from assms(1) have I: "pool_ok P d (sys_pool st) (captured st)" "sessions_ok st" "balanced st"
    by (simp_all add: system_inv_def)
  have "captures Work" by simp
  note call = call_owed [OF I(1) this assms(4), of "Ws i"]
  have "ws_ok (websockets st ! i)" using I(2) assms(2) by (simp add: sessions_ok_def)
  then have c': "ws_ok c' \<and> handed c' = handed (websockets st ! i)"
    using ws_event_handed [OF assms(3)] by blast
  have "sessions_ok ?st"
    by (rule sessions_okI [OF I(2)]) (use c' assms(2) in \<open>auto dest: set_update_subset_insert [THEN subsetD]\<close>)
  moreover have "balanced ?st"
  proof (rule balancedI [OF I])
    fix s assume v: "valid st s"
    have "length (filter (\<lambda>x. fst x = j) (map (Pair i) ts)) = (if j = i then length ts else 0)" for j
      by (induction ts) simp_all
    then show "count_list (asked ?st) s + handed_to st s + owed (pending (sys_pool st)) (captured st) s
      = count_list (asked st) s + handed_to ?st s + owed (pending (sys_pool ?st)) (captured ?st) s"
      using v c' call(2) [of s] assms(2) by (cases s) (auto simp: nth_list_update)
  next
    fix s assume "\<not> valid st s" "valid ?st s"
    then show "count_list (asked ?st) s = count_list (asked st) s \<and> handed_to ?st s = 0 \<and>
      owed (pending (sys_pool ?st)) (captured ?st) s = owed (pending (sys_pool st)) (captured st) s" by (cases s) auto
  qed
  ultimately show ?thesis using call(1) by (simp add: system_inv_def)
qed

lemma step_ws_response:
  assumes "system_inv P d st" "posted st = xs @ (i, t) # ys"
    and "ws_step (now, Response t) (websockets st ! i) = Some c'"
  shows "system_inv P d (st\<lparr>websockets := (websockets st)[i := c'], posted := xs @ ys\<rparr>)" (is "system_inv P d ?st")
proof -
  from assms(1) have I: "pool_ok P d (sys_pool st) (captured st)" "sessions_ok st" "balanced st"
    by (simp_all add: system_inv_def)
  have i: "i < length (websockets st)" using I(2) assms(2) by (auto simp: sessions_ok_def)
  then have "ws_ok (websockets st ! i)" using I(2) by (simp add: sessions_ok_def)
  with ws_response_handed [OF assms(3)] have c': "ws_ok c' \<and> handed c' = Suc (handed (websockets st ! i))" by blast
  have "sessions_ok ?st"
    by (rule sessions_okI [OF I(2)]) (use c' assms(2) in \<open>auto dest: set_update_subset_insert [THEN subsetD]\<close>)
  moreover have "balanced ?st"
  proof (rule balancedI [OF I])
    fix s assume "valid st s"
    then show "count_list (asked ?st) s + handed_to st s + owed (pending (sys_pool st)) (captured st) s
      = count_list (asked st) s + handed_to ?st s + owed (pending (sys_pool ?st)) (captured ?st) s"
      using c' i assms(2) by (cases s) (auto simp: nth_list_update)
  next
    fix s assume "\<not> valid st s" "valid ?st s"
    then show "count_list (asked ?st) s = count_list (asked st) s \<and> handed_to ?st s = 0 \<and>
      owed (pending (sys_pool ?st)) (captured ?st) s = owed (pending (sys_pool st)) (captured st) s" by (cases s) auto
  qed
  ultimately show ?thesis using I(1) by (simp add: system_inv_def)
qed

lemma step_pool:
  assumes "system_inv P d st" "internal (work_env P) (sys_pool st) p'"
  shows "system_inv P d (fold (deliver P) (new_answers (hs (sys_pool st)) (hs p')) (st\<lparr>sys_pool := p'\<rparr>))"
proof -
  from assms(1) have I: "pool_ok P d (sys_pool st) (captured st)" "sessions_ok st" "balanced st"
    by (simp_all add: system_inv_def)
  let ?as = "new_answers (hs (sys_pool st)) (hs p')" and ?st1 = "st\<lparr>sys_pool := p'\<rparr>"
  let ?st = "fold (deliver P) ?as ?st1"
  note owe = internal_owed [OF I(1) assms(2)]
  have valid1: "valid ?st1 s = valid st s" and handed1: "handed_to ?st1 s = handed_to st s" for s
    by (cases s; simp)+
  have "sessions_ok ?st1" by (rule sessions_okI [OF I(2)]) auto
  from deliver_all [OF this, of ?as P] owe(2)
  have d: "same_frame ?st1 ?st" "sessions_ok ?st"
    "\<And>s. valid st s \<Longrightarrow> handed_to ?st s = handed_to st s + length (filter (\<lambda>a. captured st ! fst a = s) ?as)"
    by (simp_all add: valid1 handed1)
  have v: "valid ?st s = valid st s" for s using same_frame_valid [OF d(1)] by (simp add: valid1)
  have "balanced ?st"
  proof (rule balancedI [OF I])
    fix s assume "valid st s"
    then show "count_list (asked ?st) s + handed_to st s + owed (pending (sys_pool st)) (captured st) s
      = count_list (asked st) s + handed_to ?st s + owed (pending (sys_pool ?st)) (captured ?st) s"
      using d(1) d(3) [of s] owe(3) [of s] by (simp add: same_frame_def)
  qed (use v in simp)
  then show ?thesis using d(1,2) owe(1) by (simp add: system_inv_def same_frame_def)
qed

lemma step_settling: "system_inv P d st \<Longrightarrow> settling P st st' \<Longrightarrow> system_inv P d st'"
  by (erule settling.cases) (auto intro: step_ws_response step_pool)

lemma system_reachable_inv: "system_reachable P d st \<Longrightarrow> system_inv P d st"
proof (induction rule: system_reachable.induct)
  case start
  have "valid (new_system P d) s \<Longrightarrow> False" for s by (cases s) (simp_all add: new_system_def)
  then show ?case
    by (auto simp: system_inv_def pool_ok_def sessions_ok_def balanced_def new_system_def
        intro: reachable.start) (simp add: new_pool_def)
next
  case (step st st')
  from step.hyps(2) step.IH show ?case
  proof cases
    case connect
    then show ?thesis using step_connect [OF step.IH] by simp
  next
    case (http_event i ev now c')
    show ?thesis unfolding http_event(1) by (rule step_http [OF step.IH http_event(3,4,5)])
  next
    case (ws_event i ev now c')
    show ?thesis unfolding ws_event(1) by (rule step_ws [OF step.IH ws_event(3,4,6)])
  next
    case (ws_message i now m c' p' ts)
    show ?thesis unfolding ws_message(1) by (rule step_ws_message [OF step.IH ws_message(3,4,5)])
  next
    case settle
    then show ?thesis using step_settling [OF step.IH] by simp
  qed
qed


lemma wire_inv_wire: "wire_inv c \<Longrightarrow> wire c @ tl (items (sess c)) = sent c \<and> writing c \<le> 1"
  by (auto simp: wire_inv_def dest: pipeline.in_order_wire)

lemma rest_endpoints_regex:
  "\<forall>ep \<in> set rest_endpoints. endpoint_path ep = path_regex (path_verbatim ep) \<and> CHR ''?'' \<notin> set (path_verbatim ep)"
  by (simp add: rest_endpoints_def add_get_endpoint_def add_post_endpoint_def add_delete_endpoint_def add_endpoint_def)

subsection \<open>Settling\<close>

definition unsettled :: "'f system \<Rightarrow> nat" where
  "unsettled st = 2 * remaining (sys_pool st) + length (posted st)"

lemma deliver_more:
  "exited (deliver P a st) = exited st" "length (posted (deliver P a st)) \<le> Suc (length (posted st))"
  by (simp_all add: deliver_def split: session.split)

lemma settling_frame:
  assumes "settling P st st'" "system_inv P d st"
  shows "exited st' = exited st \<and> asked st' = asked st \<and> unsettled st' < unsettled st"
  using assms(1)
proof cases
  case (ws_response xs i t ys now c')
  then show ?thesis by (simp add: unsettled_def)
next
  case (pool p')
  let ?as = "new_answers (hs (sys_pool st)) (hs p')" and ?st1 = "st\<lparr>sys_pool := p'\<rparr>"
  from assms(2) have I: "pool_ok P d (sys_pool st) (captured st)" "sessions_ok st" by (simp_all add: system_inv_def)
  have "sessions_ok ?st1" by (rule sessions_okI [OF I(2)]) auto
  from deliver_all [OF this, of ?as P] internal_owed(2) [OF I(1) pool(3)]
  have f: "same_frame ?st1 (fold (deliver P) ?as ?st1)" by simp
  have "exited (fold (deliver P) ?as ?st1) = exited st \<and>
      length (posted (fold (deliver P) ?as ?st1)) \<le> Suc (length (posted st))"
    using internal_owed(4) [OF I(1) pool(3)] deliver_more [of P _ ?st1]
    by (cases ?as) auto
  then show ?thesis
    using f internal_decreases [OF pool(3)] by (simp add: pool(1) same_frame_def unsettled_def)
qed

lemma settling_run:
  assumes "(settling P)\<^sup>*\<^sup>* st st'" "system_inv P d st"
  shows "system_inv P d st' \<and> exited st' = exited st \<and> asked st' = asked st"
  using assms by induction (auto simp: settling_frame step_settling)

lemma settling_ends: "system_inv P d st \<Longrightarrow> \<exists>st'. (settling P)\<^sup>*\<^sup>* st st' \<and> (\<nexists>st''. settling P st' st'')"
proof (induction "unsettled st" arbitrary: st rule: less_induct)
  case less
  show ?case
  proof (cases "\<exists>st'. settling P st st'")
    case True
    then obtain st1 where st1: "settling P st st1" by blast
    with less.hyps [of st1] settling_frame [OF st1 less.prems] step_settling [OF less.prems st1]
    obtain st' where "(settling P)\<^sup>*\<^sup>* st1 st'" "\<nexists>st''. settling P st' st''" by blast
    with converse_rtranclp_into_rtranclp [of "settling P", OF st1] show ?thesis by blast
  qed blast
qed

lemma settled_state:
  assumes "libs_laws (libs (work_env P))" "system_inv P d st" "\<not> exited st" "\<nexists>st'. settling P st st'"
  shows "posted st = [] \<and> owed (pending (sys_pool st)) (captured st) s = 0"
proof -
  have "posted st = []"
  proof (rule ccontr)
    assume "posted st \<noteq> []"
    then obtain i t ys where "posted st = [] @ (i, t) # ys" by (cases "posted st") auto
    from settling.ws_response [OF assms(3) this _ ws_step_response] assms(4) show False by auto
  qed
  moreover have "quiescent (sys_pool st)"
  proof (rule ccontr)
    assume "\<not> quiescent (sys_pool st)"
    then obtain p' where "internal (work_env P) (sys_pool st) p'"
      using not_quiescent_steps [OF assms(1)] assms(2) by (auto simp: system_inv_def pool_ok_def)
    from settling.pool [OF assms(3) this] assms(4) show False by blast
  qed
  ultimately show ?thesis using quiescent_pending by (simp add: owed_def)
qed

text \<open>A program for the witness, and a connection on which a work request was read.\<close>

definition sample_program :: "((string \<times> string) list, string) program" where
  "sample_program = \<lparr>work_env = sample_env, web_lib = sample_web, write_json = (\<lambda>r. ''{}''), peer_loopback = (\<lambda>i. True)\<rparr>"

definition sample_work :: request where
  "sample_work = sample_post\<lparr>req_body := ''low''\<rparr>"

lemma sample_read:
  "\<exists>st. system_reachable sample_program 5 st \<and> length (http_conns st) = 1 \<and> asked st = [Http 0] \<and> \<not> exited st"
proof -
  let ?P = sample_program and ?ev = "Read_done Success sample_work"
  let ?st = "(new_system ?P 5)\<lparr>http_conns := http_conns (new_system ?P 5) @ [new_conn 0]\<rparr>"
  let ?S = "site_of ?P (peer_loopback ?P 0) ?st"
  have not_exited: "\<not> exited (new_system ?P 5)" by (simp add: new_system_def)
  have st: "system_reachable ?P 5 ?st"
    by (rule system_reachable.step [OF system_reachable.start system_step.connect [OF not_exited]])
  obtain c' where c': "conn_event ?S (0, ?ev) (http_conns ?st ! 0) = Some c'"
    by (simp add: conn_event_def new_system_def new_conn_eq)
  have f: "find_endpoint rest_endpoints Post ''/'' = Some (Work, [])"
    by (simp add: rest_endpoints_def add_endpoint_def add_get_endpoint_def add_post_endpoint_def
        add_delete_endpoint_def path_regex_def)
  have routed: "routed ?S ?ev = Some (Work, ''low'')"
    by (simp add: sample_work_def sample_post_def sample_get_def handle_request_def site_of_def f)
  have "system_step ?P ?st ((after_call ?P (Http 0) (routed ?S ?ev) ?st)
     \<lparr>http_conns := (http_conns ?st)[0 := c'], websockets := websockets ?st @ upgrades 0 ?ev,
      asked := asked ?st @ (if asks ?ev then [Http 0] else [])\<rparr>)"
    by (rule system_step.http_event [OF _ _ _ c']) (simp_all add: new_system_def)
  from system_reachable.step [OF st this] show ?thesis
    by (intro exI conjI) (assumption, simp_all only: routed, simp_all add: after_call_def new_system_def
      sample_work_def sample_post_def sample_get_def)
qed

section \<open>Properties\<close>

text \<open>
  C1. No request is lost or answered twice, in the whole program: in every reachable state and for
  every HTTP connection, the requests read are as many as the responses on the wire or waiting in
  the pipeline, plus the answers the work handler still owes it; at most one write is in flight.
  For every WebSocket session the messages read are as many as the responses handed over or posted
  to its strand, plus the answers owed. When the pool is at rest nothing is owed to anyone.
\<close>

theorem requests_conserved:
  assumes "system_reachable P d st"
  shows "(\<forall>i < length (http_conns st). let c = http_conns st ! i in
      count_list (asked st) (Http i)
        = length (wire c @ tl (items (sess c))) + owed (pending (sys_pool st)) (captured st) (Http i) \<and> writing c \<le> 1) \<and>
    (\<forall>i < length (websockets st). count_list (asked st) (Ws i)
        = handed (websockets st ! i) + length (filter (\<lambda>x. fst x = i) (posted st))
          + owed (pending (sys_pool st)) (captured st) (Ws i)) \<and>
    (quiescent (sys_pool st) \<longrightarrow> (\<forall>s. owed (pending (sys_pool st)) (captured st) s = 0))"
proof (intro conjI allI impI)
  from system_reachable_inv [OF assms] have I: "sessions_ok st" "balanced st"
    by (simp_all add: system_inv_def)
  {
    fix i assume i: "i < length (http_conns st)"
    then have "wire_inv (http_conns st ! i)" using I(1) by (simp add: sessions_ok_def)
    from wire_inv_wire [OF this] i I(2) [unfolded balanced_def, rule_format, of "Http i"]
    show "let c = http_conns st ! i in count_list (asked st) (Http i)
        = length (wire c @ tl (items (sess c))) + owed (pending (sys_pool st)) (captured st) (Http i) \<and> writing c \<le> 1"
      by (simp add: Let_def del: length_append)
  next
    fix i assume "i < length (websockets st)"
    with I(2) [unfolded balanced_def, rule_format, of "Ws i"]
    show "count_list (asked st) (Ws i) = handed (websockets st ! i)
        + length (filter (\<lambda>x. fst x = i) (posted st)) + owed (pending (sys_pool st)) (captured st) (Ws i)" by simp
  next
    fix s assume "quiescent (sys_pool st)"
    then show "owed (pending (sys_pool st)) (captured st) s = 0" by (simp add: owed_def quiescent_pending)
  }
qed

theorem requests_conserved_witness:
  "\<exists>st. system_reachable sample_program 5 st \<and> asked st = [Http 0] \<and>
     (let c = http_conns st ! 0 in
       length (wire c @ tl (items (sess c))) + owed (pending (sys_pool st)) (captured st) (Http 0) = 1)"
proof -
  obtain st where st: "system_reachable sample_program 5 st" "length (http_conns st) = 1" "asked st = [Http 0]"
    using sample_read by blast
  from requests_conserved [OF st(1)] st(2)
  have "let c = http_conns st ! 0 in count_list (asked st) (Http 0)
      = length (wire c @ tl (items (sess c))) + owed (pending (sys_pool st)) (captured st) (Http 0) \<and> writing c \<le> 1"
    by (elim conjE allE [of _ 0]) simp
  with st show ?thesis by (intro exI [of _ st]) (simp add: Let_def)
qed

text \<open>
  C2. The program answers everyone: whatever happened before, as long as nobody stops the server,
  letting it settle (the pool's threads and the posted lambdas run, nothing new comes in) takes
  finitely many steps under every schedule, and then every request of every session has been
  answered: the responses handed to a session are as many as the requests it made.
\<close>

theorem program_answers_all:
  assumes "libs_laws (libs (work_env P))" "system_reachable P d st" "\<not> exited st"
  shows "(\<forall>st'. settling P st st' \<longrightarrow> unsettled st' < unsettled st) \<and>
    (\<forall>st'. (settling P)\<^sup>*\<^sup>* st st' \<longrightarrow> (\<nexists>st''. settling P st' st'') \<longrightarrow>
       asked st' = asked st \<and>
       (\<forall>i < length (http_conns st'). length (sent (http_conns st' ! i)) = count_list (asked st) (Http i)) \<and>
       (\<forall>i < length (websockets st'). handed (websockets st' ! i) = count_list (asked st) (Ws i)))"
proof (intro conjI allI impI)
  note inv = system_reachable_inv [OF assms(2)]
  fix st' assume "settling P st st'"
  then show "unsettled st' < unsettled st" using settling_frame inv by blast
next
  fix st' assume st': "(settling P)\<^sup>*\<^sup>* st st'" "\<nexists>st''. settling P st' st''"
  note run = settling_run [OF st'(1) system_reachable_inv [OF assms(2)]]
  then show "asked st' = asked st" by simp
  have settled: "posted st' = []" "owed (pending (sys_pool st')) (captured st') s = 0" for s
    using settled_state [OF assms(1) _ _ st'(2)] run assms(3) by blast+
  have bal: "valid st' s \<Longrightarrow> count_list (asked st) s = handed_to st' s" for s
    using run settled(2) [of s] by (auto simp: system_inv_def balanced_def)
  fix i
  show "i < length (http_conns st') \<Longrightarrow> length (sent (http_conns st' ! i)) = count_list (asked st) (Http i)"
    using bal [of "Http i"] by simp
  show "i < length (websockets st') \<Longrightarrow> handed (websockets st' ! i) = count_list (asked st) (Ws i)"
    using bal [of "Ws i"] settled(1) by simp
qed

theorem program_answers_all_witness:
  "\<exists>st st'. system_reachable sample_program 5 st \<and> asked st = [Http 0] \<and>
     (settling sample_program)\<^sup>*\<^sup>* st st' \<and> length (sent (http_conns st' ! 0)) = 1"
proof -
  obtain st where st: "system_reachable sample_program 5 st" "asked st = [Http 0]" "\<not> exited st"
    using sample_read by blast
  note inv = system_reachable_inv [OF st(1)]
  obtain st' where st': "(settling sample_program)\<^sup>*\<^sup>* st st'" "\<nexists>st''. settling sample_program st' st''"
    using settling_ends [OF inv] by blast
  have "valid st' (Http 0)"
    using settling_run [OF st'(1) inv] st(2) by (auto simp: system_inv_def sessions_ok_def)
  moreover have "libs_laws (libs (work_env sample_program))" by (simp add: sample_program_def sample_libs_laws)
  ultimately have "length (sent (http_conns st' ! 0)) = 1"
    using program_answers_all [OF _ st(1,3)] st' st(2) by simp
  with st st' show ?thesis by blast
qed

text \<open>
  C32. The interface of the program: which request reaches which handler. Work requests are posted
  to the root or to the work path, the queue is listed and deleted under one path, and everything
  else, in particular a target with a query string or with another verb, reaches no handler.
\<close>

theorem endpoint_table:
  "find_endpoint rest_endpoints v t =
    (if v = Post \<and> t \<in> {''/'', ''/api/v1/work''} then Some (Work, [])
     else if v = Get \<and> t = ''/api/v1/work/queue'' then Some (Work_queue, [])
     else if v = Delete \<and> t = ''/api/v1/work/queue'' then Some (Work_queue_delete, [])
     else if v = Get \<and> t = ''/api/v1/ping'' then Some (Ping, [])
     else if v = Get \<and> t = ''/api/v1/stop'' then Some (Stop, [])
     else if v = Get \<and> t = ''/api/v1/version'' then Some (Version, [])
     else None)"
  unfolding find_endpoint_plain [OF rest_endpoints_regex]
  by (auto simp: rest_endpoints_def add_get_endpoint_def add_post_endpoint_def add_delete_endpoint_def add_endpoint_def)


end
