(* ===== verification/Spec2Isabelle.thy ===== *)
theory Spec2Isabelle
  imports Difficulty Nano_Pow_Server
begin

text \<open>
  A verification development for the nano PoW server, a server that takes proof-of-work requests
  over HTTP and WebSocket, queues them by priority and hands them to worker threads, one per
  configured device.

  \<^bold>\<open>The program and its parts.\<close> \<^verbatim>\<open>src/entry/nano_pow_server.cpp\<close> reads the options and the
  configuration (\<^verbatim>\<open>workserver/config.hpp\<close>), creates the work handler (\<^verbatim>\<open>workserver/work_handler.hpp\<close>
  and \<^verbatim>\<open>.cpp\<close>) and the web server (\<^verbatim>\<open>workserver/webserver.hpp\<close>), and registers the endpoints.
  A listener accepts connections and starts an HTTP session for each; a session reads requests, routes
  them to endpoints or static files, and sends responses through a pipeline; an upgrade turns it into a
  WebSocket session. The work endpoint passes the body and a response handler that captures the session
  to the work handler, which answers at once or pushes a job and posts a closure to its thread pool. The
  closure pops a job, acquires a device, and calls the response handler. Hash, work and difficulty values
  are the fixed-width integers of \<^verbatim>\<open>workserver/util.hpp\<close>.

  \<^bold>\<open>The theories.\<close>
  \<^item> \<^verbatim>\<open>Prelude\<close>: exceptions as values (\<open>exn + 'a\<close>), the collections of simplification rules,
    generic lemmas on lists and multisets.
  \<^item> \<^verbatim>\<open>Std_Heap\<close>: \<^verbatim>\<open>std::priority_queue\<close> as a binary heap in a list, with the priority queue
    interface as a locale and the heap as its interpretation.
  \<^item> \<^verbatim>\<open>Externals\<close>: the interfaces of Boost.Multiprecision and of the number and text routines of the
    standard library that the code uses, with the laws relied on and an instance that satisfies them.
  \<^item> \<^verbatim>\<open>Bigint\<close>, \<^verbatim>\<open>Difficulty\<close>: \<^verbatim>\<open>util.hpp\<close>. A value is its array of bytes (\<open>bigint\<close>);
    \<open>to_hex\<close>, \<open>from_hex\<close> and \<open>to_dec\<close> convert it; \<open>to_multiplier\<close> and \<open>from_multiplier\<close>.
    Shown: the round trips, every error of \<open>from_hex\<close>, the exact value and the bounds of a difficulty.
  \<^item> \<^verbatim>\<open>Job_Queue\<close>: the class \<^verbatim>\<open>job\<close> and the queue operations of \<^verbatim>\<open>work_handler.hpp\<close>. Shown: the
    order in which jobs leave the queue, cancellation as a filter, and where the order breaks when the
    32-bit id counter wraps.
  \<^item> \<^verbatim>\<open>Config\<close>: \<^verbatim>\<open>config.hpp\<close>; the parsed TOML tree is an argument. Shown: defaults, the list of
    devices, and that the documented export keeps every line and is inert.
  \<^item> \<^verbatim>\<open>Devices\<close>: \<^verbatim>\<open>registered_device\<close> and \<^verbatim>\<open>aquire_first_available_device\<close>.
  \<^item> \<^verbatim>\<open>Work_Handler\<close>: \<^verbatim>\<open>work_handler.cpp\<close> on the record \<open>handler\<close>: one function per critical section, the
    request parser and its three actions, the closure as one function (\<open>run_task\<close>), the queue requests.
    Shown: every request is answered or becomes one job and one closure, and nothing else changes; the
    number its hash and difficulty denote; every error reply; what a closure answers and records; the
    listing, entry by entry; that a closure serves the front job, whoever asked for it.
  \<^item> \<^verbatim>\<open>Pool\<close>: the same closure step by step (\<open>worker_step\<close>), one step per access to shared
    state, and the step relations \<open>client\<close> and \<open>internal\<close> in which clients, posting threads and workers
    interleave freely. Shown: invariants of the queue, the devices and the active set, that no device
    is leaked, that every schedule ends and then has answered everything, and, as a lemma that ties the two
    views together, that \<open>run_task\<close> is one of the schedules.
  \<^item> \<^verbatim>\<open>Service\<close>: what the work handler promises the web server, as an abstract service that owes
    and gives answers, and a locale with what follows from the promise; the pool is its interpretation.
  \<^item> \<^verbatim>\<open>Http\<close>: URL parser, MIME types, paths, routing and \<open>handle_request\<close>. Shown: what a route
    matches, what reaches a handler, that no file outside the document root is served, and the table of
    all answers the server gives by itself.
  \<^item> \<^verbatim>\<open>Writer\<close>: the locale of a serial writer, the contract of the response pipeline and of the
    WebSocket send queue, interpreted on both.
  \<^item> \<^verbatim>\<open>Http_Session\<close>, \<^verbatim>\<open>Websocket\<close>: the completion handlers of the two kinds of session as functions
    that return the actions they take, and runs of a connection as sequences of completed operations.
    Shown: order of responses, flow control and where it fails, keep-alive, stalling after a failed write.
  \<^item> \<^verbatim>\<open>Web_Server\<close>: \<^verbatim>\<open>listener\<close> and \<^verbatim>\<open>webserver\<close>. Shown: the accept loop for all outcomes of
    its socket calls, the number of threads.
  \<^item> \<^verbatim>\<open>Nano_Pow_Server\<close>: the entry point, and the whole program as the step relation \<open>system_step\<close>
    over connections, the work handler and the captured sessions. Shown: the endpoint table, and that
    across all parts every request read is answered or owed an answer, exactly once, and that the program
    always settles in a state where everything asked has been answered (measure \<open>unsettled\<close>).

  \<^bold>\<open>Conventions.\<close> Exceptions are values of \<open>exn + 'a\<close>; machine integers are words of their
  width; times are integers given as inputs. Handlers of one session run on its strand and are therefore
  single steps; accesses of pool threads are single steps and interleave. A response handler is a number:
  in \<^verbatim>\<open>Nano_Pow_Server\<close> it is the index of the session it captures. Drawing a job id and pushing the job
  are one step. An answer that comes from the pool enters its HTTP session in one step, although the
  code does not go through the strand there (a finding). The set of active jobs is refreshed by key, which
  is exact while job ids are distinct. No fuel is used: every function is total, and termination of the pool is a property,
  proved with the measure \<open>remaining\<close>.

  \<^bold>\<open>Parameters.\<close> Boost.Multiprecision, Boost.Beast's \<^verbatim>\<open>prepare_payload\<close>, \<^verbatim>\<open>need_eof\<close>,
  \<^verbatim>\<open>iequals\<close> and \<^verbatim>\<open>file_body\<close>, Boost's property trees and circular buffer, cpptoml, the file system, and the
  outcomes of socket operations are arguments. Where a property relies on them, the documented behaviour is a
  named hypothesis (\<open>libs_laws\<close>, \<open>ring_law\<close>, \<open>iequals_law\<close>, \<open>payload_law\<close>) with an instance.

  \<^bold>\<open>Not modelled.\<close> Logging; Boost.Program_options beyond its result; signal handling and
  the joining of threads; the destructor of the work handler; data races on memory that no strand or mutex
  protects and the lifetime of buffers (both are recorded as findings); the branches for Windows; regular
  expressions with metacharacters, which no path of the program contains (a path is a literal text with
  groups); failures of memory allocation and of thread creation; the unit tests, the browser
  interface under \<^verbatim>\<open>public\<close>, the build scripts and the client sample.
\<close>

end
